(* ===== verification/Prelude.thy ===== *)
theory Prelude
  imports Main "HOL-Library.Word" "HOL-Library.List_Lexorder"
begin

text \<open>
  Shared vocabulary of the development: octets and octet strings, Python strings as lists of
  code points, JSON values as \<^verbatim>\<open>json.loads\<close> builds them, hash functions and the notion of an explicit
  collision, and the list lemmas the components use.
\<close>

named_theorems cv_simps \<open>unfolding and evaluation facts shared by the components\<close>

section \<open>Octets, strings, JSON values\<close>

type_synonym byte = "8 word"
type_synonym bytes = "byte list"

text \<open>A Python \<^verbatim>\<open>str\<close> is a sequence of code points; \<open>lit\<close> turns a literal into one.\<close>

type_synonym pystr = "nat list"

definition lit :: "string \<Rightarrow> pystr" where
  "lit = map of_char"

text \<open>
  The values \<^verbatim>\<open>json.loads\<close> can return under the acceptance profile (floats are refused there). A
  \<^verbatim>\<open>dict\<close> keeps insertion order, so an object is an association list.
\<close>

datatype json =
    JNull
  | JBool bool
  | JInt int
  | JStr pystr
  | JArr "json list"
  | JObj "(pystr \<times> json) list"

text \<open>The truth value of a decoded value in a condition.\<close>

fun truthy :: "json \<Rightarrow> bool" where
  "truthy JNull = False"
| "truthy (JBool b) = b"
| "truthy (JInt n) = (n \<noteq> 0)"
| "truthy (JStr s) = (s \<noteq> [])"
| "truthy (JArr vs) = (vs \<noteq> [])"
| "truthy (JObj kvs) = (kvs \<noteq> [])"

text \<open>A hash function is a parameter of the model: octet strings to octet strings.\<close>

type_synonym hashf = "bytes \<Rightarrow> bytes"

text \<open>
  The hash functions are not injective, so integrity is stated by extraction: a claim fails only if
  the data at hand hold two different inputs with one hash value. The set of inputs is always written
  out, since over all octet strings a collision always exists.
\<close>

definition collision :: "('a \<Rightarrow> 'b) \<Rightarrow> 'a set \<Rightarrow> bool" where
  "collision H S \<longleftrightarrow> (\<exists>x\<in>S. \<exists>y\<in>S. x \<noteq> y \<and> H x = H y)"

lemma collisionI: "x \<in> S \<Longrightarrow> y \<in> S \<Longrightarrow> x \<noteq> y \<Longrightarrow> H x = H y \<Longrightarrow> collision H S"
  by (auto simp: collision_def)

lemma collision_mono: "collision H S \<Longrightarrow> S \<subseteq> T \<Longrightarrow> collision H T"
  by (auto simp: collision_def)

lemma or_collision_mono: "A \<or> collision H S \<Longrightarrow> S \<subseteq> T \<Longrightarrow> A \<or> collision H T"
  using collision_mono by blast

lemma collision_free_inj: "\<not> collision H S \<longleftrightarrow> inj_on H S"
  by (auto simp: collision_def inj_on_def)

text \<open>A small executable 32-octet function, used where a statement is evaluated at concrete data.\<close>

definition example_hash :: hashf where
  "example_hash bs = replicate 31 0 @ [fold (\<lambda>b acc. 3 * acc + b + 1) bs 0]"

lemma length_example_hash [simp]: "length (example_hash bs) = 32"
  by (simp add: example_hash_def)

section \<open>List lemmas\<close>

lemma lit_Nil [simp]: "lit [] = []"
  by (simp add: lit_def)

lemma lit_Cons [simp]: "lit (c # cs) = of_char c # lit cs"
  by (simp add: lit_def)

lemma length_lit [simp]: "length (lit s) = length s"
  by (simp add: lit_def)

lemma append_same_length_eq:
  "length a = length c \<Longrightarrow> a @ b = c @ d \<longleftrightarrow> a = c \<and> b = d"
  by simp

end
