(* ===== verification/Py_Str.thy ===== *)
theory Py_Str
  imports Prelude
begin

text \<open>
  The Python string operations the sources use: hexadecimal and decimal rendering, \<^verbatim>\<open>int(s, 16)\<close> with all the
  spellings Python accepts, \<^verbatim>\<open>str.join\<close>, ASCII encoding. The lemmas are the round trips the JSON and the hash
  renderings rest on.
\<close>

section \<open>Results\<close>

text \<open>A fallible operation returns \<open>Inl\<close> an error or \<open>Inr\<close> a value; \<open>bindE\<close> sequences two of them.\<close>

fun bindE :: "'e + 'a \<Rightarrow> ('a \<Rightarrow> 'e + 'b) \<Rightarrow> 'e + 'b" where
  "bindE (Inl e) f = Inl e"
| "bindE (Inr x) f = f x"

lemma bindE_Inr_iff [simp]: "bindE m f = Inr y \<longleftrightarrow> (\<exists>x. m = Inr x \<and> f x = Inr y)"
  by (cases m) auto

lemma bindE_Inl_iff: "bindE m f = Inl e \<longleftrightarrow> m = Inl e \<or> (\<exists>x. m = Inr x \<and> f x = Inl e)"
  by (cases m) auto

lemma case_list_Inr [simp]:
  "(case xs of [] \<Rightarrow> Inl e | d # t \<Rightarrow> f d t) = Inr y \<longleftrightarrow> (\<exists>d t. xs = d # t \<and> f d t = Inr y)"
  by (cases xs) auto

lemma case_option_Inr [simp]:
  "(case m of None \<Rightarrow> Inl e | Some x \<Rightarrow> f x) = Inr y \<longleftrightarrow> (\<exists>x. m = Some x \<and> f x = Inr y)"
  by (cases m) auto

lemma if_Inl_Inr [simp]:
  "(if b then Inl e else m) = Inr y \<longleftrightarrow> \<not> b \<and> m = Inr y"
  "(if b then m else Inl e) = Inr y \<longleftrightarrow> b \<and> m = Inr y"
  by auto

section \<open>Digits\<close>

definition is_digit :: "nat \<Rightarrow> bool" where
  "is_digit c \<longleftrightarrow> 48 \<le> c \<and> c \<le> 57"

definition hex_digit :: "nat \<Rightarrow> nat" where
  "hex_digit n = (if n < 10 then 48 + n else 87 + n)"

definition hexval :: "nat \<Rightarrow> nat option" where
  "hexval c =
     (if 48 \<le> c \<and> c \<le> 57 then Some (c - 48)
      else if 97 \<le> c \<and> c \<le> 102 then Some (c - 87)
      else if 65 \<le> c \<and> c \<le> 70 then Some (c - 55)
      else None)"

lemma hexval_hex_digit [simp]: "n < 16 \<Longrightarrow> hexval (hex_digit n) = Some n"
  by (auto simp: hexval_def hex_digit_def)

lemma hex_digit_inj: "a < 16 \<Longrightarrow> b < 16 \<Longrightarrow> hex_digit a = hex_digit b \<Longrightarrow> a = b"
  by (metis hexval_hex_digit option.inject)

lemma hexval_less: "hexval c = Some v \<Longrightarrow> v < 16"
  by (auto simp: hexval_def split: if_splits)

text \<open>Four lower-case hexadecimal digits, as \<^verbatim>\<open>'{0:04x}'.format(n)\<close> writes a number below 65536.\<close>

definition hex4 :: "nat \<Rightarrow> pystr" where
  "hex4 n = [hex_digit (n div 4096 mod 16), hex_digit (n div 256 mod 16), hex_digit (n div 16 mod 16), hex_digit (n mod 16)]"

definition hex4_val :: "pystr \<Rightarrow> nat option" where
  "hex4_val s =
     (case s of
        [a, b, c, d] \<Rightarrow>
          (case (hexval a, hexval b, hexval c, hexval d) of
             (Some w, Some x, Some y, Some z) \<Rightarrow> Some (4096 * w + 256 * x + 16 * y + z)
           | _ \<Rightarrow> None)
      | _ \<Rightarrow> None)"

lemma length_hex4 [simp]: "length (hex4 n) = 4"
  by (simp add: hex4_def)

lemma hex4_val_hex4 [simp]: "n < 65536 \<Longrightarrow> hex4_val (hex4 n) = Some n"
proof -
  have "n div 256 = 16 * (n div 4096) + n div 256 mod 16" "n div 16 = 16 * (n div 256) + n div 16 mod 16"
    using mult_div_mod_eq [of 16 "n div 256"] mult_div_mod_eq [of 16 "n div 16"]
    by (simp_all add: div_mult2_eq [symmetric])
  then have "4096 * (n div 4096) + 256 * (n div 256 mod 16) + 16 * (n div 16 mod 16) + n mod 16 = n"
    using mult_div_mod_eq [of 16 n] by linarith
  moreover assume "n < 65536"
  ultimately show ?thesis by (simp add: hex4_val_def hex4_def)
qed

lemma hex4_val_length: "hex4_val s = Some v \<Longrightarrow> length s = 4 \<and> v < 65536"
  by (auto simp: hex4_val_def split: list.splits option.splits dest!: hexval_less)

subsection \<open>\<^verbatim>\<open>int(s, 16)\<close>\<close>

text \<open>
  Python first maps every Unicode decimal digit to its ASCII digit and every space to a blank (strings
  that are ASCII are taken as they are), then strips blanks and reads a sign, an optional \<^verbatim>\<open>0x\<close>, and
  digits with single underscores between them. The tables are those of Unicode 14 (\<^verbatim>\<open>str.isspace\<close>, and the
  zeros of the decimal digit blocks).
\<close>

definition unicode_zeros :: "nat list" where
  "unicode_zeros = [1632, 1776, 1984, 2406, 2534, 2662, 2790, 2918, 3046, 3174, 3302, 3430, 3558, 3664, 3792, 3872,
     4160, 4240, 6112, 6160, 6470, 6608, 6784, 6800, 6992, 7088, 7232, 7248, 42528, 43216, 43264, 43472, 43504, 43600,
     44016, 65296, 66720, 68912, 69734, 69872, 69942, 70096, 70384, 70736, 70864, 71248, 71360, 71472, 71904, 72016,
     72784, 73040, 73120, 92768, 92864, 93008, 120782, 120792, 120802, 120812, 120822, 123200, 123632, 125264, 130032]"

definition unicode_spaces :: "nat list" where
  "unicode_spaces = [133, 160, 5760, 8192, 8193, 8194, 8195, 8196, 8197, 8198, 8199, 8200, 8201, 8202, 8232, 8233, 8239,
     8287, 12288]"

definition to_ascii_digit :: "nat \<Rightarrow> nat" where
  "to_ascii_digit c =
     (if c < 127 then c
      else if c \<in> set unicode_spaces then 32
      else case find (\<lambda>z. z \<le> c \<and> c \<le> z + 9) unicode_zeros of Some z \<Rightarrow> 48 + (c - z) | None \<Rightarrow> 63)"

definition c_space :: "nat \<Rightarrow> bool" where
  "c_space c \<longleftrightarrow> c = 32 \<or> (9 \<le> c \<and> c \<le> 13)"

fun underscore_hex :: "nat \<Rightarrow> bool \<Rightarrow> pystr \<Rightarrow> nat option" where
  "underscore_hex acc after_digit [] = (if after_digit then Some acc else None)"
| "underscore_hex acc after_digit (c # cs) =
     (if c = 95 then (if after_digit then underscore_hex acc False cs else None)
      else case hexval c of None \<Rightarrow> None | Some v \<Rightarrow> underscore_hex (16 * acc + v) True cs)"

definition unsigned_hex :: "pystr \<Rightarrow> nat option" where
  "unsigned_hex s =
     (case s of
        a # b # r \<Rightarrow>
          if a = 48 \<and> (b = 120 \<or> b = 88)
          then underscore_hex 0 False (case r of c # r' \<Rightarrow> if c = 95 then r' else r | [] \<Rightarrow> [])
          else underscore_hex 0 False s
      | _ \<Rightarrow> underscore_hex 0 False s)"

definition strip_spaces :: "pystr \<Rightarrow> pystr" where
  "strip_spaces s = rev (dropWhile c_space (rev (dropWhile c_space s)))"

definition py_int16 :: "pystr \<Rightarrow> int option" where
  "py_int16 s =
     (case strip_spaces (map to_ascii_digit s) of
        [] \<Rightarrow> None
      | c # cs \<Rightarrow>
          if c = 45 then map_option (\<lambda>n. - int n) (unsigned_hex cs)
          else if c = 43 then map_option int (unsigned_hex cs)
          else map_option int (unsigned_hex (c # cs)))"

lemma hexval_plain: "hexval c = Some v \<Longrightarrow> to_ascii_digit c = c \<and> \<not> c_space c \<and> c \<noteq> 45 \<and> c \<noteq> 43 \<and> c \<noteq> 95 \<and> c \<noteq> 120 \<and> c \<noteq> 88"
  by (auto simp: hexval_def to_ascii_digit_def c_space_def split: if_splits)

lemma py_int16_hex4_val:
  assumes "hex4_val s = Some v"
  shows "py_int16 s = Some (int v)"
proof -
  obtain a b c d w x y z where s: "s = [a, b, c, d]" and h: "hexval a = Some w" "hexval b = Some x" "hexval c = Some y" "hexval d = Some z"
    and v: "v = 4096 * w + 256 * x + 16 * y + z"
    using assms by (auto simp: hex4_val_def split: list.splits option.splits)
  note p = hexval_plain [OF h(1)] hexval_plain [OF h(2)] hexval_plain [OF h(3)] hexval_plain [OF h(4)]
  show ?thesis using p h v by (simp add: s py_int16_def strip_spaces_def unsigned_hex_def)
qed

subsection \<open>Decimal rendering\<close>

fun nat_str :: "nat \<Rightarrow> pystr" where
  "nat_str n = (if n < 10 then [48 + n] else nat_str (n div 10) @ [48 + n mod 10])"

declare nat_str.simps [simp del]

definition int_str :: "int \<Rightarrow> pystr" where
  "int_str i = (if i < 0 then 45 # nat_str (nat (- i)) else nat_str (nat i))"

definition digits_val :: "pystr \<Rightarrow> nat" where
  "digits_val = foldl (\<lambda>n c. 10 * n + (c - 48)) 0"

lemma digits_val_snoc: "digits_val (s @ [c]) = 10 * digits_val s + (c - 48)"
  by (simp add: digits_val_def)

lemma digits_val_nat_str [simp]: "digits_val (nat_str n) = n"
proof (induction n rule: nat_str.induct)
  case (1 n)
  show ?case
  proof (cases "n < 10")
    case True
    then show ?thesis by (subst nat_str.simps) (simp add: digits_val_def)
  next
    case False
    then have "digits_val (nat_str n) = 10 * digits_val (nat_str (n div 10)) + n mod 10"
      by (subst nat_str.simps) (simp add: digits_val_snoc)
    then show ?thesis using 1 False by simp
  qed
qed

lemma nat_str_digits: "c \<in> set (nat_str n) \<Longrightarrow> is_digit c"
proof (induction n rule: nat_str.induct)
  case (1 n)
  have "n mod 10 < 10" by simp
  with 1 show ?case by (cases "n < 10") (auto simp: nat_str.simps [of n] is_digit_def)
qed

lemma nat_str_Cons: "\<exists>c cs. nat_str n = c # cs \<and> (c = 48 \<longrightarrow> n = 0 \<and> cs = []) \<and> is_digit c"
proof (induction n rule: nat_str.induct)
  case (1 n)
  show ?case
  proof (cases "n < 10")
    case True
    then show ?thesis by (simp add: nat_str.simps [of n] is_digit_def)
  next
    case False
    then obtain c cs where "nat_str (n div 10) = c # cs" "c = 48 \<longrightarrow> n div 10 = 0 \<and> cs = []" "is_digit c"
      using 1 by blast
    with False show ?thesis by (subst nat_str.simps) auto
  qed
qed

lemma nat_str_inj: "nat_str a = nat_str b \<longleftrightarrow> a = b"
  by (metis digits_val_nat_str)

lemma int_str_inj [simp]: "int_str a = int_str b \<longleftrightarrow> a = b"
proof
  assume e: "int_str a = int_str b"
  have no_minus: "nat_str n \<noteq> 45 # r" for n r
    using nat_str_digits [of 45 n] by (auto simp: is_digit_def)
  show "a = b"
    using e no_minus no_minus [symmetric] by (auto simp: int_str_def nat_str_inj split: if_splits)
qed simp

section \<open>Joining and encoding\<close>

fun join :: "pystr \<Rightarrow> pystr list \<Rightarrow> pystr" where
  "join sep [] = []"
| "join sep [x] = x"
| "join sep (x # y # xs) = x @ sep @ join sep (y # xs)"

lemma join_Cons: "join sep (x # xs) = (if xs = [] then x else x @ sep @ join sep xs)"
  by (cases xs) auto

text \<open>\<^verbatim>\<open>str.encode()\<close> of a text that is ASCII.\<close>

definition ascii_bytes :: "pystr \<Rightarrow> bytes" where
  "ascii_bytes = map of_nat"

lemma ascii_bytes_inj:
  assumes "\<forall>c\<in>set s. c < 256" "\<forall>c\<in>set t. c < 256" "ascii_bytes s = ascii_bytes t"
  shows "s = t"
proof -
  have "map unat (ascii_bytes x) = x" if "\<forall>c\<in>set x. c < 256" for x
    using that by (auto simp: ascii_bytes_def unat_of_nat intro!: map_idI)
  then show ?thesis using assms by metis
qed

end
