(* ===== verification/Py_Json.thy ===== *)
theory Py_Json
  imports Py_Str
begin

text \<open>
  JSON as the verifier uses it (\<^verbatim>\<open>src/verifier.py\<close>): the writer \<^verbatim>\<open>json.dumps\<close> with its ASCII escapes, the sorted
  canonical form, the reader \<^verbatim>\<open>json.loads\<close> with the acceptance-profile hooks (\<^verbatim>\<open>_reject_dup\<close>, \<^verbatim>\<open>_no_float\<close>,
  \<^verbatim>\<open>_bounded_int\<close>), and the two linear scans that run before it (nesting depth, lone surrogates).
\<close>

section \<open>Writing\<close>

definition esc_char :: "nat \<Rightarrow> pystr" where
  "esc_char c =
     (if c = 34 then [92, 34] else if c = 92 then [92, 92] else if c = 10 then [92, 110]
      else if c = 13 then [92, 114] else if c = 9 then [92, 116] else if c = 12 then [92, 102]
      else if c = 8 then [92, 98] else if 32 \<le> c \<and> c \<le> 126 then [c]
      else if c < 65536 then 92 # 117 # hex4 c
      else (92 # 117 # hex4 (55296 + (c - 65536) div 1024 mod 1024)) @ (92 # 117 # hex4 (56320 + (c - 65536) mod 1024)))"

definition dumps_str :: "pystr \<Rightarrow> pystr" where
  "dumps_str s = 34 # concat (map esc_char s) @ [34]"

text \<open>\<^verbatim>\<open>json.dumps\<close> with item and key separators; keys in the order of the dictionary.\<close>

fun dumps_sep :: "pystr \<Rightarrow> pystr \<Rightarrow> json \<Rightarrow> pystr" where
  "dumps_sep i k JNull = lit ''null''"
| "dumps_sep i k (JBool b) = (if b then lit ''true'' else lit ''false'')"
| "dumps_sep i k (JInt n) = int_str n"
| "dumps_sep i k (JStr s) = dumps_str s"
| "dumps_sep i k (JArr vs) = 91 # join i (map (dumps_sep i k) vs) @ [93]"
| "dumps_sep i k (JObj kvs) = 123 # join i (map (\<lambda>(key, v). dumps_str key @ k @ dumps_sep i k v) kvs) @ [125]"

abbreviation dumps :: "json \<Rightarrow> pystr" where
  "dumps \<equiv> dumps_sep [44] [58]"

text \<open>\<^verbatim>\<open>sort_keys=True\<close>: every dictionary is written in the order of its keys (code point order).\<close>

fun sorted_keys :: "json \<Rightarrow> json" where
  "sorted_keys (JArr vs) = JArr (map sorted_keys vs)"
| "sorted_keys (JObj kvs) = JObj (sort_key fst (map (\<lambda>(k, v). (k, sorted_keys v)) kvs))"
| "sorted_keys v = v"

definition canonical_dumps :: "json \<Rightarrow> pystr" where
  "canonical_dumps v = dumps (sorted_keys v)"

section \<open>The scans before decoding\<close>

definition SAFE_INT :: int where
  "SAFE_INT = 2 ^ 53 - 1"

definition MAX_JSON_DEPTH :: int where
  "MAX_JSON_DEPTH = 512"

record scan =
  depth :: int
  max_depth :: int
  in_str :: bool
  esc :: bool

definition scan_char :: "scan \<Rightarrow> nat \<Rightarrow> scan" where
  "scan_char st ch =
     (if in_str st then
        (if esc st then st\<lparr>esc := False\<rparr>
         else if ch = 92 then st\<lparr>esc := True\<rparr>
         else if ch = 34 then st\<lparr>in_str := False\<rparr> else st)
      else if ch = 34 then st\<lparr>in_str := True\<rparr>
      else if ch = 91 \<or> ch = 123 then
        st\<lparr>depth := depth st + 1, max_depth := (if depth st + 1 > max_depth st then depth st + 1 else max_depth st)\<rparr>
      else if ch = 93 \<or> ch = 125 then st\<lparr>depth := depth st - 1\<rparr>
      else st)"

definition json_nesting_depth :: "pystr \<Rightarrow> int" where
  "json_nesting_depth text = max_depth (foldl scan_char \<lparr>depth = 0, max_depth = 0, in_str = False, esc = False\<rparr> text)"

definition is_high :: "int \<Rightarrow> bool" where
  "is_high cp \<longleftrightarrow> 55296 \<le> cp \<and> cp \<le> 56319"

definition is_low :: "int \<Rightarrow> bool" where
  "is_low cp \<longleftrightarrow> 56320 \<le> cp \<and> cp \<le> 57343"

definition raw_surrogate :: "pystr \<Rightarrow> bool" where
  "raw_surrogate text = list_ex (\<lambda>c. 55296 \<le> c \<and> c \<le> 57343) text"

text \<open>The suffix from position \<open>i\<close> on is the argument; \<open>i += k\<close> drops \<open>k\<close> characters.\<close>

function has_lone_surrogate :: "pystr \<Rightarrow> bool" where
  "has_lone_surrogate [] = False"
| "has_lone_surrogate (c # r) =
     (if c \<noteq> 92 then has_lone_surrogate r
      else if r \<noteq> [] \<and> hd r = 117 \<and> 5 \<le> length r then
        (case py_int16 (take 4 (drop 1 r)) of
           None \<Rightarrow> has_lone_surrogate (drop 1 r)
         | Some cp \<Rightarrow>
             if is_high cp then
               (if take 2 (drop 5 r) \<noteq> [92, 117] then True
                else case py_int16 (take 4 (drop 7 r)) of
                    None \<Rightarrow> True
                  | Some lo \<Rightarrow> if \<not> is_low lo then True else has_lone_surrogate (drop 11 r))
             else if is_low cp then True
             else has_lone_surrogate (drop 5 r))
      else has_lone_surrogate (drop 1 r))"
  by pat_completeness auto
termination
  by (relation "measure length") auto

section \<open>Reading\<close>

datatype json_error =
    Json_Too_Deep int
  | Not_Utf8
  | Lone_Surrogate
  | Duplicate_Key pystr
  | Float_Refused
  | Int_Out_Of_Range
  | Constant_Refused
  | Decode_Error
  | Out_Of_Fuel

definition skip_ws :: "pystr \<Rightarrow> pystr" where
  "skip_ws = dropWhile (\<lambda>c. c = 32 \<or> c = 9 \<or> c = 10 \<or> c = 13)"

definition strip_prefix :: "pystr \<Rightarrow> pystr \<Rightarrow> pystr option" where
  "strip_prefix p s = (if take (length p) s = p then Some (drop (length p) s) else None)"

text \<open>The characters of a string, after the opening quote; \<open>simple_escape\<close> is the table of one-letter escapes.\<close>

definition simple_escape :: "nat \<Rightarrow> nat option" where
  "simple_escape e = map_of [(34, 34), (92, 92), (47, 47), (98, 8), (102, 12), (110, 10), (114, 13), (116, 9)] e"

function scanstring :: "pystr \<Rightarrow> json_error + pystr \<times> pystr" where
  "scanstring [] = Inl Decode_Error"
| "scanstring (c # r) =
     (if c = 34 then Inr ([], r)
      else if c = 92 then
        (case r of
           [] \<Rightarrow> Inl Decode_Error
         | e # r1 \<Rightarrow>
             if e = 117 then
               (case hex4_val (take 4 r1) of
                  None \<Rightarrow> Inl Decode_Error
                | Some cp \<Rightarrow>
                    let r2 = drop 4 r1 in
                    (case (if is_high (int cp) \<and> take 2 r2 = [92, 117] then hex4_val (take 4 (drop 2 r2)) else None) of
                       Some lo \<Rightarrow>
                         if is_low (int lo)
                         then bindE (scanstring (drop 6 r2)) (\<lambda>(s, t). Inr ((65536 + (cp - 55296) * 1024 + (lo - 56320)) # s, t))
                         else bindE (scanstring r2) (\<lambda>(s, t). Inr (cp # s, t))
                     | None \<Rightarrow> bindE (scanstring r2) (\<lambda>(s, t). Inr (cp # s, t))))
             else
               (case simple_escape e of
                  None \<Rightarrow> Inl Decode_Error
                | Some x \<Rightarrow> bindE (scanstring r1) (\<lambda>(s, t). Inr (x # s, t))))
      else if c < 32 then Inl Decode_Error
      else bindE (scanstring r) (\<lambda>(s, t). Inr (c # s, t)))"
  by pat_completeness auto
termination
  by (relation "measure length") (auto split: if_splits)

declare scanstring.simps(2) [simp del] has_lone_surrogate.simps(2) [simp del]

definition bounded_int :: "int \<Rightarrow> json_error + int" where
  "bounded_int n = (if \<bar>n\<bar> > SAFE_INT then Inl Int_Out_Of_Range else Inr n)"

text \<open>What follows the integer part makes the number a float: a fraction or an exponent with a digit.\<close>

definition float_suffix :: "pystr \<Rightarrow> bool" where
  "float_suffix s =
     (case s of
        c # d # r \<Rightarrow>
          (c = 46 \<and> is_digit d) \<or>
          ((c = 101 \<or> c = 69) \<and> (is_digit d \<or> (d = 43 \<or> d = 45) \<and> r \<noteq> [] \<and> is_digit (hd r)))
      | _ \<Rightarrow> False)"

definition match_number :: "pystr \<Rightarrow> json_error + json \<times> pystr" where
  "match_number s =
     (let neg = (s \<noteq> [] \<and> hd s = 45); r = (if neg then tl s else s);
          ds = (if r \<noteq> [] \<and> hd r = 48 then [48] else takeWhile is_digit r); r' = drop (length ds) r in
      if ds = [] then Inl Decode_Error
      else if float_suffix r' then Inl Float_Refused
      else bindE (bounded_int (if neg then - int (digits_val ds) else int (digits_val ds))) (\<lambda>n. Inr (JInt n, r')))"

text \<open>\<^verbatim>\<open>object_pairs_hook=_reject_dup\<close>: the pairs in order, refused at the first key seen before.\<close>

fun reject_dup :: "pystr list \<Rightarrow> (pystr \<times> json) list \<Rightarrow> json_error + (pystr \<times> json) list" where
  "reject_dup seen [] = Inr []"
| "reject_dup seen ((k, v) # kvs) =
     (if k \<in> set seen then Inl (Duplicate_Key k)
      else bindE (reject_dup (k # seen) kvs) (\<lambda>m. Inr ((k, v) # m)))"

text \<open>Words without a hook argument: the constants the decoder knows.\<close>

definition scan_word :: "pystr \<Rightarrow> json_error + json \<times> pystr" where
  "scan_word s =
     (case strip_prefix (lit ''null'') s of Some r \<Rightarrow> Inr (JNull, r) | None \<Rightarrow>
      case strip_prefix (lit ''true'') s of Some r \<Rightarrow> Inr (JBool True, r) | None \<Rightarrow>
      case strip_prefix (lit ''false'') s of Some r \<Rightarrow> Inr (JBool False, r) | None \<Rightarrow>
      case strip_prefix (lit ''NaN'') s of Some r \<Rightarrow> Inl Constant_Refused | None \<Rightarrow>
      case strip_prefix (lit ''Infinity'') s of Some r \<Rightarrow> Inl Constant_Refused | None \<Rightarrow>
      case strip_prefix (lit ''-Infinity'') s of Some r \<Rightarrow> Inl Constant_Refused | None \<Rightarrow>
      match_number s)"

text \<open>
  The recursive descent, with fuel. \<open>parse_elems\<close> and \<open>parse_members\<close> stand at the first character of an
  element or of a key; both end by consuming the closing bracket.
\<close>

fun parse_value :: "nat \<Rightarrow> pystr \<Rightarrow> json_error + json \<times> pystr"
  and parse_elems :: "nat \<Rightarrow> pystr \<Rightarrow> json_error + json list \<times> pystr"
  and parse_members :: "nat \<Rightarrow> pystr \<Rightarrow> json_error + (pystr \<times> json) list \<times> pystr" where
  "parse_value 0 s = Inl Out_Of_Fuel"
| "parse_value (Suc f) s =
     (case s of
        [] \<Rightarrow> Inl Decode_Error
      | c # r \<Rightarrow>
          if c = 34 then bindE (scanstring r) (\<lambda>(x, t). Inr (JStr x, t))
          else if c = 123 then
            (case skip_ws r of
               [] \<Rightarrow> Inl Decode_Error
             | d # t \<Rightarrow>
                 if d = 125 then bindE (reject_dup [] []) (\<lambda>m. Inr (JObj m, t))
                 else bindE (parse_members f (d # t)) (\<lambda>(kvs, t'). bindE (reject_dup [] kvs) (\<lambda>m. Inr (JObj m, t'))))
          else if c = 91 then
            (case skip_ws r of
               [] \<Rightarrow> Inl Decode_Error
             | d # t \<Rightarrow>
                 if d = 93 then Inr (JArr [], t)
                 else bindE (parse_elems f (d # t)) (\<lambda>(vs, t'). Inr (JArr vs, t')))
          else scan_word s)"
| "parse_elems 0 s = Inl Out_Of_Fuel"
| "parse_elems (Suc f) s =
     bindE (parse_value f s) (\<lambda>(v, t).
       case skip_ws t of
         [] \<Rightarrow> Inl Decode_Error
       | d # t' \<Rightarrow>
           if d = 93 then Inr ([v], t')
           else if d = 44 then bindE (parse_elems f (skip_ws t')) (\<lambda>(vs, t''). Inr (v # vs, t''))
           else Inl Decode_Error)"
| "parse_members 0 s = Inl Out_Of_Fuel"
| "parse_members (Suc f) s =
     (case s of
        [] \<Rightarrow> Inl Decode_Error
      | c # r \<Rightarrow>
          if c \<noteq> 34 then Inl Decode_Error
          else bindE (scanstring r) (\<lambda>(k, t).
            case skip_ws t of
              [] \<Rightarrow> Inl Decode_Error
            | d # t1 \<Rightarrow>
                if d \<noteq> 58 then Inl Decode_Error
                else bindE (parse_value f (skip_ws t1)) (\<lambda>(v, t2).
                  case skip_ws t2 of
                    [] \<Rightarrow> Inl Decode_Error
                  | d' # t3 \<Rightarrow>
                      if d' = 125 then Inr ([(k, v)], t3)
                      else if d' = 44 then bindE (parse_members f (skip_ws t3)) (\<lambda>(kvs, t4). Inr ((k, v) # kvs, t4))
                      else Inl Decode_Error)))"

definition json_loads :: "pystr \<Rightarrow> json_error + json" where
  "json_loads text =
     (if text \<noteq> [] \<and> hd text = 65279 then Inl Decode_Error
      else let s = skip_ws text in
        bindE (parse_value (2 * length s + 1) s) (\<lambda>(v, r). if skip_ws r = [] then Inr v else Inl Decode_Error))"

definition loads_strict :: "pystr \<Rightarrow> json_error + json" where
  "loads_strict text =
     (let d = json_nesting_depth text in
      if d > MAX_JSON_DEPTH then Inl (Json_Too_Deep d)
      else if raw_surrogate text then Inl Not_Utf8
      else if has_lone_surrogate text then Inl Lone_Surrogate
      else json_loads text)"

end
