(* ===== verification/Py_Json_Read.thy ===== *)
theory Py_Json_Read
  imports Py_Json
begin

text \<open>
  The reader: it always ends within its fuel, and what it accepts is inside the acceptance profile
  (bounded integers, distinct keys, Unicode scalar values, bounded nesting).
\<close>

section \<open>Every call consumes input\<close>

lemma length_skip_ws: "length (skip_ws s) \<le> length s"
  by (simp add: skip_ws_def length_dropWhile_le)

lemma skip_ws_Nil [simp]: "skip_ws [] = []"
  by (simp add: skip_ws_def)

lemma skip_ws_idem [simp]: "skip_ws (skip_ws s) = skip_ws s"
  by (simp add: skip_ws_def)

lemma skip_ws_Cons_length: "skip_ws s = c # r \<Longrightarrow> length r < length s"
  using length_skip_ws [of s] by simp

text \<open>\<open>reads_string r x t\<close>: the text \<open>r\<close> after an opening quote denotes the characters \<open>x\<close>, and \<open>t\<close> follows the closing one.\<close>

definition low_ahead :: "pystr \<Rightarrow> nat option" where
  "low_ahead r = (if take 2 r = [92, 117] then hex4_val (take 4 (drop 2 r)) else None)"

inductive reads_string :: "pystr \<Rightarrow> pystr \<Rightarrow> pystr \<Rightarrow> bool" where
  closing: "reads_string (34 # t) [] t"
| plain: "reads_string r x t \<Longrightarrow> c \<noteq> 34 \<Longrightarrow> c \<noteq> 92 \<Longrightarrow> 32 \<le> c \<Longrightarrow> reads_string (c # r) (c # x) t"
| simple: "reads_string r x t \<Longrightarrow> simple_escape e = Some y \<Longrightarrow> e \<noteq> 117 \<Longrightarrow> reads_string (92 # e # r) (y # x) t"
| unit: "reads_string r x t \<Longrightarrow> hex4_val h = Some cp \<Longrightarrow>
    \<not> (is_high (int cp) \<and> (\<exists>lo. low_ahead r = Some lo \<and> is_low (int lo))) \<Longrightarrow> reads_string (92 # 117 # h @ r) (cp # x) t"
| pair: "reads_string r x t \<Longrightarrow> hex4_val h = Some cp \<Longrightarrow> hex4_val l = Some lo \<Longrightarrow> is_high (int cp) \<Longrightarrow> is_low (int lo) \<Longrightarrow>
    reads_string (92 # 117 # h @ 92 # 117 # l @ r) ((65536 + (cp - 55296) * 1024 + (lo - 56320)) # x) t"

lemma scanstring_escape:
  "scanstring (92 # 117 # r) =
     (case hex4_val (take 4 r) of
        None \<Rightarrow> Inl Decode_Error
      | Some cp \<Rightarrow>
          (case (if is_high (int cp) then low_ahead (drop 4 r) else None) of
             Some lo \<Rightarrow>
               if is_low (int lo)
               then bindE (scanstring (drop 10 r)) (\<lambda>(s, t). Inr ((65536 + (cp - 55296) * 1024 + (lo - 56320)) # s, t))
               else bindE (scanstring (drop 4 r)) (\<lambda>(s, t). Inr (cp # s, t))
           | None \<Rightarrow> bindE (scanstring (drop 4 r)) (\<lambda>(s, t). Inr (cp # s, t))))"
  by (subst scanstring.simps(2)) (auto simp: low_ahead_def Let_def split: option.splits)

lemma hex4_take_drop: "hex4_val (take 4 r) = Some cp \<Longrightarrow> r = take 4 r @ drop 4 r"
  by simp

lemma low_ahead_split:
  assumes "low_ahead r = Some lo"
  shows "r = 92 # 117 # take 4 (drop 2 r) @ drop 6 r" "hex4_val (take 4 (drop 2 r)) = Some lo"
proof -
  have "take 2 r = [92, 117]" "hex4_val (take 4 (drop 2 r)) = Some lo"
    using assms by (auto simp: low_ahead_def split: if_splits)
  then show "r = 92 # 117 # take 4 (drop 2 r) @ drop 6 r" "hex4_val (take 4 (drop 2 r)) = Some lo"
    by (cases r; cases "tl r"; simp)+
qed

lemma scanstring_reads: "scanstring s = Inr (x, t) \<Longrightarrow> reads_string s x t"
proof (induction "length s" arbitrary: s x rule: less_induct)
  case less
  from less.prems obtain c r where s: "s = c # r" by (cases s) auto
  consider "c = 34" | "c = 92" "r = []" | e r1 where "c = 92" "r = e # r1" "e \<noteq> 117" | r1 where "c = 92" "r = 117 # r1" | "c \<noteq> 34" "c \<noteq> 92"
    by (cases r) auto
  then show ?case
  proof cases
    case 1
    with less.prems s show ?thesis by (auto simp: scanstring.simps(2) intro: closing)
  next
    case 3
    with less.prems s obtain y x' where y: "simple_escape e = Some y" "scanstring r1 = Inr (x', t)" "x = y # x'"
      by (auto simp: scanstring.simps(2))
    with less.hyps [of r1 x'] s 3 show ?thesis by (auto intro: simple)
  next
    case 4
    let ?r = "drop 4 r1"
    from 4 less.prems s obtain cp where cp: "hex4_val (take 4 r1) = Some cp" by (auto simp: scanstring_escape)
    have r1: "r1 = take 4 r1 @ ?r" by simp
    show ?thesis
    proof (cases "\<exists>lo. is_high (int cp) \<and> low_ahead ?r = Some lo \<and> is_low (int lo)")
      case True
      then obtain lo where lo: "is_high (int cp)" "low_ahead ?r = Some lo" "is_low (int lo)" by blast
      with 4 less.prems s cp obtain x' where x': "scanstring (drop 10 r1) = Inr (x', t)" "x = (65536 + (cp - 55296) * 1024 + (lo - 56320)) # x'"
        by (auto simp: scanstring_escape)
      have "reads_string (drop 10 r1) x' t" by (rule less.hyps) (use s 4 x' in auto)
      from pair [OF this cp low_ahead_split(2) [OF lo(2)] lo(1,3)] show ?thesis
        using low_ahead_split(1) [OF lo(2)] r1 s 4 x'(2) by simp
    next
      case False
      with 4 less.prems s cp obtain x' where x': "scanstring ?r = Inr (x', t)" "x = cp # x'"
        by (auto simp: scanstring_escape split: option.splits if_splits)
      have "reads_string ?r x' t" by (rule less.hyps) (use s 4 x' in auto)
      from unit [OF this cp] False show ?thesis using r1 s 4 x'(2) by auto
    qed
  next
    case 5
    with less.prems s obtain x' where "scanstring r = Inr (x', t)" "x = c # x'" "32 \<le> c"
      by (auto simp: scanstring.simps(2) split: if_splits)
    with less.hyps [of r x'] s 5 show ?thesis by (auto intro: plain)
  qed (use less.prems s in \<open>simp add: scanstring.simps(2)\<close>)
qed

lemma reads_string_shorter: "reads_string s x t \<Longrightarrow> length t < length s"
  by (induction rule: reads_string.induct) auto

lemma scanstring_shorter: "scanstring s = Inr (x, t) \<Longrightarrow> length t < length s"
  by (rule reads_string_shorter [OF scanstring_reads])

lemma reads_scanstring: "reads_string s x t \<Longrightarrow> scanstring s = Inr (x, t)"
proof (induction rule: reads_string.induct)
  case (unit r x t h cp)
  have "length h = 4" using hex4_val_length [OF unit.hyps(2)] by simp
  with unit show ?case by (auto simp: scanstring_escape split: option.splits)
next
  case (pair r x t h cp l lo)
  have "length h = 4" "length l = 4" using hex4_val_length pair.hyps(2,3) by blast+
  with pair show ?case by (auto simp: scanstring_escape low_ahead_def split: option.splits)
qed (auto simp: scanstring.simps(2))

lemma strip_prefix_shorter: "strip_prefix p s = Some r \<Longrightarrow> p \<noteq> [] \<Longrightarrow> length r < length s"
  by (cases s) (auto simp: strip_prefix_def split: if_splits)

lemma match_number_shorter: "match_number s = Inr (v, t) \<Longrightarrow> length t < length s"
  by (cases s) (auto simp: match_number_def Let_def split: if_splits)

lemma scan_word_shorter: "scan_word s = Inr (v, t) \<Longrightarrow> length t < length s"
  by (auto simp: scan_word_def split: option.splits dest!: strip_prefix_shorter match_number_shorter)

section \<open>The grammar\<close>

text \<open>
  \<open>reads_value s v t\<close>: the text \<open>s\<close> starts with a value of the profile that denotes \<open>v\<close>, and \<open>t\<close> is what
  follows it. The relation has no fuel and no order of evaluation; the decoder implements it.
\<close>

inductive reads_value :: "pystr \<Rightarrow> json \<Rightarrow> pystr \<Rightarrow> bool"
  and reads_elems :: "pystr \<Rightarrow> json list \<Rightarrow> pystr \<Rightarrow> bool"
  and reads_members :: "pystr \<Rightarrow> (pystr \<times> json) list \<Rightarrow> pystr \<Rightarrow> bool" where
  string: "scanstring r = Inr (x, t) \<Longrightarrow> reads_value (34 # r) (JStr x) t"
| empty_object: "skip_ws r = 125 # t \<Longrightarrow> reads_value (123 # r) (JObj []) t"
| object: "reads_members (skip_ws r) kvs t \<Longrightarrow> distinct (map fst kvs) \<Longrightarrow> reads_value (123 # r) (JObj kvs) t"
| empty_array: "skip_ws r = 93 # t \<Longrightarrow> reads_value (91 # r) (JArr []) t"
| array: "reads_elems (skip_ws r) vs t \<Longrightarrow> reads_value (91 # r) (JArr vs) t"
| word: "scan_word (c # r) = Inr (v, t) \<Longrightarrow> c \<notin> {34, 123, 91} \<Longrightarrow> reads_value (c # r) v t"
| last_element: "reads_value s v t \<Longrightarrow> skip_ws t = 93 # t' \<Longrightarrow> reads_elems s [v] t'"
| element: "reads_value s v t \<Longrightarrow> skip_ws t = 44 # t' \<Longrightarrow> reads_elems (skip_ws t') vs t'' \<Longrightarrow> reads_elems s (v # vs) t''"
| last_member: "scanstring r = Inr (k, t) \<Longrightarrow> skip_ws t = 58 # t1 \<Longrightarrow> reads_value (skip_ws t1) v t2 \<Longrightarrow>
    skip_ws t2 = 125 # t3 \<Longrightarrow> reads_members (34 # r) [(k, v)] t3"
| a_member: "scanstring r = Inr (k, t) \<Longrightarrow> skip_ws t = 58 # t1 \<Longrightarrow> reads_value (skip_ws t1) v t2 \<Longrightarrow>
    skip_ws t2 = 44 # t3 \<Longrightarrow> reads_members (skip_ws t3) kvs t4 \<Longrightarrow> reads_members (34 # r) ((k, v) # kvs) t4"

lemma reject_dup_Inr:
  "reject_dup seen kvs = Inr m \<longleftrightarrow> m = kvs \<and> distinct (map fst kvs) \<and> set seen \<inter> set (map fst kvs) = {}"
  by (induction seen kvs arbitrary: m rule: reject_dup.induct) auto

lemma reject_dup_fuel: "reject_dup seen kvs \<noteq> Inl Out_Of_Fuel"
  by (induction seen kvs rule: reject_dup.induct) (auto simp: bindE_Inl_iff)

lemma parse_reads:
  "parse_value f s = Inr (v, t) \<Longrightarrow> reads_value s v t"
  "parse_elems f s = Inr (vs, t) \<Longrightarrow> reads_elems s vs t"
  "parse_members f s = Inr (kvs, t) \<Longrightarrow> reads_members s kvs t"
proof (induction f arbitrary: s v t vs kvs)
  case (Suc f)
  {
    case 1
    show ?case
    proof (cases s)
      case (Cons c r)
      consider "c = 34" | "c = 123" | "c = 91" | "c \<notin> {34, 123, 91}" by auto
      then show ?thesis
      proof cases
        case 1
        then show ?thesis using \<open>parse_value (Suc f) s = Inr (v, t)\<close> Cons by (auto intro: string)
      next
        case 2
        then show ?thesis using \<open>parse_value (Suc f) s = Inr (v, t)\<close> Cons Suc.IH(3) [of "skip_ws r"]
          by (auto simp: reject_dup_Inr split: list.splits if_splits intro: empty_object object)
      next
        case 3
        then show ?thesis using \<open>parse_value (Suc f) s = Inr (v, t)\<close> Cons Suc.IH(2) [of "skip_ws r"]
          by (auto split: list.splits if_splits intro: empty_array array)
      next
        case 4
        then show ?thesis using \<open>parse_value (Suc f) s = Inr (v, t)\<close> Cons by (auto intro: word)
      qed
    qed (use 1 in simp)
  next
    case 2
    then obtain x t1 where x: "parse_value f s = Inr (x, t1)" by auto
    with 2 obtain d t2 where "skip_ws t1 = d # t2" by auto
    with 2 x show ?case
      using Suc.IH(1) [OF x] Suc.IH(2) by (auto split: if_splits intro: last_element element [OF Suc.IH(1) [OF x]])
  next
    case 3
    then obtain r k t1 t2 x t3 where x: "s = 34 # r" "scanstring r = Inr (k, t1)" "skip_ws t1 = 58 # t2"
        "parse_value f (skip_ws t2) = Inr (x, t3)"
      by (cases s) auto
    with 3 obtain d t4 where "skip_ws t3 = d # t4" by auto
    with 3 x show ?case
      using Suc.IH(1) [OF x(4)] Suc.IH(3)
      by (auto split: if_splits intro: last_member [OF x(2,3)] a_member [OF x(2,3) Suc.IH(1) [OF x(4)]])
  }
qed simp_all

lemma reads_shorter:
  "reads_value s v t \<Longrightarrow> length t < length s"
  "reads_elems s vs t \<Longrightarrow> length t < length s"
  "reads_members s kvs t \<Longrightarrow> length t < length s"
proof (induction rule: reads_value_reads_elems_reads_members.inducts)
  case (element s v t t' vs t'')
  then show ?case using skip_ws_Cons_length [of t] length_skip_ws [of t'] by simp
next
  case (a_member r k t t1 v t2 t3 kvs t4)
  then show ?case
    using scanstring_shorter [of r k t] skip_ws_Cons_length [of t] skip_ws_Cons_length [of t2] length_skip_ws [of t1] length_skip_ws [of t3]
    by simp
next
  case (last_member r k t t1 v t2 t3)
  then show ?case
    using scanstring_shorter [of r k t] skip_ws_Cons_length [of t] skip_ws_Cons_length [of t2] length_skip_ws [of t1] by simp
next
  case (object r kvs t)
  then show ?case using length_skip_ws [of r] by simp
next
  case (array r vs t)
  then show ?case using length_skip_ws [of r] by simp
qed (auto dest: scanstring_shorter skip_ws_Cons_length scan_word_shorter)

lemma scan_word_head: "scan_word s = Inr (v, t) \<Longrightarrow> s \<noteq> [] \<and> hd s \<noteq> 93 \<and> hd s \<noteq> 32 \<and> hd s \<noteq> 9 \<and> hd s \<noteq> 10 \<and> hd s \<noteq> 13"
  by (cases s) (auto simp: scan_word_def strip_prefix_def match_number_def is_digit_def Let_def split: option.splits if_splits)

lemma reads_value_head: "reads_value s v t \<Longrightarrow> s \<noteq> [] \<and> hd s \<noteq> 93 \<and> hd s \<noteq> 32 \<and> hd s \<noteq> 9 \<and> hd s \<noteq> 10 \<and> hd s \<noteq> 13"
  by (erule reads_value.cases) (auto dest: scan_word_head)

lemma reads_elems_head: "reads_elems s vs t \<Longrightarrow> s \<noteq> [] \<and> hd s \<noteq> 93"
  by (erule reads_elems.cases) (auto dest: reads_value_head)

text \<open>Enough fuel for a text: two units per character.\<close>

lemma reads_parse:
  "reads_value s v t \<Longrightarrow> 2 * length s + 1 \<le> f \<Longrightarrow> parse_value f s = Inr (v, t)"
  "reads_elems s vs t \<Longrightarrow> 2 * length s + 2 \<le> f \<Longrightarrow> parse_elems f s = Inr (vs, t)"
  "reads_members s kvs t \<Longrightarrow> 2 * length s + 2 \<le> f \<Longrightarrow> parse_members f s = Inr (kvs, t)"
proof (induction arbitrary: f and f and f rule: reads_value_reads_elems_reads_members.inducts)
  case (string r x t)
  then show ?case by (cases f) auto
next
  case (empty_object r t)
  then show ?case by (cases f) auto
next
  case (object r kvs t)
  then obtain g where g: "f = Suc g" "2 * length (skip_ws r) + 2 \<le> g"
    using length_skip_ws [of r] by (cases f) auto
  obtain d t' where "skip_ws r = d # t'" "d = 34" using object.hyps(1) by (auto elim: reads_members.cases)
  with object.IH [OF g(2)] object.hyps(2) show ?case by (simp add: g(1) reject_dup_Inr)
next
  case (empty_array r t)
  then show ?case by (cases f) auto
next
  case (array r vs t)
  then obtain g where g: "f = Suc g" "2 * length (skip_ws r) + 2 \<le> g"
    using length_skip_ws [of r] by (cases f) auto
  obtain d t' where "skip_ws r = d # t'" "d \<noteq> 93" using reads_elems_head [OF array.hyps(1)] by (cases "skip_ws r") auto
  with array.IH [OF g(2)] show ?case by (simp add: g(1))
next
  case (word c r v t)
  then show ?case by (cases f) auto
next
  case (last_element s v t t')
  then show ?case by (cases f) auto
next
  case (element s v t t' vs t'')
  then show ?case
    using skip_ws_Cons_length [of t] length_skip_ws [of t'] reads_shorter(1) [of s v t] by (cases f) auto
next
  case (last_member r k t t1 v t2 t3)
  then show ?case
    using scanstring_shorter [of r k t] skip_ws_Cons_length [of t] length_skip_ws [of t1] by (cases f) auto
next
  case (a_member r k t t1 v t2 t3 kvs t4)
  then show ?case
    using scanstring_shorter [of r k t] skip_ws_Cons_length [of t] skip_ws_Cons_length [of t2] length_skip_ws [of t1]
      length_skip_ws [of t3] reads_shorter(1) [of "skip_ws t1" v t2]
    by (cases f) auto
qed

lemma scanstring_fuel: "scanstring s \<noteq> Inl Out_Of_Fuel"
proof (induction s rule: scanstring.induct)
  case (2 c r)
  then show ?case
    by (subst scanstring.simps) (auto simp: bindE_Inl_iff Let_def split: list.splits option.splits)
qed simp

lemma scan_word_fuel: "scan_word s \<noteq> Inl Out_Of_Fuel"
  by (auto simp: scan_word_def match_number_def bounded_int_def Let_def bindE_Inl_iff split: option.splits)

lemma parse_fuel:
  "2 * length s + 1 \<le> f \<Longrightarrow> parse_value f s \<noteq> Inl Out_Of_Fuel"
  "2 * length s + 2 \<le> f \<Longrightarrow> parse_elems f s \<noteq> Inl Out_Of_Fuel"
  "2 * length s + 2 \<le> f \<Longrightarrow> parse_members f s \<noteq> Inl Out_Of_Fuel"
proof (induction f arbitrary: s)
  case (Suc f)
  {
    case 1
    show ?case
    proof (cases s)
      case (Cons c r)
      have "2 * length (skip_ws r) + 2 \<le> f" using 1 Cons length_skip_ws [of r] by simp
      then show ?thesis
        using Suc.IH(2,3) [of "skip_ws r"] Cons
        by (auto simp: bindE_Inl_iff scanstring_fuel scan_word_fuel reject_dup_fuel split: list.splits)
    qed simp
  next
    case 2
    have rest: "parse_elems f (skip_ws t') \<noteq> Inl Out_Of_Fuel" if "parse_value f s = Inr (v, t)" "skip_ws t = d # t'" for v t d t'
      using Suc.IH(2) [of "skip_ws t'"] 2 reads_shorter(1) [OF parse_reads(1) [OF that(1)]] skip_ws_Cons_length [OF that(2)]
        length_skip_ws [of t'] by simp
    show ?case
      using Suc.IH(1) [of s] 2 rest by (auto simp: bindE_Inl_iff split: list.splits)
  next
    case 3
    show ?case
    proof (cases s)
      case (Cons c r)
      have val: "parse_value f (skip_ws t1) \<noteq> Inl Out_Of_Fuel"
        if "scanstring r = Inr (k, t)" "skip_ws t = d # t1" for k t d t1
        using Suc.IH(1) [of "skip_ws t1"] 3 Cons scanstring_shorter [OF that(1)] skip_ws_Cons_length [OF that(2)]
          length_skip_ws [of t1] by simp
      have rest: "parse_members f (skip_ws t3) \<noteq> Inl Out_Of_Fuel"
        if "scanstring r = Inr (k, t)" "skip_ws t = d # t1" "parse_value f (skip_ws t1) = Inr (v, t2)" "skip_ws t2 = d' # t3"
        for k t d t1 v t2 d' t3
        using Suc.IH(3) [of "skip_ws t3"] 3 Cons scanstring_shorter [OF that(1)] skip_ws_Cons_length [OF that(2)]
          reads_shorter(1) [OF parse_reads(1) [OF that(3)]] skip_ws_Cons_length [OF that(4)]
          length_skip_ws [of t1] length_skip_ws [of t3] by simp
      show ?thesis
        using Cons val rest by (auto simp: bindE_Inl_iff scanstring_fuel split: list.splits)
    qed simp
  }
qed simp_all

lemma json_loads_fuel: "json_loads text \<noteq> Inl Out_Of_Fuel"
  using parse_fuel(1) [of "skip_ws text" "2 * length (skip_ws text) + 1"]
  by (auto simp: json_loads_def Let_def bindE_Inl_iff simp del: parse_value.simps)

section \<open>What is accepted\<close>

definition scalar :: "nat \<Rightarrow> bool" where
  "scalar c \<longleftrightarrow> c < 1114112 \<and> \<not> (55296 \<le> c \<and> c \<le> 57343)"

fun json_wf :: "json \<Rightarrow> bool" where
  "json_wf (JInt n) = (\<bar>n\<bar> \<le> SAFE_INT)"
| "json_wf (JStr s) = list_all scalar s"
| "json_wf (JArr vs) = list_all json_wf vs"
| "json_wf (JObj kvs) = (distinct (map fst kvs) \<and> list_all (\<lambda>(k, v). list_all scalar k \<and> json_wf v) kvs)"
| "json_wf _ = True"

fun json_depth :: "json \<Rightarrow> int" where
  "json_depth (JArr vs) = 1 + foldr (\<lambda>v. max (json_depth v)) vs 0"
| "json_depth (JObj kvs) = 1 + foldr (\<lambda>(k, v). max (json_depth v)) kvs 0"
| "json_depth _ = 0"

text \<open>A text without raw or unpaired escaped surrogates, from some position on.\<close>

definition clean :: "pystr \<Rightarrow> bool" where
  "clean s \<longleftrightarrow> \<not> has_lone_surrogate s \<and> list_all scalar s"

lemma clean_Cons [simp]: "c \<noteq> 92 \<Longrightarrow> clean (c # r) \<longleftrightarrow> scalar c \<and> clean r"
  by (auto simp: clean_def has_lone_surrogate.simps(2))

lemma clean_skip_ws: "clean s \<Longrightarrow> clean (skip_ws s)"
proof (induction s)
  case (Cons c s)
  then show ?case by (auto simp: skip_ws_def)
qed (simp add: skip_ws_def)

lemma clean_escape [simp]: "e \<noteq> 117 \<Longrightarrow> clean (92 # e # r) \<longleftrightarrow> scalar e \<and> clean r"
  by (auto simp: clean_def has_lone_surrogate.simps(2) scalar_def)

lemma clean_unicode:
  assumes h: "hex4_val h = Some cp" and c: "clean (92 # 117 # h @ r)"
    and next_ok: "take 2 r = [92, 117] \<Longrightarrow> \<exists>lo. hex4_val (take 4 (drop 2 r)) = Some lo"
  shows "if is_high (int cp) then \<exists>lo. low_ahead r = Some lo \<and> is_low (int lo) \<and> clean (drop 6 r) else scalar cp \<and> clean r"
proof -
  have len: "length h = 4" "cp < 65536" using hex4_val_length [OF h] by auto
  have sc: "list_all scalar r" using c by (simp add: clean_def)
  have hls: "\<not> has_lone_surrogate (92 # 117 # h @ r)" using c by (simp add: clean_def)
  have dr: "drop 1 (117 # h @ r) = h @ r" "drop 5 (117 # h @ r) = r" "drop 7 (117 # h @ r) = drop 2 r" "drop 11 (117 # h @ r) = drop 6 r"
    using len by simp_all
  note unf = dr has_lone_surrogate.simps(2) [of 92 "117 # h @ r"] py_int16_hex4_val [OF h]
  show ?thesis
  proof (cases "is_high (int cp)")
    case True
    then have two: "take 2 r = [92, 117]" using hls len unf by (auto split: if_splits)
    from next_ok [OF this] obtain lo where lo: "hex4_val (take 4 (drop 2 r)) = Some lo" ..
    from hls True two len unf py_int16_hex4_val [OF lo] have "is_low (int lo)" "\<not> has_lone_surrogate (drop 6 r)"
      by (auto simp: dr split: if_splits)
    then show ?thesis using True two lo sc set_drop_subset [of 6 r] by (auto simp: low_ahead_def clean_def list_all_iff)
  next
    case False
    then have "\<not> is_low (int cp)" "\<not> has_lone_surrogate r" using hls len unf by (auto split: if_splits)
    then show ?thesis using False sc len by (auto simp: clean_def scalar_def is_high_def is_low_def)
  qed
qed

lemma reads_string_unicode: "reads_string r x t \<Longrightarrow> take 2 r = [92, 117] \<Longrightarrow> \<exists>lo. hex4_val (take 4 (drop 2 r)) = Some lo"
proof (erule reads_string.cases)
  fix r' x' t' h cp
  assume "r = 92 # 117 # h @ r'" "hex4_val h = Some cp"
  then show ?thesis using hex4_val_length [of h cp] by simp
next
  fix r' x' t' h cp l lo
  assume "r = 92 # 117 # h @ 92 # 117 # l @ r'" "hex4_val h = Some cp"
  then show ?thesis using hex4_val_length [of h cp] by simp
qed (auto simp: numeral_2_eq_2)

lemma reads_string_clean: "reads_string s x t \<Longrightarrow> clean s \<Longrightarrow> list_all scalar x \<and> clean t"
proof (induction rule: reads_string.induct)
  case (unit r x t h cp)
  then show ?case
    using clean_unicode [OF unit.hyps(2) unit.prems reads_string_unicode [OF unit.hyps(1)]] by (auto split: if_splits)
next
  case (pair r x t h cp l lo)
  have l: "length l = 4" using hex4_val_length [OF pair.hyps(3)] by simp
  have "scalar (65536 + (cp - 55296) * 1024 + (lo - 56320))"
    using pair.hyps(4,5) by (auto simp: scalar_def is_high_def is_low_def)
  moreover have "clean r" using clean_unicode [OF pair.hyps(2) pair.prems] pair.hyps l by auto
  ultimately show ?case using pair.IH by simp
qed (auto simp: simple_escape_def scalar_def split: if_splits)

lemma clean_append: "\<forall>c\<in>set u. c \<noteq> 92 \<Longrightarrow> clean (u @ t) \<Longrightarrow> clean t"
  by (induction u) auto

lemma strip_prefix_append: "strip_prefix p s = Some t \<Longrightarrow> s = p @ t"
  by (auto simp: strip_prefix_def split: if_splits) (metis append_take_drop_id)

lemma digits_split:
  "\<forall>c\<in>set (if r \<noteq> [] \<and> hd r = 48 then [48] else takeWhile is_digit r). is_digit c"
  "r = (if r \<noteq> [] \<and> hd r = 48 then [48] else takeWhile is_digit r) @
    drop (length (if r \<noteq> [] \<and> hd r = 48 then [48] else takeWhile is_digit r)) r"
proof -
  show "\<forall>c\<in>set (if r \<noteq> [] \<and> hd r = 48 then [48] else takeWhile is_digit r). is_digit c"
    by (auto simp: is_digit_def [of 48] dest: set_takeWhileD)
  have "r = takeWhile is_digit r @ drop (length (takeWhile is_digit r)) r"
    by (metis dropWhile_eq_drop takeWhile_dropWhile_id)
  then show "r = (if r \<noteq> [] \<and> hd r = 48 then [48] else takeWhile is_digit r) @
    drop (length (if r \<noteq> [] \<and> hd r = 48 then [48] else takeWhile is_digit r)) r"
    by (cases r) auto
qed

lemma match_number_consumes:
  assumes "match_number s = Inr (v, t)"
  shows "\<exists>u. s = u @ t \<and> (\<forall>c\<in>set u. is_digit c \<or> c = 45) \<and> json_wf v \<and> json_depth v = 0"
proof -
  let ?neg = "s \<noteq> [] \<and> hd s = 45"
  let ?r = "if ?neg then tl s else s"
  let ?ds = "if ?r \<noteq> [] \<and> hd ?r = 48 then [48] else takeWhile is_digit ?r"
  have t: "t = drop (length ?ds) ?r" and v: "json_wf v" "json_depth v = 0"
    using assms by (auto simp: match_number_def bounded_int_def Let_def split: if_splits)
  have ds: "\<forall>c\<in>set ?ds. is_digit c" "?r = ?ds @ drop (length ?ds) ?r"
    by (rule digits_split)+
  have "s = (if ?neg then [45] else []) @ ?r" by (cases s) auto
  then have "s = ((if ?neg then [45] else []) @ ?ds) @ t" using ds(2) t by simp
  then show ?thesis using ds(1) v by (intro exI [of _ "(if ?neg then [45] else []) @ ?ds"]) auto
qed

lemma scan_word_consumes:
  assumes "scan_word s = Inr (v, t)"
  shows "\<exists>u. s = u @ t \<and> (\<forall>c\<in>set u. c \<notin> {34, 91, 92, 93, 123, 125}) \<and> json_wf v \<and> json_depth v = 0"
proof -
  consider "match_number s = Inr (v, t)" | w where "strip_prefix (lit w) s = Some t" "w = ''null'' \<or> w = ''true'' \<or> w = ''false''" "json_wf v" "json_depth v = 0"
    using assms by (auto simp: scan_word_def simp del: lit_Cons split: option.splits)
  then show ?thesis
  proof cases
    case 1
    then show ?thesis using match_number_consumes [OF 1] by (fastforce simp: is_digit_def)
  next
    case 2
    then show ?thesis by (intro exI [of _ "lit w"]) (auto dest: strip_prefix_append)
  qed
qed

lemma clean_next: "clean s \<Longrightarrow> skip_ws s = c # t \<Longrightarrow> c \<noteq> 92 \<Longrightarrow> clean t"
  using clean_skip_ws [of s] by simp

lemma reads_clean:
  "reads_value s v t \<Longrightarrow> clean s \<Longrightarrow> json_wf v \<and> clean t"
  "reads_elems s vs t \<Longrightarrow> clean s \<Longrightarrow> list_all json_wf vs \<and> clean t"
  "reads_members s kvs t \<Longrightarrow> clean s \<Longrightarrow> list_all (\<lambda>(k, v). list_all scalar k \<and> json_wf v) kvs \<and> clean t"
proof (induction rule: reads_value_reads_elems_reads_members.inducts)
  case (string r x t)
  then show ?case using reads_string_clean [OF scanstring_reads] by simp
next
  case (word c r v t)
  then obtain u where "c # r = u @ t" "\<forall>c\<in>set u. c \<noteq> 92" "json_wf v" using scan_word_consumes by fastforce
  then show ?case using clean_append [of u t] word.prems by simp
next
  case (element s v t t' vs t'')
  then show ?case using clean_next [of t] clean_skip_ws [of t'] by simp
next
  case (last_member r k t t1 v t2 t3)
  have k: "list_all scalar k" "clean t" using reads_string_clean [OF scanstring_reads, of r k t] last_member by auto
  have "clean (skip_ws t1)" using clean_next [OF k(2) last_member.hyps(2)] by (simp add: clean_skip_ws)
  then have v: "json_wf v" "clean t2" using last_member.IH by auto
  then show ?case using clean_next [OF v(2) last_member.hyps(4)] k by simp
next
  case (a_member r k t t1 v t2 t3 kvs t4)
  have k: "list_all scalar k" "clean t" using reads_string_clean [OF scanstring_reads, of r k t] a_member by auto
  have "clean (skip_ws t1)" using clean_next [OF k(2) a_member.hyps(2)] by (simp add: clean_skip_ws)
  then have v: "json_wf v" "clean t2" using a_member.IH(1) by auto
  then have "clean (skip_ws t3)" using clean_next [OF v(2) a_member.hyps(4)] by (simp add: clean_skip_ws)
  then show ?case using a_member.IH(2) k v by simp
qed (auto dest: clean_next clean_skip_ws)

section \<open>Nesting depth\<close>

abbreviation scan :: "scan \<Rightarrow> pystr \<Rightarrow> scan" where
  "scan \<equiv> foldl scan_char"

definition outside :: "scan \<Rightarrow> bool" where
  "outside st \<longleftrightarrow> \<not> in_str st \<and> \<not> esc st \<and> depth st \<le> max_depth st"

definition reached :: "scan \<Rightarrow> int \<Rightarrow> scan" where
  "reached st d = st\<lparr>max_depth := max (max_depth st) (depth st + d)\<rparr>"

lemma scan_plain: "outside st \<Longrightarrow> \<forall>c\<in>set u. c \<notin> {34, 91, 93, 123, 125} \<Longrightarrow> scan st (u @ t) = scan st t"
  by (induction u) (auto simp: scan_char_def outside_def)

lemma scan_skip_ws: "outside st \<Longrightarrow> scan st (skip_ws s) = scan st s"
proof (induction s)
  case (Cons c s)
  then show ?case using scan_plain [of st "[c]" s] by (auto simp: skip_ws_def)
qed (simp add: skip_ws_def)

lemma hex4_plain: "hex4_val h = Some v \<Longrightarrow> \<forall>c\<in>set h. c \<noteq> 34 \<and> c \<noteq> 92"
proof -
  have "hexval c = Some x \<Longrightarrow> c \<noteq> 34 \<and> c \<noteq> 92" for c x by (auto simp: hexval_def split: if_splits)
  then show "hex4_val h = Some v \<Longrightarrow> ?thesis" by (auto simp: hex4_val_def split: list.splits option.splits)
qed

lemma scan_in_string: "in_str st \<Longrightarrow> \<not> esc st \<Longrightarrow> \<forall>c\<in>set u. c \<noteq> 34 \<and> c \<noteq> 92 \<Longrightarrow> scan st (u @ t) = scan st t"
  by (induction u) (auto simp: scan_char_def)

lemma scan_escape: "in_str st \<Longrightarrow> \<not> esc st \<Longrightarrow> scan st (92 # e # t) = scan st t"
  by (cases st) (simp add: scan_char_def)

lemma scan_unicode:
  assumes "in_str st" "\<not> esc st" "hex4_val h = Some cp"
  shows "scan st (92 # 117 # h @ t) = scan st t"
  using scan_in_string [OF assms(1,2) hex4_plain [OF assms(3)], of t] by (simp only: scan_escape [OF assms(1,2)])

lemma reads_string_scan:
  "reads_string s x t \<Longrightarrow> in_str st \<Longrightarrow> \<not> esc st \<Longrightarrow> scan st s = scan (st\<lparr>in_str := False\<rparr>) t"
proof (induction rule: reads_string.induct)
  case (unit r x t h cp)
  then show ?case using scan_unicode [OF unit.prems unit.hyps(2)] by (simp del: foldl_Cons foldl_append)
next
  case (pair r x t h cp l lo)
  then show ?case
    using scan_unicode [OF pair.prems pair.hyps(2)] scan_unicode [OF pair.prems pair.hyps(3)]
    by (simp del: foldl_Cons foldl_append)
next
  case (simple r x t e y)
  then show ?case using scan_escape [OF simple.prems] by (simp del: foldl_Cons)
qed (simp_all add: scan_char_def)

definition opened :: "scan \<Rightarrow> scan" where
  "opened st = st\<lparr>depth := depth st + 1, max_depth := max (max_depth st) (depth st + 1)\<rparr>"

definition closed_at :: "scan \<Rightarrow> int \<Rightarrow> scan" where
  "closed_at st d = (reached st d)\<lparr>depth := depth st - 1\<rparr>"

lemma outside_step:
  "outside st \<Longrightarrow> outside (reached st d)" "outside st \<Longrightarrow> outside (opened st)" "outside st \<Longrightarrow> outside (closed_at st d)"
  by (auto simp: outside_def reached_def opened_def closed_at_def)

lemma scan_char_outside:
  assumes "outside st"
  shows "c = 91 \<or> c = 123 \<Longrightarrow> scan_char st c = opened st" "c = 93 \<or> c = 125 \<Longrightarrow> scan_char st c = closed_at st 0"
    "c = 44 \<or> c = 58 \<Longrightarrow> scan_char st c = st" "scan_char st 34 = st\<lparr>in_str := True\<rparr>"
proof -
  have out: "\<not> in_str st" "\<not> esc st" "max (max_depth st) (depth st) = max_depth st" using assms by (auto simp: outside_def)
  show "c = 91 \<or> c = 123 \<Longrightarrow> scan_char st c = opened st" using out by (auto simp: scan_char_def opened_def max_def)
  show "c = 93 \<or> c = 125 \<Longrightarrow> scan_char st c = closed_at st 0" using out by (auto simp: scan_char_def closed_at_def reached_def)
  show "c = 44 \<or> c = 58 \<Longrightarrow> scan_char st c = st" "scan_char st 34 = st\<lparr>in_str := True\<rparr>" using out by (auto simp: scan_char_def)
qed

lemma scan_open: "outside st \<Longrightarrow> c = 91 \<or> c = 123 \<Longrightarrow> scan st (c # r) = scan (opened st) (skip_ws r)"
  by (simp add: scan_char_outside scan_skip_ws outside_step)

lemma scan_close: "outside st \<Longrightarrow> skip_ws t = c # t' \<Longrightarrow> c = 93 \<or> c = 125 \<Longrightarrow> scan st t = scan (closed_at st 0) t'"
  using scan_skip_ws [of st t] by (simp add: scan_char_outside)

lemma scan_separator: "outside st \<Longrightarrow> skip_ws t = c # t' \<Longrightarrow> c = 44 \<or> c = 58 \<Longrightarrow> scan st t = scan st (skip_ws t')"
  using scan_skip_ws [of st t] by (simp add: scan_char_outside scan_skip_ws)

lemma scan_string:
  assumes "scanstring r = Inr (x, t)" "outside st"
  shows "scan st (34 # r) = scan st t"
proof -
  have "st\<lparr>in_str := False\<rparr> = st" using assms(2) by (cases st) (simp add: outside_def)
  moreover have "scan (st\<lparr>in_str := True\<rparr>) r = scan (st\<lparr>in_str := False\<rparr>) t"
    using reads_string_scan [OF scanstring_reads [OF assms(1)], of "st\<lparr>in_str := True\<rparr>"] assms(2)
    by (simp add: outside_def)
  ultimately show ?thesis using scan_char_outside(4) [OF assms(2)] by simp
qed

abbreviation depth_list :: "json list \<Rightarrow> int" where
  "depth_list vs \<equiv> foldr (\<lambda>v. max (json_depth v)) vs 0"

abbreviation depth_members :: "(pystr \<times> json) list \<Rightarrow> int" where
  "depth_members kvs \<equiv> foldr (\<lambda>(k, v). max (json_depth v)) kvs 0"

lemma depth_nonneg: "0 \<le> json_depth v" "0 \<le> depth_list vs" "0 \<le> depth_members kvs"
proof -
  show l: "0 \<le> depth_list vs" for vs by (induction vs) auto
  show m: "0 \<le> depth_members kvs" for kvs by (induction kvs) auto
  show "0 \<le> json_depth v" using l m by (cases v) (simp_all add: add_nonneg_nonneg)
qed

lemma reached_simps:
  "outside st \<Longrightarrow> reached st 0 = st" "reached (reached st a) b = reached st (max a b)"
  "closed_at (reached st a) b = closed_at st (max a b)"
  "0 \<le> d \<Longrightarrow> closed_at (opened st) d = reached st (1 + d)"
  by (cases st; auto simp: outside_def reached_def opened_def closed_at_def max_def)+

lemma reads_scan:
  "reads_value s v t \<Longrightarrow> outside st \<Longrightarrow> scan st s = scan (reached st (json_depth v)) t"
  "reads_elems s vs t \<Longrightarrow> outside st \<Longrightarrow> scan st s = scan (closed_at st (depth_list vs)) t"
  "reads_members s kvs t \<Longrightarrow> outside st \<Longrightarrow> scan st s = scan (closed_at st (depth_members kvs)) t"
proof (induction arbitrary: st and st and st rule: reads_value_reads_elems_reads_members.inducts)
  case (string r x t)
  then show ?case using scan_string [OF string.hyps string.prems] by (simp add: reached_simps del: foldl_Cons)
next
  case (empty_object r t)
  then show ?case
    using scan_open [of st 123 r] scan_close [of "opened st" r 125 t] scan_skip_ws [of "opened st" r]
    by (simp add: reached_simps outside_step del: foldl_Cons)
next
  case (object r kvs t)
  then show ?case
    using scan_open [of st 123 r] by (simp add: reached_simps depth_nonneg outside_step del: foldl_Cons)
next
  case (empty_array r t)
  then show ?case
    using scan_open [of st 91 r] scan_close [of "opened st" r 93 t] scan_skip_ws [of "opened st" r]
    by (simp add: reached_simps outside_step del: foldl_Cons)
next
  case (array r vs t)
  then show ?case
    using scan_open [of st 91 r] by (simp add: reached_simps depth_nonneg outside_step del: foldl_Cons)
next
  case (word c r v t)
  then obtain u where "c # r = u @ t" "\<forall>c\<in>set u. c \<notin> {34, 91, 93, 123, 125}" "json_depth v = 0" using scan_word_consumes by fastforce
  then show ?case using scan_plain [of st u t] word.prems by (simp add: reached_simps del: foldl_Cons)
next
  case (last_element s v t t')
  then show ?case using scan_close [of "reached st (json_depth v)" t 93 t'] by (simp add: reached_simps outside_step)
next
  case (element s v t t' vs t'')
  then show ?case using scan_separator [of "reached st (json_depth v)" t 44 t'] by (simp add: reached_simps outside_step)
next
  case (last_member r k t t1 v t2 t3)
  then show ?case
    using scan_string [OF last_member.hyps(1), of st] scan_separator [of st t 58 t1] scan_close [of "reached st (json_depth v)" t2 125 t3]
    by (simp add: reached_simps outside_step del: foldl_Cons)
next
  case (a_member r k t t1 v t2 t3 kvs t4)
  then show ?case
    using scan_string [OF a_member.hyps(1), of st] scan_separator [of st t 58 t1] scan_separator [of "reached st (json_depth v)" t2 44 t3]
    by (simp add: reached_simps outside_step del: foldl_Cons)
qed

text \<open>So the linear scan before decoding measures the nesting of the value the decoder then builds.\<close>

lemma reads_nesting_depth:
  assumes "reads_value (skip_ws text) v r" "skip_ws r = []"
  shows "json_nesting_depth text = json_depth v"
proof -
  let ?st = "\<lparr>depth = 0, max_depth = 0, in_str = False, esc = False\<rparr>"
  have out: "outside ?st" by (simp add: outside_def)
  have "scan ?st text = scan (reached ?st (json_depth v)) (skip_ws r)"
    using reads_scan(1) [OF assms(1) out] scan_skip_ws [OF out, of "text"] scan_skip_ws [OF outside_step(1) [OF out], of "json_depth v" r] by simp
  then show ?thesis
    using assms(2) depth_nonneg(1) [of v] by (simp add: json_nesting_depth_def reached_def)
qed

lemma json_loads_reads:
  "json_loads text = Inr v \<longleftrightarrow> (text = [] \<or> hd text \<noteq> 65279) \<and> (\<exists>r. reads_value (skip_ws text) v r \<and> skip_ws r = [])"
proof -
  have "parse_value (2 * length (skip_ws text) + 1) (skip_ws text) = Inr (v, r) \<longleftrightarrow> reads_value (skip_ws text) v r" for r
    using parse_reads(1) reads_parse(1) by blast
  then show ?thesis
    by (auto simp: json_loads_def Let_def simp del: parse_value.simps)
qed

end
