(* ===== verification/Py_Json_Roundtrip.thy ===== *)
theory Py_Json_Roundtrip
  imports Py_Json_Read
begin

text \<open>
  Writing and reading agree: the canonical text of a value of the profile decodes to that value with
  sorted keys, so the canonical text determines the value up to the order of its keys.
\<close>

section \<open>What is written is in the grammar\<close>

lemma esc_char_cases:
  assumes "scalar c"
  obtains (simple_esc) e where "esc_char c = [92, e]" "simple_escape e = Some c" "e \<noteq> 117"
    | (plain_esc) "esc_char c = [c]" "c \<noteq> 34" "c \<noteq> 92" "32 \<le> c"
    | (unit_esc) "esc_char c = 92 # 117 # hex4 c" "c < 65536"
    | (pair_esc) a b where "esc_char c = 92 # 117 # hex4 (55296 + a) @ 92 # 117 # hex4 (56320 + b)" "c = 65536 + a * 1024 + b" "a < 1024" "b < 1024"
proof -
  have big: "c = 65536 + (c - 65536) div 1024 * 1024 + (c - 65536) mod 1024" if "\<not> c < 65536" using that by simp
  have small: "(c - 65536) div 1024 < 1024" using assms by (auto simp: scalar_def)
  consider "c \<in> {34, 92, 10, 13, 9, 12, 8}" | "c \<notin> {34, 92, 10, 13, 9, 12, 8}" "32 \<le> c \<and> c \<le> 126"
    | "c \<notin> {34, 92, 10, 13, 9, 12, 8}" "\<not> (32 \<le> c \<and> c \<le> 126)" "c < 65536"
    | "c \<notin> {34, 92, 10, 13, 9, 12, 8}" "\<not> (32 \<le> c \<and> c \<le> 126)" "\<not> c < 65536" by blast
  then show thesis
  proof cases
    case 1
    then show thesis using that(1) by (auto simp: esc_char_def simple_escape_def)
  next
    case 2
    then show thesis using that(2) by (auto simp: esc_char_def)
  next
    case 3
    then have "esc_char c = 92 # 117 # hex4 c" unfolding esc_char_def by simp
    then show thesis using that(3) 3 by blast
  next
    case 4
    then have "esc_char c = 92 # 117 # hex4 (55296 + (c - 65536) div 1024) @ 92 # 117 # hex4 (56320 + (c - 65536) mod 1024)"
      using small unfolding esc_char_def by simp
    from that(4) [OF this big [OF 4(3)] small] show thesis by simp
  qed
qed

lemma esc_char_reads:
  assumes "scalar c" "reads_string r x t"
  shows "reads_string (esc_char c @ r) (c # x) t"
  using assms(1)
proof (cases rule: esc_char_cases)
  case simple_esc
  then show ?thesis using simple [OF assms(2)] by simp
next
  case plain_esc
  then show ?thesis using plain [OF assms(2)] by simp
next
  case unit_esc
  then show ?thesis using unit [OF assms(2) hex4_val_hex4 [OF unit_esc(2)]] assms(1) by (auto simp: scalar_def is_high_def)
next
  case (pair_esc a b)
  have "hex4_val (hex4 (55296 + a)) = Some (55296 + a)" "hex4_val (hex4 (56320 + b)) = Some (56320 + b)" using pair_esc by simp_all
  from pair [OF assms(2) this] show ?thesis using pair_esc by (simp add: is_high_def is_low_def)
qed

lemma dumps_str_reads: "list_all scalar s \<Longrightarrow> scanstring (concat (map esc_char s) @ 34 # t) = Inr (s, t)"
proof (rule reads_scanstring, induction s)
  case Nil
  then show ?case by (simp add: closing)
next
  case (Cons c s)
  then show ?case using esc_char_reads [of c] by simp
qed

definition stops :: "pystr \<Rightarrow> bool" where
  "stops t \<longleftrightarrow> (t = [] \<or> hd t \<in> {9, 10, 13, 32, 44, 93, 125})"

lemma match_number_int_str:
  assumes "\<bar>n\<bar> \<le> SAFE_INT" "stops t"
  shows "match_number (int_str n @ t) = Inr (JInt n, t)"
proof -
  have t: "takeWhile is_digit t = []" "\<not> float_suffix t"
    using assms(2) by (cases t; auto simp: stops_def is_digit_def float_suffix_def split: list.splits)+
  obtain c cs where c: "nat_str (nat \<bar>n\<bar>) = c # cs" "c = 48 \<longrightarrow> nat \<bar>n\<bar> = 0 \<and> cs = []" "is_digit c"
    using nat_str_Cons by blast
  have tw: "takeWhile is_digit (nat_str (nat \<bar>n\<bar>) @ t) = nat_str (nat \<bar>n\<bar>)"
    using t(1) nat_str_digits [of _ "nat \<bar>n\<bar>"] by (auto simp: takeWhile_append)
  have v: "digits_val (c # cs) = nat \<bar>n\<bar>" using digits_val_nat_str [of "nat \<bar>n\<bar>"] c(1) by simp
  have s: "int_str n @ t = (if n < 0 then [45] else []) @ c # cs @ t" using c(1) by (auto simp: int_str_def)
  have "c \<noteq> 45" using c(3) by (simp add: is_digit_def)
  then show ?thesis
    unfolding s using assms(1) t tw c v
    by (auto simp: match_number_def bounded_int_def Let_def)
qed

lemma int_str_word:
  assumes "\<bar>n\<bar> \<le> SAFE_INT" "stops t"
  shows "\<exists>c r. int_str n @ t = c # r \<and> c \<notin> {34, 123, 91} \<and> scan_word (c # r) = Inr (JInt n, t)"
proof -
  obtain c cs where c: "nat_str (nat \<bar>n\<bar>) = c # cs" "is_digit c" using nat_str_Cons by blast
  have "strip_prefix (lit w) (int_str n @ t) = None" if "w \<in> {''null'', ''true'', ''false'', ''NaN'', ''Infinity'', ''-Infinity''}" for w
    using that c by (auto simp: int_str_def strip_prefix_def is_digit_def)
  then have "scan_word (int_str n @ t) = Inr (JInt n, t)"
    using match_number_int_str [OF assms] by (simp add: scan_word_def del: lit_Cons)
  moreover obtain d r where "int_str n @ t = d # r" "d \<notin> {34, 123, 91}"
    using c by (cases "n < 0") (auto simp: int_str_def is_digit_def)
  ultimately show ?thesis by metis
qed

lemma reads_skip_ws: "reads_value s v t \<Longrightarrow> skip_ws s = s"
  using reads_value_head [of s v t] by (cases s) (auto simp: skip_ws_def)

lemma reads_elems_skip_ws: "reads_elems s vs t \<Longrightarrow> skip_ws s = s"
  by (erule reads_elems.cases) (auto dest: reads_skip_ws)

lemma dumps_elems_reads:
  assumes "\<And>v t. v \<in> set vs \<Longrightarrow> stops t \<Longrightarrow> reads_value (dumps v @ t) v t" "vs \<noteq> []"
  shows "reads_elems (join [44] (map dumps vs) @ 93 # t) vs t"
  using assms
proof (induction vs)
  case (Cons v vs)
  show ?case
  proof (cases "vs = []")
    case True
    have "reads_value (dumps v @ 93 # t) v (93 # t)" using Cons.prems(1) by (simp add: stops_def)
    then show ?thesis using True last_element by (simp add: skip_ws_def)
  next
    case False
    let ?r = "join [44] (map dumps vs) @ 93 # t"
    have "reads_value (dumps v @ 44 # ?r) v (44 # ?r)" using Cons.prems(1) by (simp add: stops_def)
    moreover have "reads_elems ?r vs t" using Cons False by simp
    moreover from this have "skip_ws ?r = ?r" by (rule reads_elems_skip_ws)
    ultimately show ?thesis using False element [of "dumps v @ 44 # ?r" v "44 # ?r" ?r vs t] by (simp add: join_Cons skip_ws_def)
  qed
qed simp

lemma dumps_members_reads:
  assumes "\<And>k v t. (k, v) \<in> set kvs \<Longrightarrow> stops t \<Longrightarrow> list_all scalar k \<and> reads_value (dumps v @ t) v t" "kvs \<noteq> []"
  shows "reads_members (join [44] (map (\<lambda>(k, v). dumps_str k @ [58] @ dumps v) kvs) @ 125 # t) kvs t"
  using assms
proof (induction kvs)
  case (Cons kv kvs)
  obtain k v where kv: "kv = (k, v)" by fastforce
  let ?w = "\<lambda>(k, v). dumps_str k @ [58] @ dumps v"
  have key: "scanstring (concat (map esc_char k) @ 34 # r) = Inr (k, r)" for r
    using Cons.prems(1) [of k v "[]"] kv by (intro dumps_str_reads) (simp add: stops_def)
  have val: "reads_value (skip_ws (dumps v @ r)) v r" if "stops r" for r
    using Cons.prems(1) [of k v r] kv that reads_skip_ws [of "dumps v @ r" v r] by simp
  have colon: "skip_ws (58 # r) = 58 # r" "skip_ws (44 # r) = 44 # r" "skip_ws (125 # r) = 125 # r" for r by (simp_all add: skip_ws_def)
  show ?case
  proof (cases "kvs = []")
    case True
    then show ?thesis
      using last_member [OF key colon(1) val colon(3), of t] kv by (simp add: dumps_str_def stops_def)
  next
    case False
    let ?r = "join [44] (map ?w kvs) @ 125 # t"
    have "reads_members ?r kvs t" by (rule Cons.IH [OF Cons.prems(1) False]) auto
    moreover from this have "skip_ws ?r = ?r" by (auto simp: skip_ws_def elim: reads_members.cases)
    ultimately show ?thesis
      using a_member [OF key colon(1) val colon(2), of ?r kvs t] kv False by (simp add: dumps_str_def stops_def join_Cons)
  qed
qed simp

lemma dumps_reads: "json_wf v \<Longrightarrow> stops t \<Longrightarrow> reads_value (dumps v @ t) v t"
proof (induction v arbitrary: t)
  case (JInt n)
  then show ?case using int_str_word [of n t] by (auto intro: word)
next
  case (JStr s)
  then show ?case using string [OF dumps_str_reads [of s t]] by (simp add: dumps_str_def)
next
  case (JArr vs)
  show ?case
  proof (cases "vs = []")
    case True
    then show ?thesis by (simp add: empty_array skip_ws_def)
  next
    case False
    let ?r = "join [44] (map dumps vs) @ 93 # t"
    have "reads_elems ?r vs t" by (rule dumps_elems_reads) (use JArr False in \<open>auto simp: list_all_iff\<close>)
    then show ?thesis using array [of ?r vs t] reads_elems_skip_ws by simp
  qed
next
  case (JObj kvs)
  show ?case
  proof (cases "kvs = []")
    case True
    then show ?thesis by (simp add: empty_object skip_ws_def)
  next
    case False
    let ?r = "join [44] (map (\<lambda>(k, v). dumps_str k @ [58] @ dumps v) kvs) @ 125 # t"
    have "reads_members ?r kvs t" by (rule dumps_members_reads) (use JObj False in \<open>auto simp: list_all_iff\<close>)
    moreover from this have "skip_ws ?r = ?r" by (auto simp: skip_ws_def elim: reads_members.cases)
    ultimately show ?thesis using object [of ?r kvs t] JObj.prems(1) by simp
  qed
next
  case (JBool b)
  then show ?case by (cases b) (auto intro!: word simp: scan_word_def strip_prefix_def)
qed (auto intro!: word simp: scan_word_def strip_prefix_def)

section \<open>Round trip and injectivity\<close>

lemma set_join: "set (join sep xs) \<subseteq> set sep \<union> \<Union> (set ` set xs)"
  by (induction sep xs rule: join.induct) auto

lemma hex4_ascii: "c \<in> set (hex4 n) \<Longrightarrow> 48 \<le> c \<and> c < 103 \<and> c \<noteq> 92"
proof -
  have "n mod 16 < 16" for n :: nat by simp
  then have "48 \<le> hex_digit (m mod 16) \<and> hex_digit (m mod 16) < 103 \<and> hex_digit (m mod 16) \<noteq> 92" for m
    by (auto simp: hex_digit_def)
  then show "c \<in> set (hex4 n) \<Longrightarrow> ?thesis" by (auto simp: hex4_def)
qed

lemma esc_char_ascii:
  assumes "c \<in> set (esc_char d)"
  shows "32 \<le> c \<and> c < 127"
proof -
  consider "32 \<le> c \<and> c < 127" | n where "c \<in> set (hex4 n)"
    using assms unfolding esc_char_def by (simp split: if_splits) (elim disjE; simp; fail)+
  then show ?thesis by cases (auto dest: hex4_ascii)
qed

lemma dumps_str_ascii: "c \<in> set (dumps_str s) \<Longrightarrow> 32 \<le> c \<and> c < 127"
  using esc_char_ascii by (auto simp: dumps_str_def)

lemma dumps_printable: "c \<in> set (dumps v) \<Longrightarrow> 32 \<le> c \<and> c < 127"
proof (induction v arbitrary: c)
  case (JInt n)
  then show ?case by (auto simp: int_str_def is_digit_def split: if_splits dest!: nat_str_digits)
next
  case (JStr s)
  then show ?case by (simp add: dumps_str_ascii)
next
  case (JArr vs)
  then show ?case using set_join [of "[44]" "map dumps vs"] by fastforce
next
  case (JObj kvs)
  let ?w = "\<lambda>(key, v). dumps_str key @ [58] @ dumps v"
  have "32 \<le> d \<and> d < 127" if "d \<in> set (join [44] (map ?w kvs))" for d
  proof -
    from that set_join [of "[44]" "map ?w kvs"] consider "d = 44" | k v where "(k, v) \<in> set kvs" "d \<in> set (?w (k, v))" by fastforce
    then show ?thesis using JObj.IH by cases (auto dest: dumps_str_ascii)
  qed
  then show ?case using JObj.prems by auto
qed (auto split: if_splits)

lemma dumps_ascii: "c \<in> set (dumps v) \<Longrightarrow> c < 127"
  using dumps_printable by blast

lemma json_loads_dumps:
  assumes "json_wf v"
  shows "json_loads (dumps v) = Inr v"
proof -
  have r: "reads_value (dumps v) v []" using dumps_reads [OF assms, of "[]"] by (simp add: stops_def)
  have "dumps v = [] \<or> hd (dumps v) \<noteq> 65279" using dumps_ascii [of "hd (dumps v)" v] by (cases "dumps v") auto
  then show ?thesis using r by (auto simp: json_loads_reads reads_skip_ws [OF r] skip_ws_Nil intro!: exI [of _ "[]"])
qed

lemma sort_key_wf: "distinct (map fst xs) \<Longrightarrow> distinct (map fst (sort_key fst xs))"
  by (metis distinct_map set_sort distinct_sort)

lemma map_fst_sorted: "map fst (map (\<lambda>(k, v). (k, f v)) kvs) = map fst kvs"
  by (induction kvs) auto

lemma sorted_keys_wf: "json_wf v \<Longrightarrow> json_wf (sorted_keys v)"
proof (induction v)
  case (JObj kvs)
  have "distinct (map fst (sort_key fst (map (\<lambda>(k, v). (k, sorted_keys v)) kvs)))"
    using JObj.prems by (intro sort_key_wf) (simp only: map_fst_sorted json_wf.simps)
  then show ?case using JObj by (auto simp: list_all_iff)
qed (auto simp: list_all_iff)

lemma foldr_max_le: "foldr (\<lambda>x. max (f x)) xs (0::int) \<le> n \<longleftrightarrow> 0 \<le> n \<and> (\<forall>x\<in>set xs. f x \<le> n)"
  by (induction xs) auto

lemma foldr_max_cong:
  assumes "f ` set xs = g ` set ys"
  shows "foldr (\<lambda>x. max (f x)) xs (0::int) = foldr (\<lambda>x. max (g x)) ys 0"
proof -
  have "foldr (\<lambda>x. max (f x)) xs 0 \<le> n \<longleftrightarrow> foldr (\<lambda>x. max (g x)) ys 0 \<le> n" for n
    unfolding foldr_max_le using assms by (metis (no_types, lifting) image_iff)
  then show ?thesis by (meson order.antisym order.refl)
qed

lemma depth_members_eq: "depth_members kvs = foldr (\<lambda>x. max (json_depth (snd x))) kvs 0"
  by (simp add: case_prod_unfold)

lemma sorted_keys_depth: "json_depth (sorted_keys v) = json_depth v"
proof (induction v)
  case (JArr vs)
  have "foldr (\<lambda>v. max (json_depth v)) (map sorted_keys vs) 0 = foldr (\<lambda>v. max (json_depth v)) vs 0"
    by (rule foldr_max_cong) (use JArr in \<open>auto simp: image_image\<close>)
  then show ?case by simp
next
  case (JObj kvs)
  have "foldr (\<lambda>x. max (json_depth (snd x))) (sort_key fst (map (\<lambda>(k, v). (k, sorted_keys v)) kvs)) 0 =
      foldr (\<lambda>x. max (json_depth (snd x))) kvs 0"
    by (rule foldr_max_cong) (use JObj in \<open>force simp: image_iff\<close>)
  then show ?case by (simp add: case_prod_unfold)
qed simp_all

lemma canonical_dumps_inj:
  "json_wf v \<Longrightarrow> json_wf w \<Longrightarrow> canonical_dumps v = canonical_dumps w \<Longrightarrow> sorted_keys v = sorted_keys w"
  unfolding canonical_dumps_def using json_loads_dumps [OF sorted_keys_wf] by (metis sum.inject(2))

text \<open>Pieces of text the surrogate scan passes over.\<close>

definition transparent :: "pystr \<Rightarrow> bool" where
  "transparent u \<longleftrightarrow> (\<forall>r. has_lone_surrogate (u @ r) = has_lone_surrogate r)"

lemma transparentI:
  "transparent []" "transparent u \<Longrightarrow> transparent v \<Longrightarrow> transparent (u @ v)" "c \<noteq> 92 \<Longrightarrow> transparent u \<Longrightarrow> transparent (c # u)"
  by (simp_all add: transparent_def has_lone_surrogate.simps(2))

lemma transparent_plain: "\<forall>c\<in>set u. c \<noteq> 92 \<Longrightarrow> transparent u"
  by (induction u) (auto intro: transparentI)

lemma transparent_join: "transparent sep \<Longrightarrow> \<forall>x\<in>set xs. transparent x \<Longrightarrow> transparent (join sep xs)"
  by (induction sep xs rule: join.induct) (auto intro: transparentI)

lemma transparent_concat: "\<forall>x\<in>set xs. transparent x \<Longrightarrow> transparent (concat xs)"
  by (induction xs) (auto intro: transparentI)

lemma transparent_esc_char:
  assumes "scalar c"
  shows "transparent (esc_char c)"
  using assms
proof (cases rule: esc_char_cases)
  case unit_esc
  have "py_int16 (hex4 c) = Some (int c)" by (rule py_int16_hex4_val) (use unit_esc in simp)
  moreover have "\<not> is_high (int c)" "\<not> is_low (int c)" using assms by (auto simp: is_high_def is_low_def scalar_def)
  ultimately show ?thesis using unit_esc by (simp add: transparent_def has_lone_surrogate.simps(2))
next
  case (pair_esc a b)
  let ?h = "hex4 (55296 + a)" and ?l = "hex4 (56320 + b)"
  have "py_int16 ?h = Some (int (55296 + a))" "py_int16 ?l = Some (int (56320 + b))"
    by (rule py_int16_hex4_val, use pair_esc in simp)+
  moreover have "drop 5 (117 # ?h @ r) = r" "drop 7 (117 # ?h @ r) = drop 2 r" "drop 11 (117 # ?h @ r) = drop 6 r" for r by simp_all
  ultimately show ?thesis
    using pair_esc by (simp add: transparent_def has_lone_surrogate.simps(2) is_high_def is_low_def)
qed (auto simp: transparent_def has_lone_surrogate.simps(2))

lemma transparent_dumps_str: "list_all scalar s \<Longrightarrow> transparent (dumps_str s)"
  unfolding dumps_str_def
  by (intro transparentI transparent_concat) (auto simp: list_all_iff transparent_esc_char)

lemma transparent_dumps: "json_wf v \<Longrightarrow> transparent (dumps v)"
proof (induction v)
  case (JInt n)
  have "\<forall>c\<in>set (int_str n). c \<noteq> 92" using nat_str_digits [of 92] by (auto simp: int_str_def is_digit_def)
  then show ?case by (simp add: transparent_plain)
next
  case (JArr vs)
  then show ?case by (auto simp: list_all_iff intro!: transparentI transparent_join)
next
  case (JObj kvs)
  then show ?case
    by (fastforce simp: list_all_iff intro!: transparentI transparent_join transparent_dumps_str)
qed (auto simp: transparent_dumps_str intro!: transparent_plain)

text \<open>A line may end in blanks.\<close>

lemma loads_strict_dumps_blanks:
  assumes "json_wf v" "json_depth v \<le> MAX_JSON_DEPTH" "skip_ws t = []"
  shows "loads_strict (dumps v @ t) = Inr v"
proof -
  have t: "\<forall>c\<in>set t. c = 32 \<or> c = 9 \<or> c = 10 \<or> c = 13" using assms(3) by (simp add: skip_ws_def dropWhile_eq_Nil_conv)
  then have "stops t" by (cases t) (auto simp: stops_def)
  then have r: "reads_value (dumps v @ t) v t" using dumps_reads [OF assms(1)] by blast
  then have "json_nesting_depth (dumps v @ t) = json_depth v"
    using reads_nesting_depth [of "dumps v @ t" v t] reads_skip_ws [OF r] assms(3) by simp
  moreover have asc: "c < 127" if "c \<in> set (dumps v @ t)" for c using that dumps_ascii [of c v] t by auto
  moreover from asc have "\<not> raw_surrogate (dumps v @ t)" by (fastforce simp: raw_surrogate_def list_ex_iff)
  moreover have "\<not> has_lone_surrogate (dumps v @ t)"
  proof -
    have "transparent t" by (rule transparent_plain) (use t in auto)
    then show ?thesis
      using transparent_dumps [OF assms(1)] by (metis append_Nil2 has_lone_surrogate.simps(1) transparent_def)
  qed
  moreover have "json_loads (dumps v @ t) = Inr v"
  proof -
    have "dumps v @ t = [] \<or> hd (dumps v @ t) \<noteq> 65279" using asc by (cases "dumps v @ t") fastforce+
    then show ?thesis using r assms(3) unfolding json_loads_reads reads_skip_ws [OF r] by blast
  qed
  ultimately show ?thesis using assms(2) by (simp add: loads_strict_def Let_def)
qed

lemma loads_strict_dumps: "json_wf v \<Longrightarrow> json_depth v \<le> MAX_JSON_DEPTH \<Longrightarrow> loads_strict (dumps v) = Inr v"
  using loads_strict_dumps_blanks [of v "[]"] by simp

section \<open>Properties of the strict reader\<close>

text \<open>
  C12. Round trip of the canonical form: for every value of the acceptance profile (integers within
  \<open>2\<^sup>5\<^sup>3 - 1\<close>, distinct keys, Unicode scalar values, at most 512 levels), \<^verbatim>\<open>_loads_strict\<close> reads the text that
  \<^verbatim>\<open>json.dumps(sort_keys=True, separators=(",", ":"))\<close> writes back to the value with its keys sorted.
\<close>

theorem loads_strict_canonical_dumps:
  assumes "json_wf v" "json_depth v \<le> MAX_JSON_DEPTH"
  shows "loads_strict (canonical_dumps v) = Inr (sorted_keys v)"
  unfolding canonical_dumps_def
  by (rule loads_strict_dumps) (use assms in \<open>simp_all add: sorted_keys_wf sorted_keys_depth\<close>)

theorem loads_strict_canonical_dumps_witness:
  "loads_strict (canonical_dumps (JObj [(lit ''b'', JInt (- 7)), (lit ''a'', JArr [JStr [128512, 34], JNull])])) =
     Inr (JObj [(lit ''a'', JArr [JStr [128512, 34], JNull]), (lit ''b'', JInt (- 7))])"
  using loads_strict_canonical_dumps [of "JObj [(lit ''b'', JInt (- 7)), (lit ''a'', JArr [JStr [128512, 34], JNull])]"]
  by (simp add: scalar_def SAFE_INT_def MAX_JSON_DEPTH_def)

lemma loads_strict_in_profile:
  assumes "list_all (\<lambda>c. c < 1114112) s" "loads_strict s = Inr v"
  shows "json_wf v \<and> json_depth v \<le> MAX_JSON_DEPTH \<and> json_nesting_depth s = json_depth v"
proof -
  have acc: "json_nesting_depth s \<le> MAX_JSON_DEPTH" "\<not> raw_surrogate s" "\<not> has_lone_surrogate s" "json_loads s = Inr v"
    using assms(2) by (auto simp: loads_strict_def Let_def split: if_splits)
  then obtain r where r: "reads_value (skip_ws s) v r" "skip_ws r = []" by (auto simp: json_loads_reads)
  have "clean s" using assms(1) acc(2,3) by (auto simp: clean_def raw_surrogate_def scalar_def list_all_iff list_ex_iff)
  then have "json_wf v" using reads_clean(1) [OF r(1)] clean_skip_ws by blast
  with reads_nesting_depth [OF r] acc(1) show ?thesis by simp
qed

text \<open>
  C13. What \<^verbatim>\<open>_loads_strict\<close> accepts is inside the acceptance profile, for every text of code points: bounded
  integers, no duplicate key at any level, no surrogate in any string, and the nesting of the decoded
  value, measured beforehand by the linear scan, at most 512. The reader always returns.
\<close>

theorem loads_strict_profile:
  assumes "list_all (\<lambda>c. c < 1114112) s" "loads_strict s = Inr v"
  shows "json_wf v \<and> json_depth v \<le> MAX_JSON_DEPTH \<and> json_nesting_depth s = json_depth v"
  by (rule loads_strict_in_profile [OF assms])

theorem loads_strict_profile_witness:
  "loads_strict (lit ''[1]'') = Inr (JArr [JInt 1]) \<and>
   json_wf (JArr [JInt 1]) \<and> json_depth (JArr [JInt 1]) \<le> MAX_JSON_DEPTH \<and> json_nesting_depth (lit ''[1]'') = json_depth (JArr [JInt 1])"
proof -
  have "loads_strict (lit ''[1]'') = Inr (JArr [JInt 1])"
    using loads_strict_dumps [of "JArr [JInt 1]"] by (simp add: SAFE_INT_def MAX_JSON_DEPTH_def int_str_def nat_str.simps)
  with loads_strict_profile [of "lit ''[1]''" "JArr [JInt 1]"] show ?thesis by simp
qed

end
