(* ===== verification/Codec.thy ===== *)
theory Codec
  imports Py_Json_Roundtrip
begin

text \<open>
  Encodings of octet strings in text: \<^verbatim>\<open>bytes.hex\<close> and \<^verbatim>\<open>bytes.fromhex\<close>, standard base64 with the strict decoder
  of \<^verbatim>\<open>src/cryptovalid_tip.py\<close> and \<^verbatim>\<open>src/signer.py\<close> (\<^verbatim>\<open>_b64_strict\<close>), UTF-8. The locale \<open>codec\<close> states what a client
  needs of such a pair, and every encoding of the development is an instance of it.
\<close>

section \<open>The interface\<close>

locale codec =
  fixes enc :: "'a \<Rightarrow> 'b" and dec :: "'b \<Rightarrow> 'a option" and valid :: "'a \<Rightarrow> bool"
  assumes dec_enc: "valid x \<Longrightarrow> dec (enc x) = Some x"
begin

lemma enc_eq_iff: "valid x \<Longrightarrow> valid y \<Longrightarrow> enc x = enc y \<longleftrightarrow> x = y"
  by (metis dec_enc option.inject)

lemma collision_transfer:
  assumes "\<forall>x\<in>X. valid x" "collision (\<lambda>x. H (enc x)) X"
  shows "collision H (enc ` X)"
  using assms enc_eq_iff unfolding collision_def by blast

end

section \<open>Hexadecimal\<close>

definition hex_of :: "bytes \<Rightarrow> pystr" where
  "hex_of bs = concat (map (\<lambda>b. [hex_digit (unat b div 16), hex_digit (unat b mod 16)]) bs)"

text \<open>\<^verbatim>\<open>bytes.fromhex\<close> skips ASCII blanks between octets and takes both letter cases.\<close>

function fromhex :: "pystr \<Rightarrow> bytes option" where
  "fromhex [] = Some []"
| "fromhex (c # s) =
     (if c_space c then fromhex s
      else case s of
          [] \<Rightarrow> None
        | d # s' \<Rightarrow>
            (case (hexval c, hexval d) of
               (Some x, Some y) \<Rightarrow> map_option (\<lambda>bs. of_nat (16 * x + y) # bs) (fromhex s')
             | _ \<Rightarrow> None))"
  by pat_completeness auto
termination
  by (relation "measure length") auto

definition lower_hex :: "nat \<Rightarrow> bool" where
  "lower_hex c \<longleftrightarrow> (48 \<le> c \<and> c \<le> 57) \<or> (97 \<le> c \<and> c \<le> 102)"

text \<open>\<^verbatim>\<open>re.compile(r"[0-9a-f]{n}").fullmatch\<close>.\<close>

definition hex_fullmatch :: "nat \<Rightarrow> pystr \<Rightarrow> bool" where
  "hex_fullmatch n s \<longleftrightarrow> length s = n \<and> list_all lower_hex s"

lemma unat_byte: "unat (b :: byte) < 256"
  using unsigned_less [of b] by simp

lemma byte_nibbles: "unat (b :: byte) div 16 < 16" "unat b mod 16 < 16" "(of_nat (16 * (unat b div 16) + unat b mod 16) :: byte) = b"
  using unat_byte [of b] by (simp_all add: mult_div_mod_eq)

lemma hex_digit_plain: "n < 16 \<Longrightarrow> \<not> c_space (hex_digit n)" "n < 16 \<Longrightarrow> lower_hex (hex_digit n)"
  by (auto simp: c_space_def hex_digit_def lower_hex_def)

lemma fromhex_hex_of: "fromhex (hex_of bs) = Some bs"
proof (induction bs)
  case (Cons b bs)
  then show ?case
    using byte_nibbles [of b] hex_digit_plain(1) [OF byte_nibbles(1), of b] by (simp add: hex_of_def)
qed (simp add: hex_of_def)

interpretation hex: codec hex_of fromhex "\<lambda>_. True"
  by unfold_locales (simp add: fromhex_hex_of)

lemma length_hex_of [simp]: "length (hex_of bs) = 2 * length bs"
  by (induction bs) (auto simp: hex_of_def)

lemma hex_of_fullmatch: "n = 2 * length bs \<Longrightarrow> hex_fullmatch n (hex_of bs)"
proof (induction bs arbitrary: n)
  case (Cons b bs)
  then show ?case using hex_digit_plain(2) byte_nibbles [of b] by (simp add: hex_fullmatch_def hex_of_def)
qed (simp add: hex_fullmatch_def hex_of_def)

text \<open>A text that matches the lower-case pattern is the rendering of the octets it decodes to.\<close>

lemma lower_hex_digit: "lower_hex c \<Longrightarrow> \<exists>x. hexval c = Some x \<and> x < 16 \<and> hex_digit x = c \<and> \<not> c_space c"
  by (auto simp: lower_hex_def hexval_def hex_digit_def c_space_def)

lemma hex_fullmatch_decodes: "hex_fullmatch (2 * n) s \<Longrightarrow> \<exists>bs. fromhex s = Some bs \<and> length bs = n \<and> hex_of bs = s"
proof (induction n arbitrary: s)
  case 0
  then show ?case by (simp add: hex_fullmatch_def hex_of_def)
next
  case (Suc n)
  then obtain c d t where s: "s = c # d # t" "hex_fullmatch (2 * n) t" "lower_hex c" "lower_hex d"
    by (auto simp: hex_fullmatch_def length_Suc_conv)
  from Suc.IH [OF s(2)] obtain bs where bs: "fromhex t = Some bs" "length bs = n" "hex_of bs = t" by blast
  obtain x y where x: "hexval c = Some x" "x < 16" "hex_digit x = c" "\<not> c_space c" and y: "hexval d = Some y" "y < 16" "hex_digit y = d"
    using lower_hex_digit s(3,4) by meson
  have "unat (of_nat (16 * x + y) :: byte) = 16 * x + y" unfolding unat_of_nat using x(2) y(2) by simp
  then show ?case
    using s bs x y by (intro exI [of _ "of_nat (16 * x + y) # bs"]) (simp add: hex_of_def)
qed

section \<open>Base64\<close>

definition b64_char :: "nat \<Rightarrow> nat" where
  "b64_char n =
     (if n < 26 then 65 + n else if n < 52 then 71 + n else if n < 62 then n - 4 else if n = 62 then 43 else 47)"

definition b64_val :: "nat \<Rightarrow> nat option" where
  "b64_val c =
     (if 65 \<le> c \<and> c \<le> 90 then Some (c - 65) else if 97 \<le> c \<and> c \<le> 122 then Some (c - 71)
      else if 48 \<le> c \<and> c \<le> 57 then Some (c + 4) else if c = 43 then Some 62 else if c = 47 then Some 63 else None)"

lemma b64_val_char [simp]: "n < 64 \<Longrightarrow> b64_val (b64_char n) = Some n"
  by (auto simp: b64_val_def b64_char_def)

lemma b64_char_not_pad: "n < 64 \<Longrightarrow> b64_char n \<noteq> 61"
  by (auto simp: b64_char_def)

fun b64encode :: "bytes \<Rightarrow> pystr" where
  "b64encode (a # b # c # r) =
     (let n = unat a * 65536 + unat b * 256 + unat c in
      [b64_char (n div 262144), b64_char (n div 4096 mod 64), b64_char (n div 64 mod 64), b64_char (n mod 64)] @ b64encode r)"
| "b64encode [a, b] =
     (let n = unat a * 65536 + unat b * 256 in
      [b64_char (n div 262144), b64_char (n div 4096 mod 64), b64_char (n div 64 mod 64), 61])"
| "b64encode [a] =
     (let n = unat a * 65536 in [b64_char (n div 262144), b64_char (n div 4096 mod 64), 61, 61])"
| "b64encode [] = []"

text \<open>
  \<^verbatim>\<open>base64.b64decode(s, validate=True)\<close> on texts whose length is a multiple of four: groups of four letters,
  padding only in the last one; the bits a padded group does not use are ignored. Other lengths are
  refused by every caller before.
\<close>

fun b64decode :: "pystr \<Rightarrow> bytes option" where
  "b64decode [] = Some []"
| "b64decode (w # x # y # z # r) =
     (case (b64_val w, b64_val x) of
        (Some a, Some b) \<Rightarrow>
          if y = 61 \<and> z = 61 \<and> r = [] then Some [of_nat ((a * 262144 + b * 4096) div 65536)]
          else (case b64_val y of
              None \<Rightarrow> None
            | Some c \<Rightarrow>
                if z = 61 \<and> r = []
                then (let n = a * 262144 + b * 4096 + c * 64 in Some [of_nat (n div 65536), of_nat (n div 256 mod 256)])
                else (case b64_val z of
                    None \<Rightarrow> None
                  | Some d \<Rightarrow>
                      (let n = a * 262144 + b * 4096 + c * 64 + d in
                       map_option (\<lambda>bs. of_nat (n div 65536) # of_nat (n div 256 mod 256) # of_nat (n mod 256) # bs) (b64decode r))))
      | _ \<Rightarrow> None)"
| "b64decode _ = None"

lemma base64_digits:
  assumes "n < 16777216"
  shows "n div 262144 < 64" "n div 4096 mod 64 < 64" "n div 64 mod 64 < 64" "n mod 64 < 64"
    "n div 262144 * 262144 + n div 4096 mod 64 * 4096 + n div 64 mod 64 * 64 + n mod 64 = (n :: nat)"
proof -
  have "n div 4096 = 64 * (n div 262144) + n div 4096 mod 64" "n div 64 = 64 * (n div 4096) + n div 64 mod 64"
    using mult_div_mod_eq [of 64 "n div 4096"] mult_div_mod_eq [of 64 "n div 64"] by (simp_all add: div_mult2_eq [symmetric])
  then show "n div 262144 * 262144 + n div 4096 mod 64 * 4096 + n div 64 mod 64 * 64 + n mod 64 = n"
    using mult_div_mod_eq [of 64 n] by linarith
qed (use assms in auto)

lemma base256_digits:
  assumes "a < 256" "b < 256" "c < 256"
  shows "(a * 65536 + b * 256 + c) div 65536 = (a :: nat)" "(a * 65536 + b * 256 + c) div 256 mod 256 = b"
    "(a * 65536 + b * 256 + c) mod 256 = c" "a * 65536 + b * 256 + c < 16777216"
proof -
  have "(a * 65536 + b * 256 + c) div 256 = a * 256 + b" using assms(3) by simp
  then show "(a * 65536 + b * 256 + c) div 256 mod 256 = b" using assms(2) by simp
  have "a * 65536 + b * 256 + c = c + (a * 256 + b) * 256" by simp
  then show "(a * 65536 + b * 256 + c) mod 256 = c" using assms(3) by (metis mod_less mod_mult_self1)
qed (use assms in auto)

text \<open>The three shapes of a group.\<close>

lemma b64_groups:
  assumes "n < 16777216"
  shows "b64decode (b64_char (n div 262144) # b64_char (n div 4096 mod 64) # b64_char (n div 64 mod 64) # b64_char (n mod 64) # r) =
      map_option (\<lambda>bs. of_nat (n div 65536) # of_nat (n div 256 mod 256) # of_nat (n mod 256) # bs) (b64decode r)"
    "n mod 64 = 0 \<Longrightarrow> b64decode [b64_char (n div 262144), b64_char (n div 4096 mod 64), b64_char (n div 64 mod 64), 61] =
      Some [of_nat (n div 65536), of_nat (n div 256 mod 256)]"
    "n mod 4096 = 0 \<Longrightarrow> b64decode [b64_char (n div 262144), b64_char (n div 4096 mod 64), 61, 61] = Some [of_nat (n div 65536)]"
proof -
  define a b c d where "a = n div 262144" "b = n div 4096 mod 64" "c = n div 64 mod 64" "d = n mod 64"
  have bnd: "a < 64" "b < 64" "c < 64" "d < 64" and n: "a * 262144 + b * 4096 + c * 64 + d = n"
    using base64_digits [OF assms] by (simp_all add: a_b_c_d_def)
  have pad: "b64_char c \<noteq> 61" "b64_char d \<noteq> 61" using bnd by (simp_all add: b64_char_not_pad)
  show "b64decode (b64_char (n div 262144) # b64_char (n div 4096 mod 64) # b64_char (n div 64 mod 64) # b64_char (n mod 64) # r) =
      map_option (\<lambda>bs. of_nat (n div 65536) # of_nat (n div 256 mod 256) # of_nat (n mod 256) # bs) (b64decode r)"
    unfolding a_b_c_d_def [symmetric] using bnd pad by (simp add: n)
  show "b64decode [b64_char (n div 262144), b64_char (n div 4096 mod 64), b64_char (n div 64 mod 64), 61] =
      Some [of_nat (n div 65536), of_nat (n div 256 mod 256)]" if "n mod 64 = 0"
  proof -
    have "d = 0" using that a_b_c_d_def(4) by simp
    then show ?thesis unfolding a_b_c_d_def(1-3) [symmetric] using bnd pad n by simp
  qed
  show "b64decode [b64_char (n div 262144), b64_char (n div 4096 mod 64), 61, 61] = Some [of_nat (n div 65536)]" if "n mod 4096 = 0"
  proof -
    have "n = 64 * (64 * (n div 4096))" using that mult_div_mod_eq [of 4096 n] by simp
    then obtain k where "n = 64 * (64 * k)" ..
    then have "d = 0" "c = 0" using a_b_c_d_def(3,4) by simp_all
    then show ?thesis unfolding a_b_c_d_def(1,2) [symmetric] using bnd n by simp
  qed
qed

lemma b64decode_encode: "b64decode (b64encode bs) = Some bs"
proof (induction bs rule: b64encode.induct)
  case (1 a b c r)
  define n where "n = unat a * 65536 + unat b * 256 + unat c"
  have n: "n div 65536 = unat a" "n div 256 mod 256 = unat b" "n mod 256 = unat c" "n < 16777216"
    using base256_digits [OF unat_byte unat_byte unat_byte, of a b c] by (simp_all add: n_def)
  have "b64encode (a # b # c # r) =
      b64_char (n div 262144) # b64_char (n div 4096 mod 64) # b64_char (n div 64 mod 64) # b64_char (n mod 64) # b64encode r"
    by (simp add: n_def Let_def)
  then show ?case using b64_groups(1) [OF n(4)] 1 n by simp
next
  case (2 a b)
  define n where "n = unat a * 65536 + unat b * 256"
  have "n = 64 * (unat a * 1024 + unat b * 4)" by (simp add: n_def)
  then have "n mod 64 = 0" by (simp only: mod_mult_self1_is_0)
  with base256_digits [OF unat_byte unat_byte, of 0 a b] have
    n: "n div 65536 = unat a" "n div 256 mod 256 = unat b" "n < 16777216" "n mod 64 = 0" by (simp_all add: n_def)
  have "b64encode [a, b] = [b64_char (n div 262144), b64_char (n div 4096 mod 64), b64_char (n div 64 mod 64), 61]"
    by (simp add: n_def Let_def)
  then show ?case using b64_groups(2) [OF n(3,4)] n by simp
next
  case (3 a)
  define n where "n = unat a * 65536"
  have n: "n div 65536 = unat a" "n < 16777216" "n mod 4096 = 0"
    using unat_byte [of a] by (simp_all add: n_def mod_eq_0_iff_dvd dvd_mult)
  have "b64encode [a] = [b64_char (n div 262144), b64_char (n div 4096 mod 64), 61, 61]"
    by (simp add: n_def Let_def)
  then show ?case using b64_groups(3) [OF n(2,3)] n by simp
qed simp

interpretation b64: codec b64encode b64decode "\<lambda>_. True"
  by unfold_locales (simp add: b64decode_encode)

text \<open>\<^verbatim>\<open>_b64_strict\<close>: the canonical base64 text of exactly \<open>n\<close> octets, and nothing else.\<close>

definition b64_strict :: "json \<Rightarrow> nat \<Rightarrow> bytes option" where
  "b64_strict v n =
     (case v of
        JStr s \<Rightarrow>
          if length s \<noteq> (n + 2) div 3 * 4 then None
          else (case b64decode s of
              None \<Rightarrow> None
            | Some raw \<Rightarrow> if length raw = n \<and> b64encode raw = s then Some raw else None)
      | _ \<Rightarrow> None)"

lemma length_b64encode: "length (b64encode bs) = (length bs + 2) div 3 * 4"
proof (induction bs rule: b64encode.induct)
  case (1 a b c r)
  have "(length (a # b # c # r) + 2) div 3 = Suc ((length r + 2) div 3)" by simp
  then show ?case using 1 by (simp add: Let_def)
qed (simp_all add: Let_def)

lemma b64_strict_iff: "b64_strict (JStr s) n = Some raw \<longleftrightarrow> length raw = n \<and> s = b64encode raw"
proof
  assume "b64_strict (JStr s) n = Some raw"
  then show "length raw = n \<and> s = b64encode raw"
    by (cases "b64decode s") (auto simp: b64_strict_def split: if_splits)
next
  assume "length raw = n \<and> s = b64encode raw"
  then show "b64_strict (JStr s) n = Some raw"
    using length_b64encode [of raw] b64decode_encode [of raw] by (simp add: b64_strict_def)
qed

section \<open>Canonical JSON\<close>

definition json_dec :: "pystr \<Rightarrow> json option" where
  "json_dec s = (case json_loads s of Inl _ \<Rightarrow> None | Inr v \<Rightarrow> Some v)"

interpretation json: codec dumps json_dec json_wf
  by unfold_locales (simp add: json_dec_def json_loads_dumps)

text \<open>The octets of a canonical text: injective on values of the profile, up to the order of keys.\<close>

definition canonical_bytes :: "json \<Rightarrow> bytes" where
  "canonical_bytes v = ascii_bytes (canonical_dumps v)"

lemma canonical_bytes_inj:
  assumes "json_wf v" "json_wf w" "canonical_bytes v = canonical_bytes w"
  shows "sorted_keys v = sorted_keys w"
proof (rule canonical_dumps_inj [OF assms(1,2)])
  have "\<forall>c\<in>set (canonical_dumps u). c < 256" for u using dumps_ascii by (fastforce simp: canonical_dumps_def)
  then show "canonical_dumps v = canonical_dumps w" using assms(3) by (auto simp: canonical_bytes_def intro: ascii_bytes_inj)
qed

end
