(* ===== verification/Ed25519_Order.thy ===== *)
theory Ed25519_Order
  imports Codec
begin

text \<open>
  Points of small and mixed order on edwards25519 (\<^verbatim>\<open>src/ed25519_order.py\<close>): the decoding of RFC 8032 5.1.3, the
  addition of 5.1.4, and the rules the signature checks apply to a key and to \<open>R\<close> before the library's
  equation. All numbers are Python integers.
\<close>

section \<open>Field and curve\<close>

text \<open>\<^verbatim>\<open>pow(b, e, m)\<close> by repeated squaring.\<close>

function pow_mod :: "int \<Rightarrow> nat \<Rightarrow> int \<Rightarrow> int" where
  "pow_mod b e m =
     (if e = 0 then 1 mod m
      else if even e then pow_mod (b * b mod m) (e div 2) m
      else b * pow_mod (b * b mod m) (e div 2) m mod m)"
  by pat_completeness auto
termination
  by (relation "measure (\<lambda>(b, e, m). e)") (auto elim: oddE)

declare pow_mod.simps [simp del]

lemma pow_mod_power: "pow_mod b e m = b ^ e mod m"
proof (induction b e m rule: pow_mod.induct)
  case (1 b e m)
  have sq: "(b * b mod m) ^ k mod m = b ^ (2 * k) mod m" for k
    by (simp add: power_mod power_mult power2_eq_square)
  show ?case
  proof (cases "e = 0")
    case True
    then show ?thesis by (subst pow_mod.simps) simp
  next
    case False
    show ?thesis
    proof (cases "even e")
      case True
      then show ?thesis using False 1 sq [of "e div 2"] by (subst pow_mod.simps) simp
    next
      case odd: False
      then have "b ^ e = b * b ^ (2 * (e div 2))" by (metis odd_two_times_div_two_succ power_Suc Suc_eq_plus1)
      then show ?thesis using False odd 1 sq [of "e div 2"] by (subst pow_mod.simps) (simp add: mod_mult_right_eq)
    qed
  qed
qed

definition field_p :: int where
  "field_p = 2 ^ 255 - 19"

definition group_L :: nat where
  "group_L = 2 ^ 252 + 27742317777372353535851937790883648493"

definition curve_d :: int where
  "curve_d = (- 121665 * pow_mod 121666 (nat (field_p - 2)) field_p) mod field_p"

definition sqrt_m1 :: int where
  "sqrt_m1 = pow_mod 2 (nat ((field_p - 1) div 4)) field_p"

record point =
  X :: int
  Y :: int
  Z :: int
  T :: int

definition NEUTRAL :: point where
  "NEUTRAL = \<lparr>X = 0, Y = 1, Z = 1, T = 0\<rparr>"

section \<open>Octets\<close>

definition from_le :: "bytes \<Rightarrow> nat" where
  "from_le bs = foldr (\<lambda>b n. unat b + 256 * n) bs 0"

fun to_le :: "nat \<Rightarrow> nat \<Rightarrow> bytes" where
  "to_le 0 n = []"
| "to_le (Suc k) n = of_nat (n mod 256) # to_le k (n div 256)"

lemma to_le_from_le: "to_le (length bs) (from_le bs) = bs"
proof (induction bs)
  case (Cons b bs)
  have "(unat b + 256 * from_le bs) mod 256 = unat b" "(unat b + 256 * from_le bs) div 256 = from_le bs"
    using unat_byte [of b] by simp_all
  then show ?case using Cons by (simp add: from_le_def)
qed (simp add: from_le_def)

lemma from_le_bound: "from_le bs < 256 ^ length bs"
proof (induction bs)
  case (Cons b bs)
  then have "unat b + 256 * from_le bs < 256 * 256 ^ length bs" using unat_byte [of b] by linarith
  then show ?case by (simp add: from_le_def)
qed (simp add: from_le_def)

section \<open>Decoding, encoding, addition\<close>

text \<open>The square root of \<open>u / v\<close>, as \<^verbatim>\<open>decode\<close> computes it.\<close>

definition recover_x :: "int \<Rightarrow> int option" where
  "recover_x y =
     (let u = (y * y - 1) mod field_p; v = (curve_d * y * y + 1) mod field_p;
          x = u * pow_mod v 3 field_p * pow_mod (u * pow_mod v 7 field_p) (nat ((field_p - 5) div 8)) field_p mod field_p;
          vxx = v * x * x mod field_p in
      if vxx = u then Some x
      else if vxx = (- u) mod field_p then Some (x * sqrt_m1 mod field_p)
      else None)"

definition decode :: "bytes \<Rightarrow> point option" where
  "decode enc =
     (if length enc \<noteq> 32 then None
      else
        let n = int (from_le enc); x_0 = drop_bit 255 n; y = take_bit 255 n in
        if y \<ge> field_p then None
        else
          case recover_x y of
            None \<Rightarrow> None
          | Some x \<Rightarrow>
              if x = 0 \<and> x_0 = 1 then None
              else let x' = (if x mod 2 \<noteq> x_0 then field_p - x else x) in
                Some \<lparr>X = x', Y = y, Z = 1, T = x' * y mod field_p\<rparr>)"

definition encode :: "point \<Rightarrow> bytes" where
  "encode P =
     (let zi = pow_mod (Z P) (nat (field_p - 2)) field_p; x = X P * zi mod field_p; y = Y P * zi mod field_p
      in to_le 32 (nat (or y (push_bit 255 (and x 1)))))"

definition add :: "point \<Rightarrow> point \<Rightarrow> point" where
  "add P1 P2 =
     (let a = (Y P1 - X P1) * (Y P2 - X P2) mod field_p; b = (Y P1 + X P1) * (Y P2 + X P2) mod field_p;
          c = T P1 * 2 * curve_d * T P2 mod field_p; dd = Z P1 * 2 * Z P2 mod field_p;
          e = b - a; f = dd - c; g = dd + c; h = b + a
      in \<lparr>X = e * f mod field_p, Y = g * h mod field_p, Z = f * g mod field_p, T = e * h mod field_p\<rparr>)"

text \<open>The bits of \<open>k\<close> from the top; \<open>nat_bits\<close> lists them from \<^verbatim>\<open>k.bit_length() - 1\<close> down to 0.\<close>

fun nat_bits :: "nat \<Rightarrow> bool list" where
  "nat_bits k = (if k = 0 then [] else nat_bits (k div 2) @ [odd k])"

declare nat_bits.simps [simp del]

definition scalar_mul :: "nat \<Rightarrow> point \<Rightarrow> point" where
  "scalar_mul k P = foldl (\<lambda>R bit. let R = add R R in if bit then add R P else R) NEUTRAL (nat_bits k)"

definition is_neutral :: "point \<Rightarrow> bool" where
  "is_neutral P \<longleftrightarrow> X P mod field_p = 0 \<and> (Y P - Z P) mod field_p = 0"

section \<open>The rules\<close>

datatype ed_problem = Key_Not_Decodable | Small_Order_Key | Mixed_Order_Key | R_Not_Decodable | Small_Order_R

definition key_problem :: "bytes \<Rightarrow> ed_problem option" where
  "key_problem pub =
     (case decode pub of
        None \<Rightarrow> Some Key_Not_Decodable
      | Some A \<Rightarrow>
          if is_neutral (scalar_mul 8 A) then Some Small_Order_Key
          else if \<not> is_neutral (scalar_mul group_L A) then Some Mixed_Order_Key
          else None)"

definition r_problem :: "bytes \<Rightarrow> ed_problem option" where
  "r_problem sig =
     (case (if length sig = 64 then decode (take 32 sig) else None) of
        None \<Rightarrow> Some R_Not_Decodable
      | Some R \<Rightarrow> if is_neutral (scalar_mul 8 R) then Some Small_Order_R else None)"

text \<open>The optional cache is passed and returned; \<open>None\<close> is a call without one.\<close>

type_synonym key_cache = "(bytes \<rightharpoonup> ed_problem option) option"

definition strict_problem :: "bytes \<Rightarrow> bytes \<Rightarrow> key_cache \<Rightarrow> ed_problem option \<times> key_cache" where
  "strict_problem pub sig cache =
     (let (kp, cache') =
        (case cache of
           None \<Rightarrow> (key_problem pub, None)
         | Some m \<Rightarrow> (case m pub of
             Some kp \<Rightarrow> (kp, cache)
           | None \<Rightarrow> (key_problem pub, Some (m(pub \<mapsto> key_problem pub)))))
      in (case kp of Some w \<Rightarrow> Some w | None \<Rightarrow> r_problem sig, cache'))"

section \<open>Properties\<close>

lemma field_p_odd: "odd field_p" "0 < field_p" "field_p < 2 ^ 255"
  by (simp_all add: field_p_def)

lemma top_bit:
  assumes "length enc = 32"
  shows "drop_bit 255 (int (from_le enc)) = 0 \<or> drop_bit 255 (int (from_le enc)) = 1"
proof -
  have "int (from_le enc) < 2 * 2 ^ 255" using from_le_bound [of enc] assms by simp
  then have "drop_bit 255 (int (from_le enc)) < 2" by (simp add: drop_bit_eq_div)
  moreover have "0 \<le> drop_bit 255 (int (from_le enc))" by simp
  ultimately show ?thesis by linarith
qed

lemma parity_fixed:
  assumes "0 \<le> x" "x < field_p" "b = 0 \<or> b = 1" "\<not> (x = 0 \<and> b = 1)"
  shows "(if x mod 2 \<noteq> b then field_p - x else x) mod 2 = b \<and>
    0 \<le> (if x mod 2 \<noteq> b then field_p - x else x) \<and> (if x mod 2 \<noteq> b then field_p - x else x) < field_p"
proof (cases "x mod 2 = b")
  case False
  then have "x \<noteq> 0" using assms(3,4) by auto
  moreover have "(field_p - x) mod 2 = b" using False assms(3) field_p_odd(1) by presburger
  ultimately show ?thesis using False assms by simp
qed (use assms in simp)

lemma mod_choice:
  "(if a then Some (s mod m) else if b then Some (t mod m) else None) = Some x \<Longrightarrow> 0 < m \<Longrightarrow> 0 \<le> x \<and> x < (m :: int)"
  by (auto split: if_splits)

lemma recover_x_range: "recover_x y = Some x \<Longrightarrow> 0 \<le> x \<and> x < field_p"
  unfolding recover_x_def Let_def by (rule mod_choice) (auto simp: field_p_odd)

lemma decode_shape:
  assumes "decode enc = Some P"
  shows "length enc = 32 \<and> Z P = 1 \<and> Y P = take_bit 255 (int (from_le enc)) \<and> Y P < field_p \<and>
    0 \<le> X P \<and> X P < field_p \<and> X P mod 2 = drop_bit 255 (int (from_le enc)) \<and> T P = X P * Y P mod field_p"
proof -
  let ?n = "int (from_le enc)"
  let ?x0 = "drop_bit 255 ?n"
  have len: "length enc = 32" using assms by (simp add: decode_def split: if_splits)
  define y b where "y = take_bit 255 ?n" and "b = ?x0"
  have dec: "decode enc =
      (if y \<ge> field_p then None
       else case recover_x y of None \<Rightarrow> None
        | Some x \<Rightarrow> if x = 0 \<and> b = 1 then None
            else Some \<lparr>X = if x mod 2 \<noteq> b then field_p - x else x, Y = y, Z = 1,
              T = (if x mod 2 \<noteq> b then field_p - x else x) * y mod field_p\<rparr>)"
    unfolding decode_def Let_def y_def b_def using len by simp
  from assms obtain x where rx: "recover_x y = Some x" and x: "\<not> (x = 0 \<and> b = 1)" "y < field_p"
    and P: "P = \<lparr>X = if x mod 2 \<noteq> b then field_p - x else x, Y = y, Z = 1,
      T = (if x mod 2 \<noteq> b then field_p - x else x) * y mod field_p\<rparr>"
    unfolding dec by (cases "recover_x y") (simp_all add: not_le split: if_splits)
  note r = recover_x_range [OF rx]
  show ?thesis
    using parity_fixed [of x b] r top_bit [OF len] x len unfolding P y_def [symmetric] b_def [symmetric] by simp
qed

text \<open>
  C14. Decoding is canonical: whenever \<^verbatim>\<open>decode\<close> accepts 32 octets, the point has both coordinates below \<open>p\<close> and
  \<^verbatim>\<open>encode\<close> gives the same octets back. So no two octet strings decode to one point: the encodings with
  \<open>y \<ge> p\<close> and the one of \<open>x = 0\<close> with the sign bit set, which other decoders accept, are refused.
\<close>

theorem encode_decode:
  assumes "decode enc = Some P"
  shows "encode P = enc \<and> X P < field_p \<and> Y P < field_p"
proof -
  let ?n = "int (from_le enc)"
  note sh = decode_shape [OF assms]
  have "pow_mod 1 k field_p = 1" for k using field_p_odd by (simp add: pow_mod_power field_p_def)
  then have xy: "X P * pow_mod (Z P) (nat (field_p - 2)) field_p mod field_p = X P" "Y P * pow_mod (Z P) (nat (field_p - 2)) field_p mod field_p = Y P"
    using sh by (simp_all add: mod_pos_pos_trivial)
  have "and (X P) 1 = drop_bit 255 ?n" using sh by (simp add: and_one_eq)
  moreover have "or (take_bit 255 ?n) (push_bit 255 (drop_bit 255 ?n)) = ?n"
    by (rule bit_eqI) (auto simp: bit_simps, metis le_add_diff_inverse not_less)
  ultimately have "nat (or (Y P) (push_bit 255 (and (X P) 1))) = from_le enc" using sh by simp
  then have "encode P = to_le 32 (from_le enc)" unfolding encode_def Let_def xy by simp
  then show ?thesis using to_le_from_le [of enc] sh by simp
qed

theorem encode_decode_witness:
  "decode (1 # replicate 31 0) = Some NEUTRAL \<and>
   encode NEUTRAL = 1 # replicate 31 0 \<and> X NEUTRAL < field_p \<and> Y NEUTRAL < field_p"
proof -
  have "from_le (replicate k 0) = 0" for k by (induction k) (simp_all add: from_le_def)
  then have "from_le (1 # replicate 31 0) = 1" by (simp add: from_le_def)
  moreover have "recover_x 1 = Some 0" by (simp add: recover_x_def Let_def)
  ultimately have "decode (1 # replicate 31 0) = Some NEUTRAL" by (simp add: decode_def Let_def NEUTRAL_def field_p_def)
  from this encode_decode [OF this] show ?thesis by blast
qed

text \<open>The memo of \<^verbatim>\<open>strict_problem\<close> never changes an answer: a cache that holds only results of \<^verbatim>\<open>key_problem\<close> keeps doing so.\<close>

definition cache_ok :: "key_cache \<Rightarrow> bool" where
  "cache_ok cache \<longleftrightarrow> (\<forall>m pub kp. cache = Some m \<longrightarrow> m pub = Some kp \<longrightarrow> kp = key_problem pub)"

lemma strict_problem_cached:
  assumes "cache_ok cache"
  shows "fst (strict_problem pub sig cache) = fst (strict_problem pub sig None) \<and> cache_ok (snd (strict_problem pub sig cache))"
  using assms by (auto simp: strict_problem_def cache_ok_def split: option.splits)

end
