(* ===== verification/Py_Utf8.thy ===== *)
theory Py_Utf8
  imports Codec
begin

text \<open>
  Strict UTF-8, as \<^verbatim>\<open>str.encode\<close> and \<^verbatim>\<open>bytes.decode\<close> have it: surrogates cannot be encoded, and only the octets an
  encoding produces are decoded (no overlong forms, no surrogates, nothing beyond U+10FFFF).
\<close>

definition utf8_char :: "nat \<Rightarrow> bytes option" where
  "utf8_char c =
     (if c < 128 then Some [of_nat c]
      else if c < 2048 then Some [of_nat (192 + c div 64), of_nat (128 + c mod 64)]
      else if c < 65536 then
        (if 55296 \<le> c \<and> c < 57344 then None
         else Some [of_nat (224 + c div 4096), of_nat (128 + c div 64 mod 64), of_nat (128 + c mod 64)])
      else if c < 1114112 then
        Some [of_nat (240 + c div 262144), of_nat (128 + c div 4096 mod 64), of_nat (128 + c div 64 mod 64), of_nat (128 + c mod 64)]
      else None)"

fun utf8_encode :: "pystr \<Rightarrow> bytes option" where
  "utf8_encode [] = Some []"
| "utf8_encode (c # s) =
     (case (utf8_char c, utf8_encode s) of (Some b, Some r) \<Rightarrow> Some (b @ r) | _ \<Rightarrow> None)"

text \<open>The length a lead octet announces (0: not a lead octet) and the code point of a sequence.\<close>

definition utf8_len :: "byte \<Rightarrow> nat" where
  "utf8_len b =
     (let n = unat b in
      if n < 128 then 1 else if n < 192 then 0 else if n < 224 then 2 else if n < 240 then 3 else if n < 248 then 4 else 0)"

definition utf8_point :: "bytes \<Rightarrow> nat" where
  "utf8_point bs =
     (case map unat bs of
        [a] \<Rightarrow> a
      | [a, b] \<Rightarrow> (a - 192) * 64 + (b - 128)
      | [a, b, c] \<Rightarrow> (a - 224) * 4096 + (b - 128) * 64 + (c - 128)
      | [a, b, c, d] \<Rightarrow> (a - 240) * 262144 + (b - 128) * 4096 + (c - 128) * 64 + (d - 128)
      | _ \<Rightarrow> 0)"

function utf8_decode :: "bytes \<Rightarrow> pystr option" where
  "utf8_decode [] = Some []"
| "utf8_decode (b # r) =
     (let n = utf8_len b; seq = take n (b # r); c = utf8_point seq in
      if n = 0 \<or> utf8_char c \<noteq> Some seq then None
      else map_option (Cons c) (utf8_decode (drop n (b # r))))"
  by pat_completeness auto
termination by (relation "measure length") (auto simp: Let_def)

declare utf8_decode.simps(2) [simp del]

lemma utf8_char_nonempty: "utf8_char c = Some bs \<Longrightarrow> bs \<noteq> []"
  by (auto simp: utf8_char_def split: if_splits)

lemma split64: "(c :: nat) div 262144 * 262144 + c div 4096 mod 64 * 4096 + c div 64 mod 64 * 64 + c mod 64 = c"
  "(c :: nat) div 4096 * 4096 + c div 64 mod 64 * 64 + c mod 64 = c"
proof -
  have d: "c div 4096 = c div 64 div 64" "c div 262144 = c div 64 div 64 div 64" by (simp_all add: div_mult2_eq [symmetric])
  have m: "n div 64 * 64 + n mod 64 = n" for n :: nat by simp
  show two: "c div 4096 * 4096 + c div 64 mod 64 * 64 + c mod 64 = c"
    using m [of c] m [of "c div 64"] unfolding d by linarith
  show "c div 262144 * 262144 + c div 4096 mod 64 * 4096 + c div 64 mod 64 * 64 + c mod 64 = c"
    using two m [of "c div 64 div 64"] unfolding d by linarith
qed

lemma unat_byte_of_nat: "n < 256 \<Longrightarrow> unat (of_nat n :: byte) = n"
  by (simp add: unat_of_nat)

lemma utf8_read:
  "a < 128 \<Longrightarrow> utf8_len (of_nat a) = 1 \<and> utf8_point [of_nat a] = a"
  "a < 32 \<Longrightarrow> b < 64 \<Longrightarrow> utf8_len (of_nat (192 + a)) = 2 \<and> utf8_point [of_nat (192 + a), of_nat (128 + b)] = a * 64 + b"
  "a < 16 \<Longrightarrow> b < 64 \<Longrightarrow> d < 64 \<Longrightarrow> utf8_len (of_nat (224 + a)) = 3 \<and>
     utf8_point [of_nat (224 + a), of_nat (128 + b), of_nat (128 + d)] = a * 4096 + b * 64 + d"
  "a < 8 \<Longrightarrow> b < 64 \<Longrightarrow> d < 64 \<Longrightarrow> e < 64 \<Longrightarrow> utf8_len (of_nat (240 + a)) = 4 \<and>
     utf8_point [of_nat (240 + a), of_nat (128 + b), of_nat (128 + d), of_nat (128 + e)] = a * 262144 + b * 4096 + d * 64 + e"
  by (simp_all add: utf8_len_def utf8_point_def unat_byte_of_nat Let_def del: of_nat_add)

lemma utf8_char_read:
  assumes "utf8_char c = Some bs"
  shows "utf8_len (hd bs) = length bs \<and> utf8_point bs = c"
proof -
  have s: "scalar c" using assms unfolding utf8_char_def scalar_def by (auto split: if_splits)
  consider "c < 128" | "128 \<le> c" "c < 2048" | "2048 \<le> c" "c < 65536" | "65536 \<le> c" "c < 1114112"
    using s unfolding scalar_def by linarith
  then show ?thesis
  proof cases
    case 1
    then have "bs = [of_nat c]" using assms by (simp add: utf8_char_def)
    then show ?thesis using utf8_read(1) [OF 1] by simp
  next
    case 2
    have "bs = [of_nat (192 + c div 64), of_nat (128 + c mod 64)]" using assms 2 by (simp add: utf8_char_def)
    moreover have "c div 64 < 32" "c mod 64 < 64" using 2 by auto
    ultimately show ?thesis using utf8_read(2) [of "c div 64" "c mod 64"] by (simp del: of_nat_add)
  next
    case 3
    have "bs = [of_nat (224 + c div 4096), of_nat (128 + c div 64 mod 64), of_nat (128 + c mod 64)]"
      using assms 3 by (simp add: utf8_char_def split: if_splits)
    moreover have "c div 4096 < 16" "c div 64 mod 64 < 64" "c mod 64 < 64" using 3 by auto
    ultimately show ?thesis using utf8_read(3) [of "c div 4096" "c div 64 mod 64" "c mod 64"] split64(2) [of c] by (simp del: of_nat_add)
  next
    case 4
    have "bs = [of_nat (240 + c div 262144), of_nat (128 + c div 4096 mod 64), of_nat (128 + c div 64 mod 64), of_nat (128 + c mod 64)]"
      using assms 4 by (simp add: utf8_char_def)
    moreover have "c div 262144 < 8" "c div 4096 mod 64 < 64" "c div 64 mod 64 < 64" "c mod 64 < 64" using 4 by auto
    ultimately show ?thesis
      using utf8_read(4) [of "c div 262144" "c div 4096 mod 64" "c div 64 mod 64" "c mod 64"] split64(1) [of c] by (simp del: of_nat_add)
  qed
qed

lemma utf8_decode_char:
  assumes "utf8_char c = Some bs"
  shows "utf8_decode (bs @ r) = map_option (Cons c) (utf8_decode r)"
proof -
  obtain b t where bs: "bs = b # t" using utf8_char_nonempty [OF assms] by (cases bs) auto
  have "utf8_len b = length bs" "utf8_point bs = c" using utf8_char_read [OF assms] bs by auto
  then show ?thesis using assms bs by (simp add: utf8_decode.simps(2) Let_def)
qed

lemma utf8_decode_encode: "utf8_encode s = Some bs \<Longrightarrow> utf8_decode bs = Some s"
  by (induction s arbitrary: bs) (auto simp: utf8_decode_char split: option.splits)

lemma utf8_encode_decode: "utf8_decode bs = Some s \<Longrightarrow> utf8_encode s = Some bs"
proof (induction bs arbitrary: s rule: utf8_decode.induct)
  case (2 b r)
  let ?n = "utf8_len b"
  from 2 show ?case
    by (auto simp: utf8_decode.simps(2) Let_def split: if_splits)
qed simp

text \<open>Strings without surrogates are exactly those that encode.\<close>

lemma utf8_char_scalar: "utf8_char c = None \<longleftrightarrow> \<not> scalar c"
  by (auto simp: utf8_char_def scalar_def)

lemma utf8_encode_None: "utf8_encode s = None \<longleftrightarrow> \<not> list_all scalar s"
proof (induction s)
  case (Cons c s)
  then show ?case using utf8_char_scalar [of c] by (auto split: option.splits)
qed simp

definition utf8 :: "pystr \<Rightarrow> bytes" where
  "utf8 s = (case utf8_encode s of Some bs \<Rightarrow> bs | None \<Rightarrow> [])"

definition encodable :: "pystr \<Rightarrow> bool" where
  "encodable s \<longleftrightarrow> utf8_encode s \<noteq> None"

interpretation utf8: codec utf8 utf8_decode encodable
  by unfold_locales (auto simp: utf8_def encodable_def utf8_decode_encode)

lemma utf8_decode_iff: "utf8_decode bs = Some s \<longleftrightarrow> encodable s \<and> utf8 s = bs"
proof
  assume "utf8_decode bs = Some s"
  then show "encodable s \<and> utf8 s = bs" using utf8_encode_decode by (simp add: utf8_def encodable_def)
qed (auto simp: utf8.dec_enc)

lemma encodable_scalar: "encodable s \<longleftrightarrow> list_all scalar s"
  using utf8_encode_None [of s] by (simp add: encodable_def)

lemma utf8_encode_append: "utf8_encode (s @ t) = (case (utf8_encode s, utf8_encode t) of (Some a, Some b) \<Rightarrow> Some (a @ b) | _ \<Rightarrow> None)"
  by (induction s) (auto split: option.splits)

lemma encodable_append [simp]: "encodable (s @ t) \<longleftrightarrow> encodable s \<and> encodable t"
  by (auto simp: encodable_def utf8_encode_append split: option.splits)

lemma encodable_Cons: "encodable (c # t) \<longleftrightarrow> encodable [c] \<and> encodable t"
  using encodable_append [of "[c]" t] by simp

lemma encodable_Nil [simp]: "encodable []"
  by (simp add: encodable_def)

lemma utf8_append: "encodable s \<Longrightarrow> encodable t \<Longrightarrow> utf8 (s @ t) = utf8 s @ utf8 t"
  by (auto simp: encodable_def utf8_def utf8_encode_append split: option.splits)

lemma utf8_ascii: "\<forall>c\<in>set s. c < 128 \<Longrightarrow> utf8_encode s = Some (ascii_bytes s)"
  by (induction s) (auto simp: utf8_char_def ascii_bytes_def)

lemma utf8_ascii_eq: "\<forall>c\<in>set s. c < 128 \<Longrightarrow> encodable s \<and> utf8 s = ascii_bytes s"
  using utf8_ascii by (auto simp: encodable_def utf8_def)

end
