(* ===== verification/Ledger.thy ===== *)
theory Ledger
  imports Ed25519_Order Py_Utf8 "HOL-Library.AList"
begin

text \<open>
  The chain part of \<^verbatim>\<open>src/verifier.py\<close>: canonical payload, hash of an entry, detection of the algorithm, and the
  checks \<^verbatim>\<open>verify_ledger\<close> makes on the lines of a ledger before it looks at a signed tip (closed schema,
  recomputed hashes, links, indices, reported time order).
\<close>

section \<open>Cryptographic functions\<close>

text \<open>
  The functions of \<^verbatim>\<open>hashlib\<close> and of the \<^verbatim>\<open>cryptography\<close> package, and the Ed25519 order rules (\<^verbatim>\<open>strict_problem\<close>
  of \<open>Ed25519_Order\<close>, without its cache). \<open>mldsa65_verify\<close> is \<open>None\<close> where the package has no ML-DSA.
\<close>

record crypto =
  sha256 :: hashf
  sha3_256 :: hashf
  ed_rules :: "bytes \<Rightarrow> bytes \<Rightarrow> ed_problem option"
  ed_verify :: "bytes \<Rightarrow> bytes \<Rightarrow> bytes \<Rightarrow> bool"
  mldsa65_verify :: "(bytes \<Rightarrow> bytes \<Rightarrow> bytes \<Rightarrow> bool) option"

datatype algo = Sha256 | Sha3_256

text \<open>A small executable instance, for evaluating statements at concrete data.\<close>

definition example_sign :: "bytes \<Rightarrow> bytes \<Rightarrow> bytes" where
  "example_sign pk m = example_hash (pk @ m) @ example_hash (m @ pk)"

definition example_crypto :: crypto where
  "example_crypto = \<lparr>sha256 = example_hash, sha3_256 = (\<lambda>m. example_hash (0 # m)), ed_rules = (\<lambda>_ _. None),
     ed_verify = (\<lambda>pk sig m. sig = example_sign pk m), mldsa65_verify = None\<rparr>"

definition hash_fun :: "crypto \<Rightarrow> algo \<Rightarrow> hashf" where
  "hash_fun C a = (case a of Sha256 \<Rightarrow> sha256 C | Sha3_256 \<Rightarrow> sha3_256 C)"

text \<open>\<^verbatim>\<open>hash_with\<close>: the hexadecimal digest. A name outside \<^verbatim>\<open>SUPPORTED_ALGOS\<close>, which raises there, is not a value of \<open>algo\<close>.\<close>

definition hash_with :: "crypto \<Rightarrow> algo \<Rightarrow> bytes \<Rightarrow> pystr" where
  "hash_with C a payload = hex_of (hash_fun C a payload)"

section \<open>Entries\<close>

type_synonym entry = "(pystr \<times> json) list"

text \<open>\<^verbatim>\<open>e.get(k)\<close>: a missing key reads as \<^verbatim>\<open>None\<close>, like an explicit null.\<close>

definition get :: "entry \<Rightarrow> string \<Rightarrow> json" where
  "get e k = (case map_of e (lit k) of Some v \<Rightarrow> v | None \<Rightarrow> JNull)"

definition get_or :: "entry \<Rightarrow> string \<Rightarrow> json \<Rightarrow> json" where
  "get_or e k d = (case map_of e (lit k) of Some v \<Rightarrow> v | None \<Rightarrow> d)"

definition has_key :: "entry \<Rightarrow> string \<Rightarrow> bool" where
  "has_key e k = (map_of e (lit k) \<noteq> None)"

text \<open>\<^verbatim>\<open>e[k] = v\<close> keeps the place of an existing key and appends a new one; \<^verbatim>\<open>e.pop(k, None)\<close> removes it.\<close>

definition put :: "entry \<Rightarrow> string \<Rightarrow> json \<Rightarrow> entry" where
  "put e k v = AList.update (lit k) v e"

definition pop :: "entry \<Rightarrow> string \<Rightarrow> entry" where
  "pop e k = filter (\<lambda>(k', _). k' \<noteq> lit k) e"

lemma lit_inj [simp]: "lit a = lit b \<longleftrightarrow> a = b"
  by (simp add: lit_def inj_map_eq_map inj_def)

lemma get_put [simp]: "get (put e k v) j = (if j = k then v else get e j)"
  by (simp add: get_def put_def update_conv')

lemma map_of_pop: "map_of (pop e k) j = (if j = lit k then None else map_of e j)"
  by (induction e) (auto simp: pop_def)

lemma get_pop [simp]: "get (pop e k) j = (if j = k then JNull else get e j)"
  by (simp add: get_def map_of_pop)

lemma keys_put: "set (map fst (put e k v)) = insert (lit k) (set (map fst e))"
  using dom_update [of "lit k" v e] by (simp add: put_def)

lemma keys_pop: "set (map fst (pop e k)) \<subseteq> set (map fst e)"
  by (auto simp: pop_def)

lemma distinct_put: "distinct (map fst e) \<Longrightarrow> distinct (map fst (put e k v))"
  by (simp add: put_def distinct_update)

lemma distinct_pop: "distinct (map fst e) \<Longrightarrow> distinct (map fst (pop e k))"
  by (induction e) (auto simp: pop_def)

text \<open>Python's \<^verbatim>\<open>==\<close> on decoded JSON: booleans are the integers 0 and 1, dictionaries ignore order.\<close>

fun as_int :: "json \<Rightarrow> int option" where
  "as_int (JInt n) = Some n"
| "as_int (JBool b) = Some (if b then 1 else 0)"
| "as_int _ = None"

fun py_eq :: "json \<Rightarrow> json \<Rightarrow> bool" where
  "py_eq JNull w = (w = JNull)"
| "py_eq (JBool b) w = (as_int w = Some (if b then 1 else 0))"
| "py_eq (JInt n) w = (as_int w = Some n)"
| "py_eq (JStr s) w = (w = JStr s)"
| "py_eq (JArr vs) w =
     (case w of JArr ws \<Rightarrow> list_all2 py_eq vs ws | _ \<Rightarrow> False)"
| "py_eq (JObj kvs) w =
     (case w of
        JObj kws \<Rightarrow> length kvs = length kws \<and>
          list_all (\<lambda>(k, v). case map_of kws k of Some u \<Rightarrow> py_eq v u | None \<Rightarrow> False) kvs
      | _ \<Rightarrow> False)"

definition GENESIS_PREV :: pystr where
  "GENESIS_PREV = replicate 64 48"

definition ENTRY_KEYS :: "pystr list" where
  "ENTRY_KEYS = map lit [''idx'', ''ts'', ''data'', ''prev_hash'', ''self_hash'', ''signature'', ''signer'', ''tsa_token'',
     ''signature_pq'', ''signer_pq'']"

definition ATTEST :: "pystr list" where
  "ATTEST = map lit [''self_hash'', ''signature'', ''signer'', ''signature_pq'', ''signer_pq'', ''tsa_token'']"

definition content :: "entry \<Rightarrow> entry" where
  "content e = filter (\<lambda>(k, v). k \<notin> set ATTEST) e"

lemma filter_update: "k \<notin> K \<Longrightarrow> filter (\<lambda>(j, _). j \<in> K) (AList.update k v e) = filter (\<lambda>(j, _). j \<in> K) e"
  by (induction e) auto

lemma content_put: "lit k \<in> set ATTEST \<Longrightarrow> content (put e k v) = content e"
  using filter_update [of "lit k" "- set ATTEST" v e] by (simp add: content_def put_def)

lemma content_pop: "lit k \<in> set ATTEST \<Longrightarrow> content (pop e k) = content e"
  unfolding content_def pop_def by (induction e) auto

definition canonical_payload :: "entry \<Rightarrow> bytes" where
  "canonical_payload e = canonical_bytes (JObj (content e))"

definition detect_algo :: "crypto \<Rightarrow> entry list \<Rightarrow> algo option" where
  "detect_algo C entries =
     (case entries of
        [] \<Rightarrow> None
      | e0 # _ \<Rightarrow>
          if \<not> has_key e0 ''self_hash'' then None
          else let payload = canonical_payload e0 in
            find (\<lambda>a. py_eq (JStr (hash_with C a payload)) (get e0 ''self_hash'')) [Sha256, Sha3_256])"

section \<open>Reading the lines\<close>

text \<open>Lines end at LF only and keep it; a line of blanks (space, tab, CR) is skipped.\<close>

fun split_lines :: "pystr \<Rightarrow> pystr list" where
  "split_lines [] = []"
| "split_lines (c # s) =
     (if c = 10 then [10] # split_lines s
      else case split_lines s of [] \<Rightarrow> [[c]] | l # ls \<Rightarrow> (c # l) # ls)"

definition blank :: "pystr \<Rightarrow> bool" where
  "blank l = list_all (\<lambda>c. c = 32 \<or> c = 9 \<or> c = 13 \<or> c = 10) l"

definition raw_lines :: "pystr \<Rightarrow> pystr list" where
  "raw_lines txt = filter (\<lambda>l. \<not> blank l) (split_lines txt)"

datatype line_error = Not_A_Json_Object | Json_Error json_error

fun parse_lines :: "nat \<Rightarrow> pystr list \<Rightarrow> entry list \<times> (nat \<times> line_error) list" where
  "parse_lines i [] = ([], [])"
| "parse_lines i (l # ls) =
     (let (es, errs) = parse_lines (Suc i) ls in
      case loads_strict l of
        Inr (JObj e) \<Rightarrow> (e # es, errs)
      | Inr _ \<Rightarrow> (es, (i, Not_A_Json_Object) # errs)
      | Inl err \<Rightarrow> (es, (i, Json_Error err) # errs))"

section \<open>The checks\<close>

definition enum :: "'a list \<Rightarrow> (nat \<times> 'a) list" where
  "enum xs = zip [0..<length xs] xs"

definition schema_failures :: "entry list \<Rightarrow> (json \<times> pystr list) list" where
  "schema_failures entries =
     concat (map (\<lambda>(i, e).
       let unknown = sort (filter (\<lambda>k. k \<notin> set ENTRY_KEYS) (map fst e)) in
       if unknown = [] then [] else [(get_or e ''idx'' (JInt (int i)), unknown)]) (enum entries))"

datatype hash_fault = Missing_Self_Hash | Hash_Mismatch json pystr

definition entry_hash_fault :: "crypto \<Rightarrow> algo \<Rightarrow> entry \<Rightarrow> hash_fault option" where
  "entry_hash_fault C a e =
     (let expected = get e ''self_hash'' in
      if expected = JNull then Some Missing_Self_Hash
      else let computed = hash_with C a (canonical_payload e) in
        if py_eq (JStr computed) expected then None else Some (Hash_Mismatch expected computed))"

definition hash_failures :: "crypto \<Rightarrow> algo \<Rightarrow> entry list \<Rightarrow> (json \<times> hash_fault) list" where
  "hash_failures C a entries =
     concat (map (\<lambda>(i, e). case entry_hash_fault C a e of
        None \<Rightarrow> [] | Some f \<Rightarrow> [(get_or e ''idx'' (JInt (int i)), f)]) (enum entries))"

definition expected_prev :: "entry list \<Rightarrow> nat \<Rightarrow> json" where
  "expected_prev entries i = (if i > 0 then get (entries ! (i - 1)) ''self_hash'' else JStr GENESIS_PREV)"

definition link_failures :: "entry list \<Rightarrow> (json \<times> json \<times> json) list" where
  "link_failures entries =
     concat (map (\<lambda>(i, e).
       if py_eq (get e ''prev_hash'') (expected_prev entries i) then []
       else [(get_or e ''idx'' (JInt (int i)), expected_prev entries i, get e ''prev_hash'')]) (enum entries))"

definition idx_wrong :: "entry \<Rightarrow> nat \<Rightarrow> bool" where
  "idx_wrong e i = (let idx = get e ''idx'' in (case idx of JBool _ \<Rightarrow> True | _ \<Rightarrow> False) \<or> \<not> py_eq idx (JInt (int i)))"

definition idx_failures :: "entry list \<Rightarrow> (nat \<times> json option) list" where
  "idx_failures entries =
     concat (map (\<lambda>(i, e). if idx_wrong e i then [(i, map_of e (lit ''idx''))] else []) (enum entries))"

definition ts_backwards :: "entry list \<Rightarrow> (json \<times> pystr \<times> pystr) list" where
  "ts_backwards entries =
     concat (map (\<lambda>i.
       case (get (entries ! (i - 1)) ''ts'', get (entries ! i) ''ts'') of
         (JStr a, JStr b) \<Rightarrow> if b < a then [(get_or (entries ! i) ''idx'' (JInt (int i)), a, b)] else []
       | _ \<Rightarrow> []) [1..<length entries])"

text \<open>Everything the receipt reports on the chain, before the tip is looked at.\<close>

record chain_report =
  entries :: "entry list"
  line_errors :: "(nat \<times> line_error) list"
  algorithm_used :: algo
  rep_schema :: "(json \<times> pystr list) list"
  rep_hash :: "(json \<times> hash_fault) list"
  rep_link :: "(json \<times> json \<times> json) list"
  rep_idx :: "(nat \<times> json option) list"
  rep_ts :: "(json \<times> pystr \<times> pystr) list"

definition chain_report_of :: "crypto \<Rightarrow> algo option \<Rightarrow> pystr \<Rightarrow> chain_report" where
  "chain_report_of C algo txt =
     (let (es, errs) = parse_lines 0 (raw_lines txt);
          a = (case algo of Some a \<Rightarrow> a | None \<Rightarrow> (case detect_algo C es of Some a \<Rightarrow> a | None \<Rightarrow> Sha256))
      in \<lparr>entries = es, line_errors = errs, algorithm_used = a, rep_schema = schema_failures es,
          rep_hash = hash_failures C a es, rep_link = link_failures es, rep_idx = idx_failures es,
          rep_ts = ts_backwards es\<rparr>)"

definition chain_ok :: "chain_report \<Rightarrow> bool" where
  "chain_ok r \<longleftrightarrow> rep_hash r = [] \<and> rep_link r = [] \<and> rep_idx r = [] \<and> line_errors r = [] \<and> rep_schema r = [] \<and> entries r \<noteq> []"

section \<open>What a passing chain is\<close>

text \<open>The specification: a non-empty list of entries of the closed schema, hashed and linked from the genesis value.\<close>

definition valid_entry :: "crypto \<Rightarrow> algo \<Rightarrow> entry list \<Rightarrow> nat \<Rightarrow> bool" where
  "valid_entry C a es i \<longleftrightarrow>
     (let e = es ! i in
      set (map fst e) \<subseteq> set ENTRY_KEYS \<and>
      get e ''idx'' = JInt (int i) \<and>
      get e ''self_hash'' = JStr (hash_with C a (canonical_payload e)) \<and>
      get e ''prev_hash'' = expected_prev es i)"

definition valid_chain :: "crypto \<Rightarrow> algo \<Rightarrow> entry list \<Rightarrow> bool" where
  "valid_chain C a es \<longleftrightarrow> es \<noteq> [] \<and> (\<forall>i<length es. valid_entry C a es i)"

lemma as_int_Some: "as_int w = Some n \<longleftrightarrow> w = JInt n \<or> (\<exists>b. w = JBool b \<and> n = (if b then 1 else 0))"
  by (cases w) auto

lemma py_eq_JStr [simp]: "py_eq v (JStr s) \<longleftrightarrow> v = JStr s"
  by (cases v) (auto simp: as_int_Some)

lemma ball_enum: "(\<forall>x\<in>set (enum xs). P x) \<longleftrightarrow> (\<forall>i<length xs. P (i, xs ! i))"
  unfolding enum_def by (auto simp: set_zip) (metis nth_upt add_0)

lemma hash_failures_Nil:
  "hash_failures C a es = [] \<longleftrightarrow> (\<forall>i<length es. get (es ! i) ''self_hash'' = JStr (hash_with C a (canonical_payload (es ! i))))"
proof -
  have "entry_hash_fault C a e = None \<longleftrightarrow> get e ''self_hash'' = JStr (hash_with C a (canonical_payload e))" for e
    by (auto simp: entry_hash_fault_def Let_def)
  then show ?thesis by (simp add: hash_failures_def ball_enum split: option.splits) (metis not_None_eq)
qed

lemma schema_failures_Nil: "schema_failures es = [] \<longleftrightarrow> (\<forall>i<length es. set (map fst (es ! i)) \<subseteq> set ENTRY_KEYS)"
proof -
  have "sort (filter (\<lambda>k. k \<notin> set ENTRY_KEYS) ks) = [] \<longleftrightarrow> set ks \<subseteq> set ENTRY_KEYS" for ks
    by (auto simp: filter_empty_conv simp flip: set_empty)
  then show ?thesis by (simp add: schema_failures_def ball_enum Let_def) blast
qed

lemma idx_failures_Nil: "idx_failures es = [] \<longleftrightarrow> (\<forall>i<length es. get (es ! i) ''idx'' = JInt (int i))"
proof -
  have "idx_wrong e i \<longleftrightarrow> get e ''idx'' \<noteq> JInt (int i)" for e i
    by (cases "get e ''idx''") (auto simp: idx_wrong_def Let_def split: json.splits)
  then show ?thesis by (auto simp: idx_failures_def ball_enum)
qed

lemma link_failures_Nil:
  assumes "\<forall>i<length es. \<exists>s. get (es ! i) ''self_hash'' = JStr s"
  shows "link_failures es = [] \<longleftrightarrow> (\<forall>i<length es. get (es ! i) ''prev_hash'' = expected_prev es i)"
proof -
  have "\<exists>s. expected_prev es i = JStr s" if "i < length es" for i
    using assms that by (auto simp: expected_prev_def)
  then have "py_eq (get (es ! i) ''prev_hash'') (expected_prev es i) \<longleftrightarrow> get (es ! i) ''prev_hash'' = expected_prev es i"
    if "i < length es" for i
    using that by fastforce
  then show ?thesis by (auto simp: link_failures_def ball_enum)
qed

lemma checks_valid_chain:
  "hash_failures C a es = [] \<and> link_failures es = [] \<and> idx_failures es = [] \<and> schema_failures es = [] \<and> es \<noteq> [] \<longleftrightarrow> valid_chain C a es"
proof (cases "hash_failures C a es = []")
  case True
  then have str: "\<forall>i<length es. \<exists>s. get (es ! i) ''self_hash'' = JStr s" by (auto simp: hash_failures_Nil)
  from True show ?thesis
    unfolding link_failures_Nil [OF str] hash_failures_Nil schema_failures_Nil idx_failures_Nil valid_chain_def valid_entry_def Let_def
    by blast
next
  case False
  then show ?thesis unfolding hash_failures_Nil valid_chain_def valid_entry_def Let_def by blast
qed

lemma parse_lines_ok:
  "snd (parse_lines i ls) = [] \<longleftrightarrow> (\<forall>l\<in>set ls. \<exists>e. loads_strict l = Inr (JObj e))"
  "snd (parse_lines i ls) = [] \<Longrightarrow> map (\<lambda>l. loads_strict l) ls = map (\<lambda>e. Inr (JObj e)) (fst (parse_lines i ls))"
  by (induction i ls rule: parse_lines.induct) (auto simp: Let_def case_prod_beta split: sum.splits json.splits)

lemma chain_report_ok_iff:
  "chain_ok (chain_report_of C algo txt) \<longleftrightarrow>
     list_all (\<lambda>l. \<exists>e. loads_strict l = Inr (JObj e)) (raw_lines txt) \<and>
     valid_chain C (algorithm_used (chain_report_of C algo txt)) (entries (chain_report_of C algo txt))"
proof -
  define r where "r = chain_report_of C algo txt"
  obtain es errs where p: "parse_lines 0 (raw_lines txt) = (es, errs)" by fastforce
  then have r: "entries r = es" "line_errors r = errs" "rep_schema r = schema_failures es"
      "rep_hash r = hash_failures C (algorithm_used r) es" "rep_link r = link_failures es" "rep_idx r = idx_failures es"
    by (simp_all add: r_def chain_report_of_def Let_def)
  have "errs = [] \<longleftrightarrow> list_all (\<lambda>l. \<exists>e. loads_strict l = Inr (JObj e)) (raw_lines txt)"
    using parse_lines_ok(1) [of 0 "raw_lines txt"] p by (simp add: list_all_iff)
  then show ?thesis
    unfolding r_def [symmetric] chain_ok_def r using checks_valid_chain [of C "algorithm_used r" es] by auto
qed

text \<open>
  C1. The verdict on a chain is its specification: the checks of \<^verbatim>\<open>verify_ledger\<close> all pass on a ledger text exactly
  when every non-blank line is a JSON object of the acceptance profile and the entries form a valid
  chain: closed schema, \<^verbatim>\<open>idx\<close> contiguous from 0, \<^verbatim>\<open>self_hash\<close> recomputed from the canonical payload, \<^verbatim>\<open>prev_hash\<close>
  the previous \<^verbatim>\<open>self_hash\<close> or the genesis value, and at least one entry.
\<close>

theorem chain_ok_iff:
  "chain_ok (chain_report_of C algo txt) \<longleftrightarrow>
     list_all (\<lambda>l. \<exists>e. loads_strict l = Inr (JObj e)) (raw_lines txt) \<and>
     valid_chain C (algorithm_used (chain_report_of C algo txt)) (entries (chain_report_of C algo txt))"
  by (rule chain_report_ok_iff)

section \<open>Hash chains\<close>

text \<open>
  What a hash chain gives, whatever its records: \<open>payload\<close> is what is hashed, \<open>tag\<close> the stored hash, \<open>link\<close> the
  stored hash of the record before. The provider owes that the payload determines the link.
\<close>

fun linked :: "('e \<Rightarrow> 'h) \<Rightarrow> ('e \<Rightarrow> 'h) \<Rightarrow> 'h \<Rightarrow> 'e list \<Rightarrow> bool" where
  "linked tag link h [] = True"
| "linked tag link h (e # es) = (link e = h \<and> linked tag link (tag e) es)"

lemma linked_snoc: "linked tag link h (es @ [e]) \<longleftrightarrow> linked tag link h es \<and> link e = (if es = [] then h else tag (last es))"
  by (induction es arbitrary: h) auto

lemma linked_take: "linked tag link h es \<Longrightarrow> linked tag link h (take k es)"
  by (induction es arbitrary: h k) (auto simp: take_Cons')

lemma linked_nth: "linked tag link h es \<longleftrightarrow> (\<forall>i<length es. link (es ! i) = (if i = 0 then h else tag (es ! (i - 1))))"
proof (induction es arbitrary: h)
  case (Cons e es)
  have "(\<forall>i<length (e # es). P i) \<longleftrightarrow> P 0 \<and> (\<forall>i<length es. P (Suc i))" for P by (auto simp: less_Suc_eq_0_disj)
  moreover have "(if Suc i = 0 then h else tag ((e # es) ! (Suc i - 1))) = (if i = 0 then tag e else tag (es ! (i - 1)))" for i
    by (cases i) auto
  ultimately show ?case using Cons.IH [of "tag e"] by simp
qed simp

locale hash_chain =
  fixes H :: "'p \<Rightarrow> 'h" and payload :: "'e \<Rightarrow> 'p" and tag :: "'e \<Rightarrow> 'h" and link :: "'e \<Rightarrow> 'h" and genesis :: 'h
    and good :: "'e \<Rightarrow> bool"
  assumes link_in_payload: "good e \<Longrightarrow> good f \<Longrightarrow> payload e = payload f \<Longrightarrow> link e = link f"
begin

definition chained :: "'e list \<Rightarrow> bool" where
  "chained es \<longleftrightarrow> (\<forall>e\<in>set es. good e \<and> tag e = H (payload e)) \<and> linked tag link genesis es"

lemma chained_snoc:
  "chained (es @ [e]) \<longleftrightarrow> chained es \<and> good e \<and> tag e = H (payload e) \<and> link e = (if es = [] then genesis else tag (last es))"
  by (auto simp: chained_def linked_snoc)

text \<open>Two chains of one length that end in one tag hold the same payloads, or two payloads collide.\<close>

lemma tamper_evident:
  assumes "chained es" "chained fs" "length es = length fs" "es \<noteq> [] \<Longrightarrow> tag (last es) = tag (last fs)"
  shows "map payload es = map payload fs \<or> collision H (payload ` (set es \<union> set fs))"
  using assms
proof (induction es arbitrary: fs rule: rev_induct)
  case (snoc e es)
  then obtain f gs where fs: "fs = gs @ [f]" "length es = length gs" by (cases fs rule: rev_cases) auto
  have e: "tag e = H (payload e)" "tag f = H (payload f)" "good e" "good f"
    using snoc.prems(1,2) fs by (auto simp: chained_snoc)
  show ?case
  proof (cases "payload e = payload f")
    case False
    then show ?thesis
      using e snoc.prems(4) fs collisionI [of "payload e" "payload ` (set (es @ [e]) \<union> set fs)" "payload f" H] by auto
  next
    case True
    then have "link e = link f" using link_in_payload e by blast
    then have "es \<noteq> [] \<Longrightarrow> tag (last es) = tag (last gs)" using snoc.prems(1,2) fs by (auto simp: chained_snoc)
    then have "map payload es = map payload gs \<or> collision H (payload ` (set es \<union> set gs))"
      using snoc.IH [of gs] snoc.prems(1,2) fs by (auto simp: chained_snoc)
    then show ?thesis
    proof
      assume "collision H (payload ` (set es \<union> set gs))"
      then have "collision H (payload ` (set (es @ [e]) \<union> set fs))" by (rule collision_mono) (use fs in auto)
      then show ?thesis ..
    qed (use True fs in simp)
  qed
qed simp

end

section \<open>Ledgers are hash chains\<close>

definition entry_wf :: "entry \<Rightarrow> bool" where
  "entry_wf e = json_wf (JObj e)"

lemma map_of_sort_key:
  assumes "distinct (map fst xs)"
  shows "map_of (sort_key fst xs) = map_of xs"
proof
  fix k
  show "map_of (sort_key fst xs) k = map_of xs k"
  proof (cases "map_of xs k")
    case None
    then have "map_of (sort_key fst xs) k = None" unfolding map_of_eq_None_iff by simp
    then show ?thesis using None by simp
  next
    case (Some v)
    then have "(k, v) \<in> set (sort_key fst xs)" using map_of_SomeD by fastforce
    then show ?thesis using Some sort_key_wf [OF assms] by simp
  qed
qed

lemma distinct_content: "distinct (map fst e) \<Longrightarrow> distinct (map fst (content e))"
  by (induction e) (auto simp: content_def)

lemma content_wf: "entry_wf e \<Longrightarrow> json_wf (JObj (content e))"
  using distinct_content [of e] by (auto simp: entry_wf_def content_def list_all_iff)

lemma get_content:
  assumes "entry_wf e" "lit k \<notin> set ATTEST"
  shows "map_of (content e) (lit k) = map_of e (lit k)"
  using assms(2) by (induction e) (auto simp: content_def)

lemma map_of_sorted_keys:
  assumes "distinct (map fst kvs)" "sorted_keys (JObj kvs) = JObj kws"
  shows "map_of kws k = map_option sorted_keys (map_of kvs k)"
proof -
  have kws: "kws = sort_key fst (map (\<lambda>(k, v). (k, sorted_keys v)) kvs)" using assms(2) by simp
  have "distinct (map fst (map (\<lambda>(k, v). (k, sorted_keys v)) kvs))" using assms(1) by (simp only: map_fst_sorted)
  then have "map_of kws = map_of (map (\<lambda>(k, v). (k, sorted_keys v)) kvs)" unfolding kws by (rule map_of_sort_key)
  then show ?thesis by (simp add: map_of_map)
qed

text \<open>Equal payloads: equal contents up to the order of keys at every level.\<close>

lemma payload_content:
  "entry_wf e \<Longrightarrow> entry_wf f \<Longrightarrow> canonical_payload e = canonical_payload f \<Longrightarrow>
   sorted_keys (JObj (content e)) = sorted_keys (JObj (content f))"
  unfolding canonical_payload_def by (rule canonical_bytes_inj) (simp_all only: content_wf)

lemma sorted_keys_JStr: "sorted_keys v = JStr s \<longleftrightarrow> v = JStr s"
  by (cases v) auto

lemma payload_get:
  assumes "entry_wf e" "entry_wf f" "canonical_payload e = canonical_payload f" "lit k \<notin> set ATTEST"
  shows "map_option sorted_keys (map_of e (lit k)) = map_option sorted_keys (map_of f (lit k))"
proof -
  have eq: "sorted_keys (JObj (content e)) = sorted_keys (JObj (content f))" using payload_content assms by blast
  then obtain kws where kws: "sorted_keys (JObj (content e)) = JObj kws" "sorted_keys (JObj (content f)) = JObj kws" by simp
  have d: "distinct (map fst (content e))" "distinct (map fst (content f))"
    using content_wf [OF assms(1)] content_wf [OF assms(2)] by auto
  show ?thesis
    using map_of_sorted_keys [OF d(1) kws(1), of "lit k"] map_of_sorted_keys [OF d(2) kws(2), of "lit k"]
      get_content [OF assms(1,4)] get_content [OF assms(2,4)] by simp
qed

lemma prev_not_attest: "lit ''prev_hash'' \<notin> set ATTEST" "lit ''idx'' \<notin> set ATTEST" "lit ''data'' \<notin> set ATTEST" "lit ''ts'' \<notin> set ATTEST"
  by (simp_all add: ATTEST_def)

definition entry_link :: "entry \<Rightarrow> pystr option" where
  "entry_link e = (case get e ''prev_hash'' of JStr s \<Rightarrow> Some s | _ \<Rightarrow> None)"

definition entry_tag :: "entry \<Rightarrow> pystr option" where
  "entry_tag e = (case get e ''self_hash'' of JStr s \<Rightarrow> Some s | _ \<Rightarrow> None)"

lemma entry_link_payload:
  assumes "entry_wf e" "entry_wf f" "canonical_payload e = canonical_payload f"
  shows "entry_link e = entry_link f"
proof -
  have "map_option sorted_keys (map_of e (lit ''prev_hash'')) = map_option sorted_keys (map_of f (lit ''prev_hash''))"
    by (rule payload_get [OF assms prev_not_attest(1)])
  then have "sorted_keys (get e ''prev_hash'') = sorted_keys (get f ''prev_hash'')"
    unfolding get_def by (cases "map_of e (lit ''prev_hash'')"; cases "map_of f (lit ''prev_hash'')") (simp_all del: lit_Cons)
  then have "get e ''prev_hash'' = JStr s \<longleftrightarrow> get f ''prev_hash'' = JStr s" for s
    using sorted_keys_JStr [of "get e ''prev_hash''" s] sorted_keys_JStr [of "get f ''prev_hash''" s] by simp
  moreover have "entry_link g = Some s \<longleftrightarrow> get g ''prev_hash'' = JStr s" for g s
    by (simp add: entry_link_def split: json.splits)
  ultimately have "entry_link e = Some s \<longleftrightarrow> entry_link f = Some s" for s by simp
  then show ?thesis by (metis not_None_eq)
qed

interpretation ledger: hash_chain "\<lambda>p. Some (hash_with C a p)" canonical_payload entry_tag entry_link "Some GENESIS_PREV" entry_wf
  for C a
  by unfold_locales (rule entry_link_payload)

lemma valid_chain_chained:
  assumes "valid_chain C a es" "\<forall>e\<in>set es. entry_wf e"
  shows "ledger.chained C a es"
proof -
  have v: "valid_entry C a es i" if "i < length es" for i using assms(1) that by (simp add: valid_chain_def)
  have "entry_link (es ! i) = (if i = 0 then Some GENESIS_PREV else entry_tag (es ! (i - 1)))" if "i < length es" for i
    using v [OF that] v [of "i - 1"] that by (auto simp: valid_entry_def Let_def expected_prev_def entry_link_def entry_tag_def)
  moreover have "entry_tag e = Some (hash_with C a (canonical_payload e))" if "e \<in> set es" for e
    using v that by (auto simp: in_set_conv_nth valid_entry_def Let_def entry_tag_def)
  ultimately show ?thesis using assms(2) unfolding ledger.chained_def linked_nth by blast
qed

lemma collision_hash_with: "collision (\<lambda>p. Some (hash_with C a p)) S \<Longrightarrow> collision (hash_fun C a) S"
  unfolding collision_def hash_with_def using hex.enc_eq_iff by auto

lemma chain_contents:
  assumes "valid_chain C a es" "valid_chain C a fs" "\<forall>e\<in>set es \<union> set fs. entry_wf e"
    and "length es = length fs" "get (last es) ''self_hash'' = get (last fs) ''self_hash''"
  shows "map (\<lambda>e. sorted_keys (JObj (content e))) es = map (\<lambda>e. sorted_keys (JObj (content e))) fs \<or>
    collision (hash_fun C a) (canonical_payload ` (set es \<union> set fs))"
proof -
  have wf: "\<forall>e\<in>set es. entry_wf e" "\<forall>e\<in>set fs. entry_wf e" using assms(3) by auto
  have "entry_tag (last es) = entry_tag (last fs)" using assms(5) by (simp add: entry_tag_def)
  from ledger.tamper_evident [OF valid_chain_chained [OF assms(1) wf(1)] valid_chain_chained [OF assms(2) wf(2)] assms(4) this]
  have "map canonical_payload es = map canonical_payload fs \<or> collision (hash_fun C a) (canonical_payload ` (set es \<union> set fs))"
    using collision_hash_with by blast
  moreover have "map (\<lambda>e. sorted_keys (JObj (content e))) es = map (\<lambda>e. sorted_keys (JObj (content e))) fs"
    if "map canonical_payload es = map canonical_payload fs"
  proof (rule nth_equalityI)
    fix i assume i: "i < length (map (\<lambda>e. sorted_keys (JObj (content e))) es)"
    then have "canonical_payload (es ! i) = canonical_payload (fs ! i)" using that assms(4) by (metis length_map nth_map)
    then show "map (\<lambda>e. sorted_keys (JObj (content e))) es ! i = map (\<lambda>e. sorted_keys (JObj (content e))) fs ! i"
      using payload_content [of "es ! i" "fs ! i"] wf i assms(4) by simp
  qed (use assms(4) in simp)
  ultimately show ?thesis by blast
qed

text \<open>
  C2. Tamper evidence: two ledgers of the acceptance profile that both pass under one algorithm, with the same
  number of entries and the same last \<^verbatim>\<open>self_hash\<close>, agree entry by entry in everything but the attestation
  fields and the order of keys, or two of their canonical payloads collide.
\<close>

theorem chain_tamper_evident:
  assumes "valid_chain C a es" "valid_chain C a fs" "\<forall>e\<in>set es \<union> set fs. entry_wf e"
    and "length es = length fs" "get (last es) ''self_hash'' = get (last fs) ''self_hash''"
  shows "map (\<lambda>e. sorted_keys (JObj (content e))) es = map (\<lambda>e. sorted_keys (JObj (content e))) fs \<or>
    collision (hash_fun C a) (canonical_payload ` (set es \<union> set fs))"
  by (rule chain_contents [OF assms])

section \<open>Writing entries\<close>

text \<open>
  The step every writer of a ledger makes (\<^verbatim>\<open>cryptovalid_ingest\<close>, \<^verbatim>\<open>cryptovalid_scitt\<close>): build the entry without
  \<^verbatim>\<open>self_hash\<close>, hash its canonical payload, store the digest as the last field.
\<close>

definition unsealed_entry :: "int \<Rightarrow> pystr \<Rightarrow> json \<Rightarrow> pystr \<Rightarrow> entry" where
  "unsealed_entry idx ts data prev =
     [(lit ''idx'', JInt idx), (lit ''ts'', JStr ts), (lit ''data'', data), (lit ''prev_hash'', JStr prev)]"

definition seal :: "crypto \<Rightarrow> algo \<Rightarrow> entry \<Rightarrow> entry" where
  "seal C a e = e @ [(lit ''self_hash'', JStr (hash_with C a (canonical_payload e)))]"

lemma canonical_payload_seal: "canonical_payload (seal C a e) = canonical_payload e"
  by (simp add: canonical_payload_def seal_def content_def ATTEST_def)

lemma get_seal:
  "get (seal C a (unsealed_entry idx ts data prev)) ''idx'' = JInt idx"
  "get (seal C a (unsealed_entry idx ts data prev)) ''prev_hash'' = JStr prev"
  "get (seal C a (unsealed_entry idx ts data prev)) ''self_hash'' = JStr (hash_with C a (canonical_payload (unsealed_entry idx ts data prev)))"
  by (simp_all add: get_def seal_def unsealed_entry_def)

lemma seal_keys: "set (map fst (seal C a (unsealed_entry idx ts data prev))) \<subseteq> set ENTRY_KEYS"
  by (simp add: seal_def unsealed_entry_def ENTRY_KEYS_def)

lemma hash_with_scalar: "list_all scalar (hash_with C a p)"
  using hex_of_fullmatch [OF refl, of "hash_fun C a p"]
  by (auto simp: hash_with_def hex_fullmatch_def list_all_iff lower_hex_def scalar_def)

lemma seal_wf:
  assumes "\<bar>idx\<bar> \<le> SAFE_INT" "list_all scalar ts" "json_wf data" "list_all scalar prev"
  shows "entry_wf (seal C a (unsealed_entry idx ts data prev))"
  using assms hash_with_scalar by (simp add: entry_wf_def seal_def unsealed_entry_def scalar_def)

definition head_hash :: "entry list \<Rightarrow> pystr" where
  "head_hash es = (if es = [] then GENESIS_PREV else case get (last es) ''self_hash'' of JStr s \<Rightarrow> s | _ \<Rightarrow> [])"

lemma valid_chain_snoc:
  assumes "es = [] \<or> valid_chain C a es"
  shows "valid_chain C a (es @ [seal C a (unsealed_entry (int (length es)) ts data (head_hash es))])"
proof -
  let ?e = "seal C a (unsealed_entry (int (length es)) ts data (head_hash es))"
  have old: "valid_entry C a (es @ [?e]) i" if "i < length es" for i
    using assms that by (auto simp: valid_chain_def valid_entry_def Let_def expected_prev_def nth_append)
  have last: "get (last es) ''self_hash'' = JStr (head_hash es)" if "es \<noteq> []"
    using assms that by (auto simp: valid_chain_def valid_entry_def Let_def head_hash_def last_conv_nth)
  have "expected_prev (es @ [?e]) (length es) = JStr (head_hash es)"
    using last by (auto simp: expected_prev_def nth_append last_conv_nth head_hash_def)
  then have "valid_entry C a (es @ [?e]) (length es)"
    using seal_keys [of C a "int (length es)" ts data "head_hash es"]
    by (simp add: valid_entry_def Let_def get_seal canonical_payload_seal del: set_map)
  with old show ?thesis by (auto simp: valid_chain_def less_Suc_eq)
qed

section \<open>Ledger files\<close>

text \<open>A ledger as the writers leave it: one compact JSON object per line.\<close>

definition entry_line :: "entry \<Rightarrow> pystr" where
  "entry_line e = dumps (JObj e) @ [10]"

definition ledger_text :: "entry list \<Rightarrow> pystr" where
  "ledger_text es = concat (map entry_line es)"

lemma split_lines_append: "10 \<notin> set l \<Longrightarrow> split_lines (l @ 10 # s) = (l @ [10]) # split_lines s"
  by (induction l) auto

lemma dumps_no_newline: "10 \<notin> set (dumps v)"
  using dumps_printable [of 10 v] by auto

lemma split_ledger_text: "split_lines (ledger_text es) = map entry_line es"
proof (induction es)
  case (Cons e es)
  have "ledger_text (e # es) = dumps (JObj e) @ 10 # ledger_text es" by (simp add: ledger_text_def entry_line_def)
  then show ?case using Cons split_lines_append [OF dumps_no_newline, of "JObj e"] by (simp add: entry_line_def del: dumps_sep.simps)
qed (simp add: ledger_text_def)

lemma entry_line_not_blank: "\<not> blank (entry_line e)"
  by (simp add: blank_def entry_line_def)

definition entry_fits :: "entry \<Rightarrow> bool" where
  "entry_fits e \<longleftrightarrow> entry_wf e \<and> json_depth (JObj e) \<le> MAX_JSON_DEPTH"

lemma parse_ledger_text: "\<forall>e\<in>set es. entry_fits e \<Longrightarrow> parse_lines i (raw_lines (ledger_text es)) = (es, [])"
proof -
  have lines: "raw_lines (ledger_text es) = map entry_line es"
    by (auto simp: raw_lines_def split_ledger_text entry_line_not_blank filter_id_conv)
  have "loads_strict (entry_line e) = Inr (JObj e)" if "entry_fits e" for e
    unfolding entry_line_def by (rule loads_strict_dumps_blanks) (use that in \<open>auto simp: entry_fits_def entry_wf_def skip_ws_def\<close>)
  then have "\<forall>e\<in>set es. entry_fits e \<Longrightarrow> parse_lines i (map entry_line es) = (es, [])" for i
    by (induction es arbitrary: i) auto
  then show "\<forall>e\<in>set es. entry_fits e \<Longrightarrow> ?thesis" unfolding lines .
qed

lemma chain_report_ledger_text:
  assumes "\<forall>e\<in>set es. entry_fits e"
  shows "entries (chain_report_of C (Some a) (ledger_text es)) = es" "algorithm_used (chain_report_of C (Some a) (ledger_text es)) = a"
    "chain_ok (chain_report_of C (Some a) (ledger_text es)) \<longleftrightarrow> valid_chain C a es"
proof -
  have r: "chain_report_of C (Some a) (ledger_text es) = \<lparr>entries = es, line_errors = [], algorithm_used = a, rep_schema = schema_failures es,
      rep_hash = hash_failures C a es, rep_link = link_failures es, rep_idx = idx_failures es, rep_ts = ts_backwards es\<rparr>"
    using parse_ledger_text [OF assms, of 0] by (simp add: chain_report_of_def Let_def)
  show "entries (chain_report_of C (Some a) (ledger_text es)) = es" "algorithm_used (chain_report_of C (Some a) (ledger_text es)) = a"
    "chain_ok (chain_report_of C (Some a) (ledger_text es)) \<longleftrightarrow> valid_chain C a es"
    using checks_valid_chain [of C a es] by (auto simp: r chain_ok_def)
qed

lemma parse_lines_fit:
  "\<forall>l\<in>set ls. list_all (\<lambda>c. c < 1114112) l \<Longrightarrow> \<forall>e\<in>set (fst (parse_lines i ls)). entry_fits e"
proof (induction i ls rule: parse_lines.induct)
  case (2 i l ls)
  have "entry_fits e" if "loads_strict l = Inr (JObj e)" for e
    using loads_strict_in_profile [OF _ that] 2 by (simp add: entry_fits_def entry_wf_def)
  then show ?case using 2 by (auto simp: Let_def case_prod_beta split: sum.splits json.splits)
qed simp

lemma concat_split_lines: "concat (split_lines s) = s"
  by (induction s) (auto split: list.splits if_splits)

lemma report_entries_fit:
  assumes "list_all (\<lambda>c. c < 1114112) s"
  shows "\<forall>e\<in>set (entries (chain_report_of C a s)). entry_fits e"
proof -
  have "\<forall>l\<in>set (raw_lines s). list_all (\<lambda>c. c < 1114112) l"
    using assms set_concat [of "split_lines s"] unfolding concat_split_lines by (auto simp: raw_lines_def list_all_iff)
  from parse_lines_fit [OF this, of 0] show ?thesis by (simp add: chain_report_of_def Let_def case_prod_beta)
qed

section \<open>Further properties of the verdict\<close>

lemma valid_chain_take:
  assumes "valid_chain C a es" "0 < k"
  shows "valid_chain C a (take k es)"
proof -
  have "es \<noteq> []" using assms(1) by (simp add: valid_chain_def)
  moreover have "valid_entry C a (take k es) i" if "i < length (take k es)" for i
    using assms that by (auto simp: valid_chain_def valid_entry_def Let_def expected_prev_def)
  ultimately show ?thesis using assms(2) by (auto simp: valid_chain_def)
qed

text \<open>
  The declared limit of a bare chain: every non-empty prefix of a passing chain passes. The checks cannot
  see a truncated tail; the signed tip is what makes it visible.
\<close>

theorem prefix_passes:
  assumes "valid_chain C a es" "0 < k"
  shows "valid_chain C a (take k es)"
  by (rule valid_chain_take [OF assms])

definition example_ledger :: "entry list" where
  "example_ledger =
     (let e0 = seal example_crypto Sha256 (unsealed_entry 0 (lit ''t0'') JNull GENESIS_PREV)
      in [e0, seal example_crypto Sha256 (unsealed_entry 1 (lit ''t1'') (JInt 5) (head_hash [e0]))])"

lemma example_ledger_valid: "valid_chain example_crypto Sha256 example_ledger"
proof -
  let ?e = "seal example_crypto Sha256 (unsealed_entry 0 (lit ''t0'') JNull GENESIS_PREV)"
  have "valid_chain example_crypto Sha256 [?e]"
    using valid_chain_snoc [of "[]" example_crypto Sha256 "lit ''t0''" JNull] by (simp add: head_hash_def)
  from valid_chain_snoc [OF disjI2 [OF this], of "lit ''t1''" "JInt 5"] show ?thesis
    by (simp add: example_ledger_def Let_def)
qed

lemma GENESIS_scalar: "list_all scalar GENESIS_PREV"
  by (auto simp: GENESIS_PREV_def list_all_iff scalar_def)

lemma example_ledger_wf: "\<forall>e\<in>set example_ledger. entry_wf e"
proof -
  have "list_all scalar (head_hash [seal C a (unsealed_entry i ts d p)])" for C a i ts d p
    using hash_with_scalar by (simp add: head_hash_def get_seal)
  then show ?thesis
    by (auto simp: example_ledger_def Let_def GENESIS_scalar SAFE_INT_def scalar_def intro!: seal_wf)
qed

theorem chain_tamper_evident_witness:
  "valid_chain example_crypto Sha256 example_ledger \<and>
   (map (\<lambda>e. sorted_keys (JObj (content e))) example_ledger = map (\<lambda>e. sorted_keys (JObj (content e))) example_ledger \<or>
    collision (hash_fun example_crypto Sha256) (canonical_payload ` (set example_ledger \<union> set example_ledger)))"
proof -
  have "\<forall>e\<in>set example_ledger \<union> set example_ledger. entry_wf e" using example_ledger_wf by simp
  from chain_tamper_evident [OF example_ledger_valid example_ledger_valid this refl refl] show ?thesis
    using example_ledger_valid by blast
qed

theorem prefix_passes_witness:
  "valid_chain example_crypto Sha256 example_ledger \<and> valid_chain example_crypto Sha256 (take 1 example_ledger)"
  using example_ledger_valid prefix_passes [OF example_ledger_valid, of 1] by simp

end
