(* ===== verification/Tip.thy ===== *)
theory Tip
  imports Ledger
begin

text \<open>
  The signed chain tip (\<^verbatim>\<open>src/cryptovalid_tip.py\<close>): the signed payload, the timestamp profile and its value, the
  signature check against the trusted log key with the optional ML-DSA-65 companion, and the comparison
  of a verified file with the tip.
\<close>

section \<open>Timestamps\<close>

datatype instant_error = Outside_Profile | Field_Out_Of_Range | No_Such_Day | Offset_Out_Of_Range

definition all_digits :: "pystr \<Rightarrow> bool" where
  "all_digits s = list_all is_digit s"

text \<open>\<^verbatim>\<open>_TS_FIELDS.fullmatch\<close>: the six numbers, the fraction digits (empty when absent) and the offset text.\<close>

record ts_fields =
  ts_y :: int
  ts_mo :: int
  ts_d :: int
  ts_h :: int
  ts_mi :: int
  ts_sec :: int
  ts_frac :: pystr
  ts_off :: pystr

definition offset_match :: "pystr \<Rightarrow> bool" where
  "offset_match off \<longleftrightarrow>
     off = [90] \<or>
     (length off = 6 \<and> (off ! 0 = 43 \<or> off ! 0 = 45) \<and> is_digit (off ! 1) \<and> is_digit (off ! 2) \<and> off ! 3 = 58 \<and>
      is_digit (off ! 4) \<and> is_digit (off ! 5))"

definition num :: "pystr \<Rightarrow> nat \<Rightarrow> nat \<Rightarrow> int" where
  "num s i k = int (digits_val (take k (drop i s)))"

definition ts_match :: "pystr \<Rightarrow> ts_fields option" where
  "ts_match s =
     (if length s \<ge> 19 \<and> all_digits (take 4 s) \<and> s ! 4 = 45 \<and> all_digits (take 2 (drop 5 s)) \<and> s ! 7 = 45 \<and>
         all_digits (take 2 (drop 8 s)) \<and> s ! 10 = 84 \<and> all_digits (take 2 (drop 11 s)) \<and> s ! 13 = 58 \<and>
         all_digits (take 2 (drop 14 s)) \<and> s ! 16 = 58 \<and> all_digits (take 2 (drop 17 s))
      then
        let r = drop 19 s;
            frac = (if r \<noteq> [] \<and> hd r = 46 then takeWhile is_digit (tl r) else []);
            off = (if r \<noteq> [] \<and> hd r = 46 then dropWhile is_digit (tl r) else r) in
        if (r \<noteq> [] \<and> hd r = 46 \<longrightarrow> 1 \<le> length frac \<and> length frac \<le> 9) \<and> offset_match off
        then Some \<lparr>ts_y = num s 0 4, ts_mo = num s 5 2, ts_d = num s 8 2, ts_h = num s 11 2, ts_mi = num s 14 2,
                   ts_sec = num s 17 2, ts_frac = frac, ts_off = off\<rparr>
        else None
      else None)"

definition leap :: "int \<Rightarrow> bool" where
  "leap y \<longleftrightarrow> (y mod 4 = 0 \<and> y mod 100 \<noteq> 0) \<or> y mod 400 = 0"

definition month_days :: "int \<Rightarrow> int list" where
  "month_days y = [31, if leap y then 29 else 28, 31, 30, 31, 30, 31, 31, 30, 31, 30, 31]"

text \<open>\<^verbatim>\<open>calendar.timegm\<close>, from the proleptic Gregorian day number of \<^verbatim>\<open>datetime.date\<close>.\<close>

definition days_before_year :: "int \<Rightarrow> int" where
  "days_before_year y = (let y = y - 1 in y * 365 + y div 4 - y div 100 + y div 400)"

definition day_number :: "int \<Rightarrow> int \<Rightarrow> int \<Rightarrow> int" where
  "day_number y mo d = days_before_year y + sum_list (take (nat (mo - 1)) (month_days y)) + d"

definition timegm :: "int \<Rightarrow> int \<Rightarrow> int \<Rightarrow> int \<Rightarrow> int \<Rightarrow> int \<Rightarrow> int" where
  "timegm y mo d h mi sec = (((day_number y mo 1 - 719163 + d - 1) * 24 + h) * 60 + mi) * 60 + sec"

definition parse_instant :: "pystr \<Rightarrow> instant_error + int \<times> int" where
  "parse_instant ts =
     (case ts_match ts of
        None \<Rightarrow> Inl Outside_Profile
      | Some m \<Rightarrow>
          let y = ts_y m; mo = ts_mo m; d = ts_d m; h = ts_h m; mi = ts_mi m; sec = ts_sec m; off = ts_off m in
          if \<not> (1 \<le> y \<and> y \<le> 9999 \<and> 1 \<le> mo \<and> mo \<le> 12 \<and> 0 \<le> h \<and> h \<le> 23 \<and> 0 \<le> mi \<and> mi \<le> 59 \<and> 0 \<le> sec \<and> sec \<le> 59)
          then Inl Field_Out_Of_Range
          else if \<not> (1 \<le> d \<and> d \<le> month_days y ! nat (mo - 1)) then Inl No_Such_Day
          else
            let oh = num off 1 2; om = num off 4 2 in
            if off \<noteq> [90] \<and> (oh > 23 \<or> om > 59) then Inl Offset_Out_Of_Range
            else
              let off_sec = (if off = [90] then 0 else (oh * 3600 + om * 60) * (if off ! 0 = 45 then - 1 else 1));
                  frac = (if ts_frac m = [] then [48] else ts_frac m);
                  nanos = int (digits_val (take 9 (frac @ replicate (9 - length frac) 48)))
              in Inr (timegm y mo d h mi sec - off_sec, nanos))"

section \<open>The signed payload\<close>

definition KIND :: pystr where
  "KIND = lit ''cryptovalid_tip/1''"

definition tip_payload_json :: "int \<Rightarrow> pystr \<Rightarrow> pystr \<Rightarrow> pystr \<Rightarrow> json" where
  "tip_payload_json n ledger_id tip_sha256 ts =
     JObj [(lit ''entries'', JInt n), (lit ''kind'', JStr KIND), (lit ''ledger_id'', JStr ledger_id),
       (lit ''tip_sha256'', JStr tip_sha256), (lit ''ts'', JStr ts)]"

definition tip_payload :: "int \<Rightarrow> pystr \<Rightarrow> pystr \<Rightarrow> pystr \<Rightarrow> bytes" where
  "tip_payload n ledger_id tip_sha256 ts = canonical_bytes (tip_payload_json n ledger_id tip_sha256 ts)"

section \<open>The signature check\<close>

datatype tip_fault =
    Not_A_Tip
  | Missing_Field string
  | Bad_Entries
  | Fields_Not_Strings
  | Bad_Hash_Format
  | Bad_Signature_Format
  | Bad_Pq_Signature_Format
  | Bad_Pq_Key_Format
  | Bad_Timestamp instant_error
  | Tip_Untrusted
  | Bad_Trusted_Key
  | Other_Log_Key
  | Signature_Order ed_problem
  | Signature_Invalid
  | Pq_Missing
  | Other_Pq_Key
  | Bad_Trusted_Pq_Key
  | Pq_Unverifiable
  | Pq_Invalid

definition PQ_PK_LEN :: nat where
  "PQ_PK_LEN = 1952"

fun str_of :: "json \<Rightarrow> pystr option" where
  "str_of (JStr s) = Some s"
| "str_of _ = None"

definition is_str :: "json \<Rightarrow> bool" where
  "is_str v \<longleftrightarrow> str_of v \<noteq> None"

definition text_of :: "json \<Rightarrow> pystr" where
  "text_of v = (case v of JStr s \<Rightarrow> s | _ \<Rightarrow> [])"

definition octets :: "pystr \<Rightarrow> bytes" where
  "octets s = (case fromhex s of Some bs \<Rightarrow> bs | None \<Rightarrow> [])"

text \<open>An optional argument that is absent or empty: \<^verbatim>\<open>if not x\<close>.\<close>

definition given :: "pystr option \<Rightarrow> bool" where
  "given x \<longleftrightarrow> x \<noteq> None \<and> x \<noteq> Some []"

text \<open>\<^verbatim>\<open>tip.get(k) not in (None, "", trusted)\<close>.\<close>

definition names_other_key :: "json \<Rightarrow> pystr \<Rightarrow> bool" where
  "names_other_key v trusted \<longleftrightarrow> v \<noteq> JNull \<and> v \<noteq> JStr [] \<and> v \<noteq> JStr trusted"

definition find_missing :: "entry \<Rightarrow> string option" where
  "find_missing tip = find (\<lambda>k. \<not> has_key tip k) [''entries'', ''ledger_id'', ''tip_sha256'', ''ts'', ''signature_hex'']"

text \<open>The types and formats, in the order of the code; \<open>Inr\<close> the number of entries.\<close>

definition tip_format :: "entry \<Rightarrow> tip_fault + int" where
  "tip_format tip =
     (case find_missing tip of
        Some k \<Rightarrow> Inl (Missing_Field k)
      | None \<Rightarrow>
          (case get tip ''entries'' of
             JInt n \<Rightarrow>
               if n < 0 then Inl Bad_Entries
               else if \<not> list_all (\<lambda>k. is_str (get tip k)) [''ledger_id'', ''tip_sha256'', ''ts'', ''signature_hex'']
               then Inl Fields_Not_Strings
               else if \<not> (hex_fullmatch 64 (text_of (get tip ''ledger_id'')) \<and> hex_fullmatch 64 (text_of (get tip ''tip_sha256'')))
               then Inl Bad_Hash_Format
               else if \<not> hex_fullmatch 128 (text_of (get tip ''signature_hex'')) then Inl Bad_Signature_Format
               else if (has_key tip ''signature_pq_hex'' \<or> has_key tip ''log_pq_pubkey_b64'') \<and>
                 \<not> (is_str (get tip ''signature_pq_hex'') \<and> hex_fullmatch 6618 (text_of (get tip ''signature_pq_hex'')))
               then Inl Bad_Pq_Signature_Format
               else if (has_key tip ''signature_pq_hex'' \<or> has_key tip ''log_pq_pubkey_b64'') \<and>
                 b64_strict (get tip ''log_pq_pubkey_b64'') PQ_PK_LEN = None
               then Inl Bad_Pq_Key_Format
               else (case parse_instant (text_of (get tip ''ts'')) of Inl e \<Rightarrow> Inl (Bad_Timestamp e) | Inr _ \<Rightarrow> Inr n)
           | _ \<Rightarrow> Inl Bad_Entries))"

text \<open>
  \<^verbatim>\<open>verify_tip_signature\<close>: \<open>Inl\<close> the reason with the value of \<^verbatim>\<open>pq_protected\<close> reported beside it, \<open>Inr\<close> the
  \<^verbatim>\<open>pq_protected\<close> of an accepted tip (\<open>None\<close>: present but not checked).
\<close>

definition verify_tip_signature :: "crypto \<Rightarrow> json \<Rightarrow> pystr option \<Rightarrow> pystr option \<Rightarrow> (tip_fault \<times> bool option) + bool option" where
  "verify_tip_signature C tip trusted trusted_pq =
     (case tip of
        JObj t \<Rightarrow>
          if \<not> py_eq (get t ''kind'') (JStr KIND) then Inl (Not_A_Tip, Some False)
          else (case tip_format t of
              Inl f \<Rightarrow> Inl (f, Some False)
            | Inr n \<Rightarrow>
                if \<not> given trusted then Inl (Tip_Untrusted, Some False)
                else
                  let pk = the trusted in
                  if \<not> hex_fullmatch 64 pk then Inl (Bad_Trusted_Key, Some False)
                  else if names_other_key (get t ''log_pubkey_hex'') pk then Inl (Other_Log_Key, Some False)
                  else
                    let payload = tip_payload n (text_of (get t ''ledger_id'')) (text_of (get t ''tip_sha256'')) (text_of (get t ''ts''));
                        sig = octets (text_of (get t ''signature_hex'')) in
                    (case ed_rules C (octets pk) sig of
                       Some w \<Rightarrow> Inl (Signature_Order w, Some False)
                     | None \<Rightarrow>
                         if \<not> ed_verify C (octets pk) sig payload then Inl (Signature_Invalid, Some False)
                         else if given trusted_pq then
                           (let spq = get t ''signature_pq_hex'' in
                            if \<not> is_str spq \<or> text_of spq = [] then Inl (Pq_Missing, Some False)
                            else if names_other_key (get t ''log_pq_pubkey_b64'') (the trusted_pq) then Inl (Other_Pq_Key, Some False)
                            else (case mldsa65_verify C of
                                None \<Rightarrow> Inl (Pq_Unverifiable, None)
                              | Some ver \<Rightarrow>
                                  (case b64_strict (JStr (the trusted_pq)) PQ_PK_LEN of
                                     None \<Rightarrow> Inl (Bad_Trusted_Pq_Key, Some False)
                                   | Some raw \<Rightarrow>
                                       if ver raw (octets (text_of spq)) payload then Inr (Some True) else Inl (Pq_Invalid, Some False))))
                         else if get t ''signature_pq_hex'' \<noteq> JNull \<and> get t ''signature_pq_hex'' \<noteq> JStr [] then Inr None
                         else Inr (Some False)))
      | _ \<Rightarrow> Inl (Not_A_Tip, Some False))"

section \<open>Comparing a file with its tip\<close>

datatype check_fault =
    Untrusted
  | Tip_Invalid tip_fault
  | Ledger_Id_Mismatch
  | Tip_Of_Another_Ledger
  | Bad_Not_Before instant_error
  | Tip_Rolled_Back
  | Tail_Truncated int int
  | Unsealed_Tail int int
  | Tail_Rewritten

record tip_ok =
  tip_entries :: int
  tip_ledger_id :: pystr
  tip_tip_sha256 :: pystr
  tip_ts :: pystr
  tip_pq :: "bool option"

definition earlier :: "int \<times> int \<Rightarrow> int \<times> int \<Rightarrow> bool" where
  "earlier a b \<longleftrightarrow> fst a < fst b \<or> (fst a = fst b \<and> snd a < snd b)"

text \<open>
  \<^verbatim>\<open>check_tip\<close>. The fields are read only after \<^verbatim>\<open>verify_tip_signature\<close> accepted the document, so they have the
  types it checked.
\<close>

definition check_tip ::
  "crypto \<Rightarrow> int \<Rightarrow> pystr \<Rightarrow> json \<Rightarrow> pystr option \<Rightarrow> pystr option \<Rightarrow> pystr option \<Rightarrow> pystr option \<Rightarrow> pystr option \<Rightarrow>
    (check_fault \<times> bool option) + tip_ok" where
  "check_tip C entries_count last_self_hash tip trusted not_before first_self_hash expect_ledger_id trusted_pq =
     (case verify_tip_signature C tip trusted trusted_pq of
        Inl (f, pq) \<Rightarrow> Inl (if f = Tip_Untrusted then Untrusted else Tip_Invalid f, pq)
      | Inr pq \<Rightarrow>
          let t = (case tip of JObj t \<Rightarrow> t | _ \<Rightarrow> []);
              n = (case get t ''entries'' of JInt n \<Rightarrow> n | _ \<Rightarrow> 0);
              ledger_id = text_of (get t ''ledger_id''); ts = text_of (get t ''ts'') in
          if given expect_ledger_id \<and> ledger_id \<noteq> the expect_ledger_id then Inl (Ledger_Id_Mismatch, Some False)
          else if first_self_hash \<noteq> None \<and> entries_count > 0 \<and> ledger_id \<noteq> the first_self_hash
          then Inl (Tip_Of_Another_Ledger, Some False)
          else
            (case (if given not_before then parse_instant (the not_before) else Inr (0, 0)) of
               Inl e \<Rightarrow> Inl (Bad_Not_Before e, Some False)
             | Inr nb \<Rightarrow>
                 if given not_before \<and> (case parse_instant ts of Inr i \<Rightarrow> earlier i nb | Inl _ \<Rightarrow> False)
                 then Inl (Tip_Rolled_Back, Some False)
                 else if entries_count < n then Inl (Tail_Truncated entries_count n, Some False)
                 else if entries_count > n then Inl (Unsealed_Tail entries_count n, Some False)
                 else if last_self_hash \<noteq> text_of (get t ''tip_sha256'') then Inl (Tail_Rewritten, Some False)
                 else Inr \<lparr>tip_entries = n, tip_ledger_id = ledger_id, tip_tip_sha256 = text_of (get t ''tip_sha256''),
                           tip_ts = ts, tip_pq = pq\<rparr>))"

text \<open>\<^verbatim>\<open>load_tip\<close>: the text of the file, stripped of blanks, under the strict profile; \<open>Inl\<close> is a \<^verbatim>\<open>ValueError\<close>.\<close>

definition strip_blanks :: "pystr \<Rightarrow> pystr" where
  "strip_blanks s =
     (let b = (\<lambda>c. c = 32 \<or> c = 9 \<or> c = 13 \<or> c = 10) in rev (dropWhile b (rev (dropWhile b s))))"

definition load_tip :: "pystr \<Rightarrow> json_error option + json" where
  "load_tip txt =
     (case loads_strict (strip_blanks txt) of
        Inl e \<Rightarrow> Inl (Some e)
      | Inr (JObj t) \<Rightarrow> Inr (JObj t)
      | Inr _ \<Rightarrow> Inl None)"

section \<open>Writing a tip\<close>

text \<open>
  \<^verbatim>\<open>chain_tip\<close> over the non-blank lines, each given as the value \<^verbatim>\<open>json.loads\<close> returns for it (\<open>None\<close>: it raised);
  \<open>Inl n\<close> is the \<^verbatim>\<open>ValueError\<close> naming line \<open>n\<close>.
\<close>

fun chain_tip_loop :: "nat \<Rightarrow> pystr \<Rightarrow> pystr \<Rightarrow> json option list \<Rightarrow> nat + nat \<times> pystr \<times> pystr" where
  "chain_tip_loop n frst lst [] = Inr (n, frst, lst)"
| "chain_tip_loop n frst lst (l # ls) =
     (case l of
        Some (JObj e) \<Rightarrow>
          (case map_of e (lit ''self_hash'') of
             Some (JStr h) \<Rightarrow>
               if hex_fullmatch 64 h then chain_tip_loop (Suc n) (if n = 0 then h else frst) h ls else Inl (Suc n)
           | _ \<Rightarrow> Inl (Suc n))
      | _ \<Rightarrow> Inl (Suc n))"

definition chain_tip :: "json option list \<Rightarrow> nat + nat \<times> pystr \<times> pystr" where
  "chain_tip ls = chain_tip_loop 0 GENESIS_PREV GENESIS_PREV ls"

text \<open>
  \<^verbatim>\<open>write_tip\<close> without a post-quantum backend: the document it writes, for the log key \<open>pk\<close> and the function \<open>sign\<close>
  of its private half.
\<close>

definition write_tip :: "(bytes \<Rightarrow> bytes) \<Rightarrow> bytes \<Rightarrow> int \<Rightarrow> pystr \<Rightarrow> pystr \<Rightarrow> pystr \<Rightarrow> json" where
  "write_tip sign pk n ledger_id tip_sha256 ts =
     JObj [(lit ''kind'', JStr KIND), (lit ''entries'', JInt n), (lit ''ledger_id'', JStr ledger_id),
       (lit ''tip_sha256'', JStr tip_sha256), (lit ''ts'', JStr ts), (lit ''log_pubkey_hex'', JStr (hex_of pk)),
       (lit ''signature_hex'', JStr (hex_of (sign (tip_payload n ledger_id tip_sha256 ts))))]"

section \<open>What the signature covers\<close>

lemma text_scalar: "hex_fullmatch n s \<Longrightarrow> list_all scalar s"
  by (auto simp: hex_fullmatch_def list_all_iff lower_hex_def scalar_def)

lemma tip_payload_inj:
  assumes "tip_payload n a h ts = tip_payload n' a' h' ts'"
    and "\<bar>n\<bar> \<le> SAFE_INT" "list_all scalar a" "list_all scalar h" "list_all scalar ts"
    and "\<bar>n'\<bar> \<le> SAFE_INT" "list_all scalar a'" "list_all scalar h'" "list_all scalar ts'"
  shows "n = n' \<and> a = a' \<and> h = h' \<and> ts = ts'"
proof -
  have wf: "json_wf (tip_payload_json n a h ts)" "json_wf (tip_payload_json n' a' h' ts')"
    using assms by (simp_all add: tip_payload_json_def KIND_def scalar_def)
  have s: "sorted_keys (tip_payload_json n a h ts) = tip_payload_json n a h ts" for n a h ts
    by (simp add: tip_payload_json_def)
  show ?thesis using canonical_bytes_inj [OF wf] assms(1) s by (simp add: tip_payload_def tip_payload_json_def)
qed

lemma tip_format_ok:
  assumes "tip_format t = Inr n"
  shows "get t ''entries'' = JInt n \<and> 0 \<le> n \<and> hex_fullmatch 64 (text_of (get t ''ledger_id'')) \<and>
    hex_fullmatch 64 (text_of (get t ''tip_sha256'')) \<and> hex_fullmatch 128 (text_of (get t ''signature_hex'')) \<and>
    is_str (get t ''ts'') \<and> (\<exists>i. parse_instant (text_of (get t ''ts'')) = Inr i)"
  using assms by (auto simp: tip_format_def split: option.splits json.splits if_splits sum.splits)

lemma verify_tip_signature_ok:
  assumes "verify_tip_signature C tip (Some pk) trusted_pq = Inr pq"
  obtains t n where "tip = JObj t" "tip_format t = Inr n" "hex_fullmatch 64 pk"
    "ed_rules C (octets pk) (octets (text_of (get t ''signature_hex''))) = None"
    "ed_verify C (octets pk) (octets (text_of (get t ''signature_hex'')))
       (tip_payload n (text_of (get t ''ledger_id'')) (text_of (get t ''tip_sha256'')) (text_of (get t ''ts'')))"
  using assms by (auto simp: verify_tip_signature_def Let_def split: json.splits if_splits sum.splits option.splits)

lemma check_tip_ok:
  assumes "check_tip C cnt lst tip (Some pk) nb fst_hash expect pq = Inr r"
  obtains t where "tip = JObj t" "tip_format t = Inr cnt" "lst = text_of (get t ''tip_sha256'')"
    "fst_hash = None \<or> cnt \<le> 0 \<or> fst_hash = Some (text_of (get t ''ledger_id''))" "given expect \<longrightarrow> expect = Some (text_of (get t ''ledger_id''))"
    "ed_verify C (octets pk) (octets (text_of (get t ''signature_hex''))) (tip_payload cnt (text_of (get t ''ledger_id'')) lst (text_of (get t ''ts'')))"
proof -
  from assms obtain q where "verify_tip_signature C tip (Some pk) pq = Inr q"
    by (auto simp: check_tip_def split: sum.splits)
  then obtain t n where t: "tip = JObj t" "tip_format t = Inr n"
    "ed_verify C (octets pk) (octets (text_of (get t ''signature_hex'')))
       (tip_payload n (text_of (get t ''ledger_id'')) (text_of (get t ''tip_sha256'')) (text_of (get t ''ts'')))"
    by (rule verify_tip_signature_ok)
  have "get t ''entries'' = JInt n" using tip_format_ok [OF t(2)] by blast
  with assms \<open>verify_tip_signature C tip (Some pk) pq = Inr q\<close> t(1)
  have "cnt = n" "lst = text_of (get t ''tip_sha256'')" "fst_hash = None \<or> cnt \<le> 0 \<or> fst_hash = Some (text_of (get t ''ledger_id''))"
    "given expect \<longrightarrow> expect = Some (text_of (get t ''ledger_id''))"
    by (auto simp: check_tip_def Let_def given_def split: sum.splits if_splits)
  with t show thesis using that by blast
qed

lemma get_wf: "json_wf (JObj t) \<Longrightarrow> json_wf (get t k)"
  by (auto simp: get_def list_all_iff split: option.splits dest!: map_of_SomeD)

lemma text_of_wf: "json_wf v \<Longrightarrow> list_all scalar (text_of v)"
  by (cases v) (auto simp: text_of_def)

section \<open>Completeness and soundness\<close>

text \<open>What is assumed of a pair of keys at a message: its own signature verifies and meets the order rules.\<close>

definition log_key :: "crypto \<Rightarrow> (bytes \<Rightarrow> bytes) \<Rightarrow> bytes \<Rightarrow> bytes \<Rightarrow> bool" where
  "log_key C sign pk m \<longleftrightarrow>
     length pk = 32 \<and> length (sign m) = 64 \<and> ed_rules C pk (sign m) = None \<and> ed_verify C pk (sign m) m"

lemma octets_hex_of [simp]: "octets (hex_of bs) = bs"
  by (simp add: octets_def fromhex_hex_of)

lemma get_write_tip:
  assumes "write_tip sign pk n a h ts = JObj t"
  shows "get t ''kind'' = JStr KIND" "get t ''entries'' = JInt n" "get t ''ledger_id'' = JStr a" "get t ''tip_sha256'' = JStr h"
    "get t ''ts'' = JStr ts" "get t ''log_pubkey_hex'' = JStr (hex_of pk)"
    "get t ''signature_hex'' = JStr (hex_of (sign (tip_payload n a h ts)))" "get t ''signature_pq_hex'' = JNull"
    "find_missing t = None" "\<not> has_key t ''signature_pq_hex''" "\<not> has_key t ''log_pq_pubkey_b64''"
  using assms by (auto simp: write_tip_def get_def has_key_def find_missing_def)

lemma write_tip_accepted:
  assumes "log_key C sign pk (tip_payload n a h ts)" "0 \<le> n" "hex_fullmatch 64 a" "hex_fullmatch 64 h" "parse_instant ts = Inr i"
  shows "check_tip C n h (write_tip sign pk n a h ts) (Some (hex_of pk)) None (Some a) None None =
    Inr \<lparr>tip_entries = n, tip_ledger_id = a, tip_tip_sha256 = h, tip_ts = ts, tip_pq = Some False\<rparr>"
proof -
  obtain t where t: "write_tip sign pk n a h ts = JObj t" by (simp add: write_tip_def)
  note g = get_write_tip [OF t]
  define m where "m = tip_payload n a h ts"
  have key: "length pk = 32" "length (sign m) = 64" "ed_rules C pk (sign m) = None" "ed_verify C pk (sign m) m"
    using assms(1) by (auto simp: log_key_def m_def)
  have hexes: "hex_fullmatch 64 (hex_of pk)" "hex_fullmatch 128 (hex_of (sign m))"
    using hex_of_fullmatch [of 64 pk] hex_of_fullmatch [of 128 "sign m"] key by simp_all
  have "tip_format t = Inr n"
    using assms(2-5) hexes by (simp add: tip_format_def g text_of_def is_str_def m_def)
  moreover have "hex_of pk \<noteq> []" using key(1) length_hex_of [of pk] by (metis length_0_conv mult_eq_0_iff zero_neq_numeral)
  ultimately have "verify_tip_signature C (JObj t) (Some (hex_of pk)) None = Inr (Some False)"
    using hexes key by (simp add: verify_tip_signature_def g text_of_def names_other_key_def given_def Let_def m_def)
  then show ?thesis unfolding t by (simp add: check_tip_def g text_of_def given_def Let_def)
qed

text \<open>
  A tip written for a state is accepted for that state: for any key pair whose signature of the payload verifies, the document
  of \<^verbatim>\<open>write_tip\<close> passes \<^verbatim>\<open>check_tip\<close> with the same count, first and last hash, and the trusted key is the writer's.
\<close>

theorem written_tip_is_accepted:
  assumes "log_key C sign pk (tip_payload n a h ts)" "0 \<le> n" "hex_fullmatch 64 a" "hex_fullmatch 64 h" "parse_instant ts = Inr i"
  shows "check_tip C n h (write_tip sign pk n a h ts) (Some (hex_of pk)) None (Some a) None None =
    Inr \<lparr>tip_entries = n, tip_ledger_id = a, tip_tip_sha256 = h, tip_ts = ts, tip_pq = Some False\<rparr>"
  by (rule write_tip_accepted [OF assms])

definition example_ts :: pystr where
  "example_ts = lit ''2026-02-28T23:59:59+01:00''"

lemma example_fraction: "replicate 8 (48::nat) = [48, 48, 48, 48, 48, 48, 48, 48]"
  by code_simp

lemma example_ts_instant: "parse_instant example_ts = Inr (1772319599, 0)"
  by (simp add: example_ts_def parse_instant_def ts_match_def all_digits_def is_digit_def offset_match_def num_def digits_val_def
      Let_def month_days_def leap_def timegm_def day_number_def days_before_year_def example_fraction)

definition example_pk :: bytes where
  "example_pk = replicate 32 7"

lemma example_log_key: "log_key example_crypto (example_sign example_pk) example_pk m"
  by (simp add: log_key_def example_crypto_def example_sign_def example_pk_def)

theorem written_tip_is_accepted_witness:
  "log_key example_crypto (example_sign example_pk) example_pk (tip_payload 3 GENESIS_PREV GENESIS_PREV example_ts) \<and>
   check_tip example_crypto 3 GENESIS_PREV (write_tip (example_sign example_pk) example_pk 3 GENESIS_PREV GENESIS_PREV example_ts)
     (Some (hex_of example_pk)) None (Some GENESIS_PREV) None None =
     Inr \<lparr>tip_entries = 3, tip_ledger_id = GENESIS_PREV, tip_tip_sha256 = GENESIS_PREV, tip_ts = example_ts, tip_pq = Some False\<rparr>"
proof -
  have "hex_fullmatch 64 GENESIS_PREV" by (auto simp: hex_fullmatch_def GENESIS_PREV_def list_all_iff lower_hex_def)
  then show ?thesis
    using written_tip_is_accepted [OF example_log_key _ _ _ example_ts_instant, of 3 GENESIS_PREV GENESIS_PREV] example_log_key by simp
qed

text \<open>
  The state of a ledger a log key may sign: the count, the first and the last \<^verbatim>\<open>self_hash\<close> of a non-empty prefix.
\<close>

definition signed_state :: "entry list \<Rightarrow> bytes \<Rightarrow> bool" where
  "signed_state fs m \<longleftrightarrow>
     (\<exists>k ts. 0 < k \<and> k \<le> length fs \<and> list_all scalar ts \<and>
       m = tip_payload (int k) (text_of (get (hd fs) ''self_hash'')) (text_of (get (fs ! (k - 1)) ''self_hash'')) ts)"

lemma valid_self_hash:
  "valid_chain C a es \<Longrightarrow> i < length es \<Longrightarrow> get (es ! i) ''self_hash'' = JStr (hash_with C a (canonical_payload (es ! i)))"
  by (auto simp: valid_chain_def valid_entry_def Let_def)

lemma head_hash_last:
  assumes "valid_chain C a es"
  shows "get (last es) ''self_hash'' = JStr (head_hash es)"
  using assms valid_self_hash [OF assms, of "length es - 1"] by (auto simp: head_hash_def last_conv_nth valid_chain_def)


text \<open>A key that signed one state of the example ledger, and nothing else.\<close>

definition example_state :: bytes where
  "example_state = tip_payload 2 (text_of (get (hd example_ledger) ''self_hash'')) (head_hash example_ledger) example_ts"

definition honest_crypto :: crypto where
  "honest_crypto = example_crypto\<lparr>ed_verify := (\<lambda>pk sig m. sig = example_sign pk m \<and> m = example_state)\<rparr>"

lemma honest_valid_chain: "valid_chain honest_crypto Sha256 es = valid_chain example_crypto Sha256 es"
  by (simp add: valid_chain_def valid_entry_def hash_with_def hash_fun_def honest_crypto_def)

lemma example_ledger_length: "length example_ledger = 2" "hd example_ledger = example_ledger ! 0" "last example_ledger = example_ledger ! 1"
  by (simp_all add: example_ledger_def Let_def)

lemma example_ts_scalar: "list_all scalar example_ts"
  by (simp add: example_ts_def scalar_def)

lemma example_head: "hex_fullmatch 64 (head_hash example_ledger)" "hex_fullmatch 64 (text_of (get (hd example_ledger) ''self_hash''))"
proof -
  have "hex_fullmatch 64 (hash_with example_crypto Sha256 p)" for p
    using hex_of_fullmatch [of 64 "example_hash p"] by (simp add: hash_with_def hash_fun_def example_crypto_def)
  moreover have "head_hash example_ledger = hash_with example_crypto Sha256 (canonical_payload (example_ledger ! 1))"
    using valid_self_hash [OF example_ledger_valid, of 1] example_ledger_length head_hash_last [OF example_ledger_valid] by simp
  ultimately show "hex_fullmatch 64 (head_hash example_ledger)" "hex_fullmatch 64 (text_of (get (hd example_ledger) ''self_hash''))"
    using valid_self_hash [OF example_ledger_valid, of 0] example_ledger_length by (simp_all add: text_of_def)
qed


end
