(* ===== verification/Output.thy ===== *)
theory Output
  imports Ledger
begin

text \<open>
  The one writer of every command (\<^verbatim>\<open>src/verifier.py\<close>, first part): an outcome is written whole, to stdout, to a
  promised file or to a ledger, or the command reports it and exits 74. The operating system is the
  adversary: a record says for every system call of an operation whether it succeeds, and how many octets
  each \<^verbatim>\<open>os.write\<close> takes.
\<close>

section \<open>Files and system calls\<close>

datatype node = Regular bytes nat | Directory | Special bytes

type_synonym files = "pystr \<rightharpoonup> node"

text \<open>The result of one write call: it raises, or takes some octets (a non-blocking descriptor may take none and ask to wait).\<close>

datatype wr = Fails | Takes nat | Would_Block nat

record sys =
  open_ok :: bool
  chmod_ok :: bool
  write_results :: "wr list"
  fsync_ok :: bool
  close_ok :: bool
  unlink_ok :: bool
  rename_ok :: bool
  truncate_ok :: bool
  sync_after_truncate_ok :: bool
  wait_ok :: bool

text \<open>Errors: \<^verbatim>\<open>ReceiptNotWritten\<close> is raised for stdout only, \<^verbatim>\<open>OutputNotWritten\<close> for files.\<close>

datatype write_error = ReceiptNotWritten | OutputNotWritten | File_Exists | Input_Error

text \<open>
  \<^verbatim>\<open>_write_fd\<close>: the loop over \<^verbatim>\<open>os.write\<close>. The second component is what the calls took, in order. A call on an
  exhausted script takes everything.
\<close>

fun write_fd :: "wr list \<Rightarrow> bytes \<Rightarrow> bool \<times> bytes" where
  "write_fd ws [] = (True, [])"
| "write_fd [] data = (True, data)"
| "write_fd (w # ws) data =
     (case w of
        Fails \<Rightarrow> (False, [])
      | Would_Block _ \<Rightarrow> (False, [])
      | Takes n \<Rightarrow>
          if n = 0 then (False, [])
          else (let (ok, rest) = write_fd ws (drop n data) in (ok, take n data @ rest)))"

section \<open>Promised files\<close>

text \<open>
  \<^verbatim>\<open>write_tmp\<close>: a new temporary file (its random name is \<open>tmp\<close>, free in the directory), written, synced and closed;
  on failure it is removed and the error raised.
\<close>

definition write_tmp :: "sys \<Rightarrow> files \<Rightarrow> pystr \<Rightarrow> bytes \<Rightarrow> nat \<Rightarrow> nat option \<Rightarrow> (write_error + unit) \<times> files" where
  "write_tmp S F tmp data mode exact_mode =
     (if \<not> open_ok S \<or> F tmp \<noteq> None then (Inl OutputNotWritten, F)
      else
        let m = (case exact_mode of Some e \<Rightarrow> e | None \<Rightarrow> mode) in
        if exact_mode \<noteq> None \<and> \<not> chmod_ok S
        then (Inl OutputNotWritten, if unlink_ok S then F else F(tmp \<mapsto> Regular [] mode))
        else
          let (ok, written) = write_fd (write_results S) data; F' = F(tmp \<mapsto> Regular written m) in
          if ok \<and> fsync_ok S \<and> close_ok S then (Inr (), F')
          else (Inl OutputNotWritten, if unlink_ok S then F else F'))"

definition commit_tmp :: "sys \<Rightarrow> files \<Rightarrow> pystr \<Rightarrow> pystr \<Rightarrow> (write_error + unit) \<times> files" where
  "commit_tmp S F tmp path =
     (if rename_ok S then (Inr (), (F(path := F tmp))(tmp := None))
      else (Inl OutputNotWritten, if unlink_ok S then F(tmp := None) else F))"

text \<open>
  \<^verbatim>\<open>refuse_directory\<close> and \<^verbatim>\<open>_replace_target\<close>: a directory, or a regular file this process may not write
  (\<open>may_write\<close> is the kernel's answer), is refused; otherwise the node there, if any. \<open>path\<close> is the real path:
  links are followed before.
\<close>

definition refuse_directory :: "files \<Rightarrow> pystr \<Rightarrow> write_error + unit" where
  "refuse_directory F path =
     (if (path \<noteq> [] \<and> last path = 47) \<or> F path = Some Directory then Inl OutputNotWritten else Inr ())"

definition replace_target :: "(pystr \<Rightarrow> bool) \<Rightarrow> files \<Rightarrow> pystr \<Rightarrow> write_error + node option" where
  "replace_target may_write F path =
     (case F path of
        Some (Regular bs m) \<Rightarrow> if may_write path then Inr (Some (Regular bs m)) else Inl OutputNotWritten
      | st \<Rightarrow> Inr st)"

definition write_output :: "sys \<Rightarrow> (pystr \<Rightarrow> bool) \<Rightarrow> files \<Rightarrow> pystr \<Rightarrow> pystr \<Rightarrow> bytes \<Rightarrow> nat \<Rightarrow> (write_error + unit) \<times> files" where
  "write_output S may_write F tmp path data mode =
     (case refuse_directory F path of
        Inl e \<Rightarrow> (Inl e, F)
      | Inr _ \<Rightarrow>
          (case replace_target may_write F path of
             Inl e \<Rightarrow> (Inl e, F)
           | Inr st \<Rightarrow>
               (case st of
                  Some (Special sink) \<Rightarrow>
                    if \<not> open_ok S then (Inl OutputNotWritten, F)
                    else
                      let (ok, written) = write_fd (write_results S) data; F' = F(path \<mapsto> Special (sink @ written)) in
                      if ok \<and> close_ok S then (Inr (), F') else (Inl OutputNotWritten, F')
                | _ \<Rightarrow>
                    let keep = (case st of Some (Regular _ m) \<Rightarrow> if mode = 438 then Some m else None | _ \<Rightarrow> None) in
                    (case write_tmp S F tmp data mode keep of
                       (Inl e, F') \<Rightarrow> (Inl e, F')
                     | (Inr _, F') \<Rightarrow> commit_tmp S F' tmp path))))"

text \<open>\<^verbatim>\<open>write_new\<close>: a hard link at \<open>path\<close>, so never over something that is there; the temporary is removed either way.\<close>

definition write_new :: "sys \<Rightarrow> files \<Rightarrow> pystr \<Rightarrow> pystr \<Rightarrow> bytes \<Rightarrow> nat \<Rightarrow> (write_error + unit) \<times> files" where
  "write_new S F tmp path data mode =
     (case write_tmp S F tmp data mode None of
        (Inl e, F') \<Rightarrow> (Inl e, F')
      | (Inr _, F') \<Rightarrow>
          let cleaned = (\<lambda>G. if unlink_ok S then G(tmp := None) else G) in
          if F' path \<noteq> None then (Inl File_Exists, cleaned F')
          else if \<not> rename_ok S then (Inl OutputNotWritten, cleaned F')
          else (Inr (), cleaned (F'(path := F' tmp))))"

text \<open>
  \<^verbatim>\<open>copy_output\<close>: \<open>src_ok\<close> says whether the source can be opened; its chunks follow, \<open>None\<close> a read error, each with
  its own write calls.
\<close>

fun copy_chunks :: "(bytes option \<times> wr list) list \<Rightarrow> bytes \<Rightarrow> write_error option \<times> bytes" where
  "copy_chunks [] acc = (None, acc)"
| "copy_chunks ((chunk, ws) # cs) acc =
     (case chunk of
        None \<Rightarrow> (Some Input_Error, acc)
      | Some bs \<Rightarrow>
          if bs = [] then (None, acc)
          else
            let (ok, written) = write_fd ws bs in
            if ok then copy_chunks cs (acc @ written) else (Some OutputNotWritten, acc @ written))"

definition copy_output ::
  "sys \<Rightarrow> (pystr \<Rightarrow> bool) \<Rightarrow> bool \<Rightarrow> files \<Rightarrow> pystr \<Rightarrow> pystr \<Rightarrow> (bytes option \<times> wr list) list \<Rightarrow> (write_error + unit) \<times> files" where
  "copy_output S may_write src_ok F tmp path chunks =
     (case refuse_directory F path of
        Inl e \<Rightarrow> (Inl e, F)
      | Inr _ \<Rightarrow>
          (case replace_target may_write F path of
             Inl e \<Rightarrow> (Inl e, F)
           | Inr st \<Rightarrow>
               if \<not> src_ok then (Inl Input_Error, F)
               else if \<not> open_ok S \<or> F tmp \<noteq> None then (Inl OutputNotWritten, F)
               else
                 let removed = (\<lambda>G. if unlink_ok S then F else G);
                     m = (case st of Some (Regular _ m) \<Rightarrow> m | _ \<Rightarrow> 438) in
                 if st \<noteq> None \<and> \<not> chmod_ok S then (Inl OutputNotWritten, removed (F(tmp \<mapsto> Regular [] 438)))
                 else
                   let (err, written) = copy_chunks chunks []; F' = F(tmp \<mapsto> Regular written m) in
                   (case err of
                      Some e \<Rightarrow> (Inl (if close_ok S then e else OutputNotWritten), removed F')
                    | None \<Rightarrow>
                        if fsync_ok S \<and> close_ok S then commit_tmp S F' tmp path
                        else (Inl OutputNotWritten, removed F'))))"

section \<open>Ledger lines\<close>

datatype left_behind = As_It_Was | Truncated_Not_Synced | May_End_In_Part

text \<open>\<^verbatim>\<open>append_line\<close>: \<open>Inl\<close> what the error message says of the file; a line without its newline is a \<^verbatim>\<open>ValueError\<close> (\<open>None\<close>).\<close>

definition append_line :: "sys \<Rightarrow> bytes \<Rightarrow> bytes \<Rightarrow> bool \<Rightarrow> ((left_behind + unit) \<times> bytes) option" where
  "append_line S file line sync =
     (if line = [] \<or> last line \<noteq> 10 then None
      else
        let (ok, written) = write_fd (write_results S) line in
        if ok \<and> (sync \<longrightarrow> fsync_ok S) then Some (Inr (), file @ written)
        else if \<not> truncate_ok S then Some (Inl May_End_In_Part, file @ written)
        else Some (Inl (if sync_after_truncate_ok S then As_It_Was else Truncated_Not_Synced), file))"

section \<open>Standard output\<close>

text \<open>
  The loop of \<^verbatim>\<open>_write_stdout\<close> over \<^verbatim>\<open>buf.write\<close>. \<open>Would_Block n\<close> is a full non-blocking stdout that took \<open>n\<close> octets:
  the loop waits (which can fail) and goes on; a call that takes nothing without blocking is a short write.
\<close>

fun stdout_loop :: "bool \<Rightarrow> wr list \<Rightarrow> bytes \<Rightarrow> bool \<times> bytes" where
  "stdout_loop can_wait ws [] = (True, [])"
| "stdout_loop can_wait [] data = (True, data)"
| "stdout_loop can_wait (w # ws) data =
     (case w of
        Fails \<Rightarrow> (False, [])
      | Takes n \<Rightarrow>
          if n = 0 \<or> n > length data then (False, [])
          else (let (ok, rest) = stdout_loop can_wait ws (drop n data) in (ok, take n data @ rest))
      | Would_Block n \<Rightarrow>
          if n > length data then (False, [])
          else if drop n data \<noteq> [] \<and> \<not> can_wait then (False, take n data)
          else (let (ok, rest) = stdout_loop can_wait ws (drop n data) in (ok, take n data @ rest)))"

text \<open>\<^verbatim>\<open>_write_stdout\<close> with the flushes around the loop (\<open>fsync_ok\<close> the last flush); \<open>None\<close> is a closed stdout.\<close>

definition write_stdout :: "sys \<Rightarrow> bytes option \<Rightarrow> bytes \<Rightarrow> (write_error + unit) \<times> bytes option" where
  "write_stdout S out data =
     (case out of
        None \<Rightarrow> (Inl ReceiptNotWritten, None)
      | Some sofar \<Rightarrow>
          if \<not> open_ok S then (Inl ReceiptNotWritten, out)
          else
            let (ok, written) = stdout_loop (wait_ok S) (write_results S) data in
            (if ok \<and> fsync_ok S then Inr () else Inl ReceiptNotWritten, Some (sofar @ written)))"

section \<open>Exit codes\<close>

definition EX_IOERR :: int where
  "EX_IOERR = 74"

text \<open>How a command's main function ends, and the wrapper \<^verbatim>\<open>receipt_cli\<close>.\<close>

datatype main_end = Returns int | Raises write_error | Raises_Other

definition receipt_cli :: "main_end \<Rightarrow> int" where
  "receipt_cli e =
     (case e of
        Returns n \<Rightarrow> n
      | Raises ReceiptNotWritten \<Rightarrow> EX_IOERR
      | Raises OutputNotWritten \<Rightarrow> EX_IOERR
      | Raises _ \<Rightarrow> 1
      | Raises_Other \<Rightarrow> 1)"

section \<open>What is written\<close>

lemma write_fd_prefix: "\<exists>k. snd (write_fd ws data) = take k data \<and> (fst (write_fd ws data) \<longrightarrow> snd (write_fd ws data) = data)"
proof (induction ws data rule: write_fd.induct)
  case (3 w ws x xs)
  show ?case
  proof (cases w)
    case (Takes n)
    show ?thesis
    proof (cases "n = 0")
      case False
      obtain ok rest where r: "write_fd ws (drop n (x # xs)) = (ok, rest)" by fastforce
      then obtain k where "rest = take k (drop n (x # xs))" "ok \<longrightarrow> rest = drop n (x # xs)"
        using 3 Takes False by fastforce
      moreover have "take n (x # xs) @ take k (drop n (x # xs)) = take (n + k) (x # xs)" by (simp add: take_add)
      ultimately show ?thesis using r Takes False by (auto simp del: drop_Cons' take_Cons' intro!: exI [of _ "n + k"])
    qed (use Takes in auto)
  qed auto
next
  case (2 x xs)
  then show ?case by (auto intro!: exI [of _ "Suc (length xs)"])
qed auto

lemma write_fd_ok: "write_fd ws data = (True, w) \<Longrightarrow> w = data"
  using write_fd_prefix [of ws data] by auto

lemma stdout_loop_ok: "stdout_loop c ws data = (True, w) \<Longrightarrow> w = data"
proof (induction c ws data arbitrary: w rule: stdout_loop.induct)
  case (3 c w' ws x xs)
  have "take n (x # xs) @ drop n (x # xs) = x # xs" for n by (rule append_take_drop_id)
  with 3 show ?case by (fastforce split: wr.splits if_splits prod.splits simp del: drop_Cons' take_Cons')
qed auto

text \<open>Every operation on a promised file keeps this contract, whatever the system calls do.\<close>

locale whole_or_nothing =
  fixes op :: "sys \<Rightarrow> files \<Rightarrow> pystr \<Rightarrow> pystr \<Rightarrow> 'd \<Rightarrow> (write_error + unit) \<times> files"
    and whole :: "'d \<Rightarrow> bytes" and applies :: "files \<Rightarrow> pystr \<Rightarrow> bool"
  assumes success: "applies F path \<Longrightarrow> tmp \<noteq> path \<Longrightarrow> op S F tmp path d = (Inr u, F') \<Longrightarrow> \<exists>m. F' path = Some (Regular (whole d) m)"
    and failure: "applies F path \<Longrightarrow> tmp \<noteq> path \<Longrightarrow> op S F tmp path d = (Inl e, F') \<Longrightarrow> F' path = F path"
    and frame: "applies F path \<Longrightarrow> tmp \<noteq> path \<Longrightarrow> q \<noteq> path \<Longrightarrow> q \<noteq> tmp \<Longrightarrow> snd (op S F tmp path d) q = F q"
    and no_trace: "applies F path \<Longrightarrow> tmp \<noteq> path \<Longrightarrow> unlink_ok S \<Longrightarrow> F tmp = None \<Longrightarrow> snd (op S F tmp path d) tmp = None"
begin

lemma never_partial:
  assumes "applies F path" "tmp \<noteq> path"
  shows "snd (op S F tmp path d) path = F path \<or> (\<exists>m. snd (op S F tmp path d) path = Some (Regular (whole d) m))"
  using success [OF assms] failure [OF assms] by (cases "op S F tmp path d"; cases "fst (op S F tmp path d)") auto

lemma reported:
  assumes "applies F path" "tmp \<noteq> path" "fst (op S F tmp path d) = Inr u"
  shows "\<exists>m. snd (op S F tmp path d) path = Some (Regular (whole d) m)"
  using success [OF assms(1,2), of S d] assms(3) by (cases "op S F tmp path d") auto

lemma unchanged:
  assumes "applies F path" "tmp \<noteq> path" "fst (op S F tmp path d) = Inl e" "unlink_ok S" "F tmp = None"
  shows "snd (op S F tmp path d) = F"
proof
  fix q
  show "snd (op S F tmp path d) q = F q"
    using failure [OF assms(1,2), of S d e] frame [OF assms(1,2), of q S d] no_trace [OF assms(1,2), of S d] assms(3-)
    by (cases "op S F tmp path d"; cases "q = path"; cases "q = tmp") auto
qed

end

definition no_special :: "files \<Rightarrow> pystr \<Rightarrow> bool" where
  "no_special F path \<longleftrightarrow> (\<forall>sink. F path \<noteq> Some (Special sink))"

lemma write_tmp_result:
  assumes "write_tmp S F tmp data mode exact = (r, F')"
  shows "case r of
      Inr _ \<Rightarrow> F tmp = None \<and> (\<exists>m. F' = F(tmp \<mapsto> Regular data m))
    | Inl e \<Rightarrow> e = OutputNotWritten \<and> (\<forall>q. q \<noteq> tmp \<longrightarrow> F' q = F q) \<and> (unlink_ok S \<longrightarrow> F' tmp = F tmp)"
proof -
  obtain ok w where "write_fd (write_results S) data = (ok, w)" by fastforce
  then show ?thesis
    using assms write_fd_ok [of "write_results S" data w]
    by (auto simp: write_tmp_def Let_def split: if_splits option.splits)
qed

lemma replace_target_Special: "no_special F path \<Longrightarrow> replace_target mw F path = Inr st \<Longrightarrow> \<forall>sink. st \<noteq> Some (Special sink)"
  by (auto simp: replace_target_def no_special_def split: option.splits node.splits if_splits)

lemma write_output_cases:
  assumes "no_special F path"
  shows "(\<exists>e. write_output S mw F tmp path data mode = (Inl e, F)) \<or>
    (\<exists>exact. write_output S mw F tmp path data mode =
      (case write_tmp S F tmp data mode exact of (Inl e, F') \<Rightarrow> (Inl e, F') | (Inr _, F') \<Rightarrow> commit_tmp S F' tmp path))"
proof (cases "refuse_directory F path")
  case (Inr u)
  show ?thesis
  proof (cases "replace_target mw F path")
    case (Inr st)
    from replace_target_Special [OF assms this] show ?thesis
      using \<open>refuse_directory F path = Inr u\<close> Inr
      by (cases st) (auto simp: write_output_def Let_def split: node.splits)
  qed (use Inr in \<open>simp add: write_output_def\<close>)
qed (simp add: write_output_def)

lemma commit_tmp_result:
  assumes "commit_tmp S F tmp path = (r, F')" "tmp \<noteq> path" "F tmp = Some n"
  shows "case r of Inr _ \<Rightarrow> F' = F(path \<mapsto> n, tmp := None) | Inl e \<Rightarrow> F' = (if unlink_ok S then F(tmp := None) else F)"
  using assms by (auto simp: commit_tmp_def split: if_splits)

lemma write_then_commit:
  assumes "(case write_tmp S F tmp data mode exact of (Inl e, F') \<Rightarrow> (Inl e, F') | (Inr _, F') \<Rightarrow> commit_tmp S F' tmp path) = (r, G)" "tmp \<noteq> path"
  shows "(r = Inr () \<longrightarrow> (\<exists>m. G path = Some (Regular data m))) \<and> ((\<exists>e. r = Inl e) \<longrightarrow> G path = F path) \<and>
    (\<forall>q. q \<noteq> path \<longrightarrow> q \<noteq> tmp \<longrightarrow> G q = F q) \<and> (unlink_ok S \<longrightarrow> F tmp = None \<longrightarrow> G tmp = None)"
proof (cases "write_tmp S F tmp data mode exact")
  case (Pair r' F')
  show ?thesis
  proof (cases r')
    case (Inl e)
    then show ?thesis using write_tmp_result [OF Pair] assms Pair by auto
  next
    case (Inr u)
    then obtain m where "F' = F(tmp \<mapsto> Regular data m)" using write_tmp_result [OF Pair] by auto
    then show ?thesis using assms Pair Inr commit_tmp_result [of S F' tmp path r G "Regular data m"] by (auto split: sum.splits if_splits)
  qed
qed

lemma write_output_result:
  assumes "no_special F path" "tmp \<noteq> path" "write_output S mw F tmp path data mode = (r, G)"
  shows "(r = Inr () \<longrightarrow> (\<exists>m. G path = Some (Regular data m))) \<and> ((\<exists>e. r = Inl e) \<longrightarrow> G path = F path) \<and>
    (\<forall>q. q \<noteq> path \<longrightarrow> q \<noteq> tmp \<longrightarrow> G q = F q) \<and> (unlink_ok S \<longrightarrow> F tmp = None \<longrightarrow> G tmp = None)"
  using write_output_cases [OF assms(1), of S mw tmp data mode]
proof (elim disjE exE)
  fix exact
  assume "write_output S mw F tmp path data mode =
    (case write_tmp S F tmp data mode exact of (Inl e, F') \<Rightarrow> (Inl e, F') | (Inr _, F') \<Rightarrow> commit_tmp S F' tmp path)"
  then show ?thesis using write_then_commit [OF _ assms(2), of S F data mode exact r G] assms(3) by simp
qed (use assms(3) in auto)

interpretation write_output: whole_or_nothing "\<lambda>S F tmp path data. write_output S mw F tmp path data mode" "\<lambda>data. data" no_special
  for mw mode
proof
  fix S F tmp path and data :: bytes and G u e and q :: pystr
  assume a: "no_special F path" "tmp \<noteq> path"
  obtain r H where w: "write_output S mw F tmp path data mode = (r, H)" by fastforce
  note res = write_output_result [OF a w]
  show "\<exists>m. G path = Some (Regular data m)" if "write_output S mw F tmp path data mode = (Inr u, G)" using that w res by auto
  show "G path = F path" if "write_output S mw F tmp path data mode = (Inl e, G)" using that w res by auto
  show "snd (write_output S mw F tmp path data mode) q = F q" if "q \<noteq> path" "q \<noteq> tmp" using that w res by auto
  show "snd (write_output S mw F tmp path data mode) tmp = None" if "unlink_ok S" "F tmp = None" using that w res by auto
qed

text \<open>\<^verbatim>\<open>write_new\<close> applies to a free path only: where something is, it is a \<^verbatim>\<open>FileExistsError\<close>.\<close>

lemma write_new_result:
  assumes "tmp \<noteq> path" "write_new S F tmp path data mode = (r, G)"
  shows "(r = Inr () \<longrightarrow> F path = None \<and> G path = Some (Regular data mode)) \<and> ((\<exists>e. r = Inl e) \<longrightarrow> G path = F path) \<and>
    (\<forall>q. q \<noteq> path \<longrightarrow> q \<noteq> tmp \<longrightarrow> G q = F q) \<and> (unlink_ok S \<longrightarrow> F tmp = None \<longrightarrow> G tmp = None)"
proof (cases "write_tmp S F tmp data mode None")
  case (Pair r' F')
  have m: "r' = Inr () \<Longrightarrow> F tmp = None \<and> F' = F(tmp \<mapsto> Regular data mode)"
    using Pair write_fd_ok [of "write_results S" data] by (auto simp: write_tmp_def Let_def split: if_splits prod.splits)
  show ?thesis
  proof (cases r')
    case (Inl e)
    then show ?thesis using write_tmp_result [OF Pair] assms Pair by (auto simp: write_new_def)
  next
    case (Inr u)
    then show ?thesis using m assms Pair by (auto simp: write_new_def Let_def split: if_splits)
  qed
qed

interpretation write_new: whole_or_nothing "\<lambda>S F tmp path data. write_new S F tmp path data mode" "\<lambda>data. data" "\<lambda>_ _. True"
  for mode
proof
  fix S F and tmp path q :: pystr and data :: bytes and G u e
  assume a: "tmp \<noteq> path"
  obtain r H where w: "write_new S F tmp path data mode = (r, H)" by fastforce
  note res = write_new_result [OF a w]
  show "\<exists>m. G path = Some (Regular data m)" if "write_new S F tmp path data mode = (Inr u, G)" using that w res by auto
  show "G path = F path" if "write_new S F tmp path data mode = (Inl e, G)" using that w res by auto
  show "snd (write_new S F tmp path data mode) q = F q" if "q \<noteq> path" "q \<noteq> tmp" using that w res by auto
  show "snd (write_new S F tmp path data mode) tmp = None" if "unlink_ok S" "F tmp = None" using that w res by auto
qed

text \<open>A copy: the octets of the source are its chunks up to the first empty one.\<close>

fun source_octets :: "(bytes option \<times> wr list) list \<Rightarrow> bytes" where
  "source_octets [] = []"
| "source_octets ((chunk, ws) # cs) = (case chunk of None \<Rightarrow> [] | Some bs \<Rightarrow> if bs = [] then [] else bs @ source_octets cs)"

lemma copy_chunks_ok: "copy_chunks cs acc = (None, w) \<Longrightarrow> w = acc @ source_octets cs"
proof (induction cs acc arbitrary: w rule: copy_chunks.induct)
  case (2 chunk ws cs acc)
  show ?case
  proof (cases chunk)
    case (Some bs)
    obtain ok v where v: "write_fd ws bs = (ok, v)" by fastforce
    then have "ok \<Longrightarrow> v = bs" using write_fd_ok [of ws bs v] by auto
    then show ?thesis using 2 Some v by (auto split: if_splits)
  qed (use 2 in simp)
qed simp

lemma copy_output_result:
  assumes "tmp \<noteq> path" "copy_output S mw src_ok F tmp path chunks = (r, G)"
  shows "(r = Inr () \<longrightarrow> (\<exists>m. G path = Some (Regular (source_octets chunks) m))) \<and> ((\<exists>e. r = Inl e) \<longrightarrow> G path = F path) \<and>
    (\<forall>q. q \<noteq> path \<longrightarrow> q \<noteq> tmp \<longrightarrow> G q = F q) \<and> (unlink_ok S \<longrightarrow> F tmp = None \<longrightarrow> G tmp = None)"
proof -
  obtain err w where c: "copy_chunks chunks [] = (err, w)" by fastforce
  then have w: "err = None \<Longrightarrow> w = source_octets chunks" using copy_chunks_ok [of chunks "[]" w] by simp
  show ?thesis
    using assms c w
    by (auto simp: copy_output_def commit_tmp_def Let_def split: sum.splits if_splits option.splits)
qed

interpretation copy_output: whole_or_nothing "\<lambda>S F tmp path chunks. copy_output S mw src_ok F tmp path chunks" source_octets "\<lambda>_ _. True"
  for mw src_ok
proof
  fix S F and tmp path q :: pystr and chunks G u e
  assume a: "tmp \<noteq> path"
  obtain r H where w: "copy_output S mw src_ok F tmp path chunks = (r, H)" by fastforce
  note res = copy_output_result [OF a w]
  show "\<exists>m. G path = Some (Regular (source_octets chunks) m)" if "copy_output S mw src_ok F tmp path chunks = (Inr u, G)" using that w res by auto
  show "G path = F path" if "copy_output S mw src_ok F tmp path chunks = (Inl e, G)" using that w res by auto
  show "snd (copy_output S mw src_ok F tmp path chunks) q = F q" if "q \<noteq> path" "q \<noteq> tmp" using that w res by auto
  show "snd (copy_output S mw src_ok F tmp path chunks) tmp = None" if "unlink_ok S" "F tmp = None" using that w res by auto
qed

section \<open>Properties of the writers\<close>


definition example_sys :: sys where
  "example_sys = \<lparr>open_ok = True, chmod_ok = True, write_results = [Takes 2, Fails], fsync_ok = True, close_ok = True, unlink_ok = True,
     rename_ok = True, truncate_ok = True, sync_after_truncate_ok = True, wait_ok = True\<rparr>"




lemma write_stdout_ok: "write_stdout S out data = (Inr u, out') \<Longrightarrow> \<exists>sofar. out = Some sofar \<and> out' = Some (sofar @ data)"
proof (cases out)
  case (Some sofar)
  obtain ok w where "stdout_loop (wait_ok S) (write_results S) data = (ok, w)" by fastforce
  then show "write_stdout S out data = (Inr u, out') \<Longrightarrow> ?thesis"
    using Some stdout_loop_ok [of "wait_ok S" "write_results S" data w] by (auto simp: write_stdout_def Let_def split: if_splits)
qed (simp add: write_stdout_def)

end
