(* ===== verification/Verifier.thy ===== *)
theory Verifier
  imports Tip Output
begin

text \<open>
  The verifier command (\<^verbatim>\<open>src/verifier.py\<close>): \<^verbatim>\<open>verify_ledger\<close> as a whole, from the file to the receipt with the signed
  tip, and \<^verbatim>\<open>main\<close> with its exit codes.
\<close>

section \<open>The receipt\<close>

text \<open>What the file system answers for a path: the decoded text, or one of the failures the code names.\<close>

datatype file_state = Absent | Unreadable pystr | Too_Large | Text pystr

datatype verdict = PASS | FAIL | FILE_NOT_FOUND

datatype receipt_error =
    Line_Error line_error
  | Idx_Mismatch nat "json option"
  | Empty_Ledger
  | Input_Too_Large
  | Unreadable_Input pystr
  | Pq_Key_Without_Log_Key
  | Tip_Not_Trusted
  | Tip_Unreadable
  | Tip_Failed check_fault
  | Tip_Missing

datatype tip_state =
    No_Tip
  | Tip_Unchecked
  | Tip_Checked "(check_fault \<times> bool option) option + tip_ok"

record receipt =
  verdict :: verdict
  entries_count :: nat
  rec_algorithm :: "algo option"
  hash_recomputed_ok :: nat
  rec_hash_failures :: "(json \<times> hash_fault) list"
  link_ok :: nat
  rec_link_failures :: "(json \<times> json \<times> json) list"
  idx_monotonic :: bool
  ts_monotonic :: bool
  rec_ts_backwards :: "(json \<times> pystr \<times> pystr) list"
  parse_errors :: "(int \<times> receipt_error) list"
  rec_schema_failures :: "(json \<times> pystr list) list"
  chain_integrity :: bool
  rec_tip :: tip_state
  tail_limit_in_full :: bool
  signatures_not_checked :: nat

definition early_receipt :: "verdict \<Rightarrow> (int \<times> receipt_error) list \<Rightarrow> receipt" where
  "early_receipt v errs =
     \<lparr>verdict = v, entries_count = 0, rec_algorithm = None, hash_recomputed_ok = 0, rec_hash_failures = [], link_ok = 0,
      rec_link_failures = [], idx_monotonic = False, ts_monotonic = False, rec_ts_backwards = [], parse_errors = errs,
      rec_schema_failures = [], chain_integrity = False, rec_tip = No_Tip, tail_limit_in_full = True, signatures_not_checked = 0\<rparr>"

text \<open>The arguments of \<^verbatim>\<open>verify_ledger\<close> besides the path, and the tip file found for them.\<close>

record options =
  opt_algo :: "algo option"
  opt_pubkey :: "pystr option"
  opt_require_tip :: bool
  opt_not_before :: "pystr option"
  opt_ledger_id :: "pystr option"
  opt_pq_pubkey :: "pystr option"

text \<open>
  The tip part. \<open>tip_file\<close> is \<open>None\<close> when no tip was named and none lies beside the ledger; else what reading the
  file gives: \<open>None\<close> for an error of the operating system or of UTF-8. The result: the state, the error it adds,
  and whether it breaks the verdict.
\<close>

definition signed_count :: "entry list \<Rightarrow> nat" where
  "signed_count es =
     length (filter (\<lambda>e. list_ex (\<lambda>k. has_key e k) [''signature'', ''signer'', ''signature_pq'', ''signer_pq'']) es)"

definition check_tip_file :: "crypto \<Rightarrow> options \<Rightarrow> entry list \<Rightarrow> pystr option \<Rightarrow> (check_fault \<times> bool option) option + tip_ok" where
  "check_tip_file C opts es file =
     (let last_hash = (if es \<noteq> [] then get_or (last es) ''self_hash'' (JStr []) else JStr GENESIS_PREV);
          first_hash = (if es \<noteq> [] then get_or (hd es) ''self_hash'' (JStr []) else JStr GENESIS_PREV) in
      case file of
        None \<Rightarrow> Inl None
      | Some txt \<Rightarrow>
          (case load_tip txt of
             Inl _ \<Rightarrow> Inl None
           | Inr tip \<Rightarrow>
               (case check_tip C (int (length es)) (text_of last_hash) tip (opt_pubkey opts) (opt_not_before opts)
                       (Some (text_of first_hash)) (opt_ledger_id opts) (opt_pq_pubkey opts) of
                  Inl f \<Rightarrow> Inl (Some f)
                | Inr r \<Rightarrow> Inr r)))"

definition tip_part :: "crypto \<Rightarrow> options \<Rightarrow> entry list \<Rightarrow> pystr option option \<Rightarrow> tip_state \<times> receipt_error list" where
  "tip_part C opts es tip_file =
     (let pq = given (opt_pq_pubkey opts); require = (opt_require_tip opts \<or> pq);
          pq_errs = (if pq \<and> \<not> given (opt_pubkey opts) then [Pq_Key_Without_Log_Key] else []) in
      case tip_file of
        None \<Rightarrow> (No_Tip, pq_errs @ (if require then [Tip_Missing] else []))
      | Some file \<Rightarrow>
          if \<not> given (opt_pubkey opts)
          then (Tip_Unchecked, pq_errs @ (if require then [Tip_Not_Trusted] else []))
          else
            (case check_tip_file C opts es file of
               Inr r \<Rightarrow> (Tip_Checked (Inr r), pq_errs)
             | Inl None \<Rightarrow> (Tip_Checked (Inl None), pq_errs @ [Tip_Unreadable])
             | Inl (Some (f, q)) \<Rightarrow> (Tip_Checked (Inl (Some (f, q))), pq_errs @ [Tip_Failed f])))"

definition verify_ledger :: "crypto \<Rightarrow> options \<Rightarrow> file_state \<Rightarrow> pystr option option \<Rightarrow> receipt" where
  "verify_ledger C opts file tip_file =
     (case file of
        Too_Large \<Rightarrow> early_receipt FAIL [(- 1, Input_Too_Large)]
      | Absent \<Rightarrow> early_receipt FILE_NOT_FOUND []
      | Unreadable e \<Rightarrow> early_receipt FAIL [(- 1, Unreadable_Input e)]
      | Text txt \<Rightarrow>
          let r = chain_report_of C (opt_algo opts) txt; es = entries r;
              errs = map (\<lambda>(i, e). (int i, Line_Error e)) (line_errors r) @ map (\<lambda>(i, v). (int i, Idx_Mismatch i v)) (rep_idx r);
              empty_errs = (if es = [] then [(0, Empty_Ledger)] else []);
              (tip, tip_errs) = tip_part C opts es tip_file;
              ok = (rep_hash r = [] \<and> rep_link r = [] \<and> rep_idx r = [] \<and> errs = [] \<and> rep_schema r = [] \<and> es \<noteq> [] \<and> tip_errs = [])
          in \<lparr>verdict = (if ok then PASS else FAIL), entries_count = length es, rec_algorithm = Some (algorithm_used r),
              hash_recomputed_ok = length es - length (rep_hash r), rec_hash_failures = take 10 (rep_hash r),
              link_ok = length es - length (rep_link r), rec_link_failures = take 10 (rep_link r),
              idx_monotonic = (rep_idx r = []), ts_monotonic = (rep_ts r = []), rec_ts_backwards = take 10 (rep_ts r),
              parse_errors = take 10 (errs @ empty_errs @ map (\<lambda>e. (int (length es), e)) tip_errs),
              rec_schema_failures = take 10 (rep_schema r), chain_integrity = ok, rec_tip = tip,
              tail_limit_in_full = (case tip of Tip_Checked (Inr _) \<Rightarrow> False | _ \<Rightarrow> True),
              signatures_not_checked = signed_count es\<rparr>)"

section \<open>The command\<close>

text \<open>
  \<^verbatim>\<open>main\<close> after its arguments are read: the receipt is rendered by \<open>render\<close> (\<^verbatim>\<open>json.dumps(receipt, indent=2)\<close>, or the
  bare verdict with \<^verbatim>\<open>--quiet\<close>), written to the \<^verbatim>\<open>--out\<close> file if one is named and to stdout; both are attempted.
\<close>

definition verifier_main ::
  "(receipt \<Rightarrow> bytes) \<Rightarrow> (receipt \<Rightarrow> bytes) \<Rightarrow> sys \<Rightarrow> sys \<Rightarrow> (pystr \<Rightarrow> bool) \<Rightarrow> pystr \<Rightarrow> pystr option \<Rightarrow>
    files \<Rightarrow> bytes option \<Rightarrow> receipt \<Rightarrow> int \<times> files \<times> bytes option" where
  "verifier_main render_file render_out S_file S_out may_write tmp out_path F out rcpt =
     (let (file_ok, F') =
        (case out_path of
           None \<Rightarrow> (True, F)
         | Some p \<Rightarrow>
             if p = [] then (True, F)
             else (case write_output S_file may_write F tmp p (render_file rcpt) 438 of
                 (Inr _, G) \<Rightarrow> (True, G)
               | (Inl _, G) \<Rightarrow> (False, G)));
          (r, out') = write_stdout S_out out (render_out rcpt @ [10]);
          out_ok = (case r of Inr _ \<Rightarrow> True | Inl _ \<Rightarrow> False)
      in (if \<not> (file_ok \<and> out_ok) then EX_IOERR else if verdict rcpt = PASS then 0 else 1, F', out'))"

section \<open>The verdict\<close>

text \<open>What the tip options ask for, as a predicate.\<close>

definition tip_satisfied :: "crypto \<Rightarrow> options \<Rightarrow> entry list \<Rightarrow> pystr option option \<Rightarrow> bool" where
  "tip_satisfied C opts es tip_file \<longleftrightarrow>
     (given (opt_pq_pubkey opts) \<longrightarrow> given (opt_pubkey opts)) \<and>
     (case tip_file of
        None \<Rightarrow> \<not> opt_require_tip opts \<and> \<not> given (opt_pq_pubkey opts)
      | Some file \<Rightarrow>
          if given (opt_pubkey opts) then \<exists>r. check_tip_file C opts es file = Inr r
          else \<not> opt_require_tip opts)"

lemma tip_part_ok: "snd (tip_part C opts es tip_file) = [] \<longleftrightarrow> tip_satisfied C opts es tip_file"
  by (auto simp: tip_part_def tip_satisfied_def Let_def split: option.splits sum.splits prod.splits)

lemma verdict_text:
  "verdict (verify_ledger C opts (Text tx) tip_file) = PASS \<longleftrightarrow>
     chain_ok (chain_report_of C (opt_algo opts) tx) \<and> tip_satisfied C opts (entries (chain_report_of C (opt_algo opts) tx)) tip_file"
  unfolding tip_part_ok [symmetric]
  by (auto simp: verify_ledger_def chain_ok_def Let_def split: prod.splits)

lemma verdict_pass_cases:
  assumes "verdict (verify_ledger C opts file tip_file) = PASS"
  obtains tx where "file = Text tx" "chain_ok (chain_report_of C (opt_algo opts) tx)"
    "tip_satisfied C opts (entries (chain_report_of C (opt_algo opts) tx)) tip_file"
proof (cases "file")
  case (Text tx)
  then show thesis using that assms verdict_text by blast
qed (use assms in \<open>auto simp: verify_ledger_def early_receipt_def\<close>)

text \<open>
  C4. The meaning of PASS: \<^verbatim>\<open>verify_ledger\<close> says PASS exactly when the file could be read within its size bound, every
  non-blank line is a JSON object of the profile, the entries are a valid chain, and the tip options are
  satisfied: a required tip was found, and with a trusted key any tip present was accepted. Absent,
  unreadable, oversized and empty files never pass.
\<close>

theorem pass_iff:
  "verdict (verify_ledger C opts file tip_file) = PASS \<longleftrightarrow>
     (\<exists>tx. file = Text tx \<and>
       list_all (\<lambda>l. \<exists>e. loads_strict l = Inr (JObj e)) (raw_lines tx) \<and>
       valid_chain C (algorithm_used (chain_report_of C (opt_algo opts) tx)) (entries (chain_report_of C (opt_algo opts) tx)) \<and>
       tip_satisfied C opts (entries (chain_report_of C (opt_algo opts) tx)) tip_file)"
  using verdict_text chain_report_ok_iff by (metis verdict_pass_cases)

text \<open>
  No fail-open: when a tip is required, or a post-quantum key is named, PASS implies that a trusted log key was
  given and that a tip was read under the strict profile and accepted by \<^verbatim>\<open>check_tip\<close> for exactly this file.
\<close>

theorem required_tip_was_checked:
  assumes "verdict (verify_ledger C opts file tip_file) = PASS" "opt_require_tip opts \<or> given (opt_pq_pubkey opts)"
  shows "given (opt_pubkey opts) \<and>
    (\<exists>tx tip_txt tip r. file = Text tx \<and> tip_file = Some (Some tip_txt) \<and> load_tip tip_txt = Inr tip \<and>
      check_tip C (int (length (entries (chain_report_of C (opt_algo opts) tx))))
        (head_hash (entries (chain_report_of C (opt_algo opts) tx))) tip (opt_pubkey opts) (opt_not_before opts)
        (Some (text_of (get (hd (entries (chain_report_of C (opt_algo opts) tx))) ''self_hash''))) (opt_ledger_id opts) (opt_pq_pubkey opts) = Inr r)"
proof -
  obtain tx where tx: "file = Text tx" "chain_ok (chain_report_of C (opt_algo opts) tx)"
    "tip_satisfied C opts (entries (chain_report_of C (opt_algo opts) tx)) tip_file"
    using assms(1) by (rule verdict_pass_cases)
  let ?es = "entries (chain_report_of C (opt_algo opts) tx)"
  from tx(3) assms(2) have g: "given (opt_pubkey opts)" by (auto simp: tip_satisfied_def split: option.splits if_splits)
  with tx(3) assms(2) obtain tf r where tf: "tip_file = Some tf" "check_tip_file C opts ?es tf = Inr r"
    by (auto simp: tip_satisfied_def split: option.splits)
  have v: "valid_chain C (algorithm_used (chain_report_of C (opt_algo opts) tx)) ?es" using tx(2) chain_report_ok_iff by blast
  have ne: "?es \<noteq> []" using v by (simp add: valid_chain_def)
  have h: "get_or (last ?es) ''self_hash'' (JStr []) = JStr (head_hash ?es)" "get (hd ?es) ''self_hash'' \<noteq> JNull"
    using head_hash_last [OF v] valid_self_hash [OF v, of 0] ne by (auto simp: get_def get_or_def hd_conv_nth split: option.splits)
  have f: "get_or (hd ?es) ''self_hash'' (JStr []) = get (hd ?es) ''self_hash''"
    using h(2) by (auto simp: get_def get_or_def split: option.splits)
  obtain tip_txt where t: "tf = Some tip_txt" using tf(2) by (cases tf) (auto simp: check_tip_file_def Let_def)
  obtain tip where l: "load_tip tip_txt = Inr tip"
    using tf(2) t by (cases "load_tip tip_txt") (auto simp: check_tip_file_def Let_def)
  have "check_tip C (int (length ?es)) (head_hash ?es) tip (opt_pubkey opts) (opt_not_before opts)
       (Some (text_of (get (hd ?es) ''self_hash''))) (opt_ledger_id opts) (opt_pq_pubkey opts) = Inr r"
    using tf(2) ne t l unfolding check_tip_file_def f h(1) Let_def by (auto simp: text_of_def split: sum.splits)
  with tx(1) tf(1) t l g show ?thesis by blast
qed

text \<open>A whole run on the example ledger, with its tip.\<close>

definition example_id :: pystr where
  "example_id = text_of (get (hd example_ledger) ''self_hash'')"

definition example_tip :: json where
  "example_tip = write_tip (example_sign example_pk) example_pk 2 example_id (head_hash example_ledger) example_ts"

definition example_options :: options where
  "example_options = \<lparr>opt_algo = Some Sha256, opt_pubkey = Some (hex_of example_pk), opt_require_tip = True, opt_not_before = None,
     opt_ledger_id = None, opt_pq_pubkey = None\<rparr>"

lemma load_tip_dumps:
  assumes "json_wf (JObj t)" "json_depth (JObj t) \<le> MAX_JSON_DEPTH"
  shows "load_tip (dumps (JObj t)) = Inr (JObj t)"
proof -
  have "strip_blanks (dumps (JObj t)) = dumps (JObj t)" by (simp add: strip_blanks_def Let_def)
  then show ?thesis using loads_strict_dumps [OF assms] by (simp add: load_tip_def del: dumps_sep.simps)
qed

lemma example_tip_loads: "load_tip (dumps example_tip) = Inr example_tip"
proof -
  have sc: "list_all scalar (hex_of bs)" for bs using text_scalar hex_of_fullmatch by blast
  have "json_wf example_tip" "json_depth example_tip \<le> MAX_JSON_DEPTH"
    using text_scalar [OF example_head(1)] text_scalar [OF example_head(2)] example_ts_scalar sc
    by (simp_all add: example_tip_def example_id_def write_tip_def KIND_def scalar_def SAFE_INT_def MAX_JSON_DEPTH_def)
  then show ?thesis using load_tip_dumps unfolding example_tip_def write_tip_def by blast
qed

lemma example_ledger_fits: "\<forall>e\<in>set example_ledger. entry_fits e"
  using example_ledger_wf
  by (auto simp: entry_fits_def example_ledger_def Let_def seal_def unsealed_entry_def MAX_JSON_DEPTH_def)

lemma example_pk_hex: "hex_of example_pk \<noteq> []"
proof -
  have "length (hex_of example_pk) = 64" by (simp add: example_pk_def)
  then show ?thesis by (metis list.size(3) zero_neq_numeral)
qed

lemma example_run_passes:
  "verdict (verify_ledger example_crypto example_options (Text (ledger_text example_ledger)) (Some (Some (dumps example_tip)))) = PASS"
proof -
  note rep = chain_report_ledger_text [OF example_ledger_fits, of example_crypto Sha256]
  have key: "log_key example_crypto (example_sign example_pk) example_pk (tip_payload 2 example_id (head_hash example_ledger) example_ts)"
    by (rule example_log_key)
  have "check_tip example_crypto 2 (head_hash example_ledger) example_tip (Some (hex_of example_pk)) None (Some example_id) None None =
      Inr \<lparr>tip_entries = 2, tip_ledger_id = example_id, tip_tip_sha256 = head_hash example_ledger, tip_ts = example_ts, tip_pq = Some False\<rparr>"
    unfolding example_tip_def
    by (rule write_tip_accepted [OF key _ _ example_head(1) example_ts_instant]) (use example_head(2) in \<open>auto simp: example_id_def\<close>)
  moreover have "get_or (last example_ledger) ''self_hash'' (JStr []) = JStr (head_hash example_ledger)"
    using head_hash_last [OF example_ledger_valid] by (auto simp: get_def get_or_def split: option.splits)
  moreover have "get_or (hd example_ledger) ''self_hash'' (JStr []) = get (hd example_ledger) ''self_hash''"
    using valid_self_hash [OF example_ledger_valid, of 0] example_ledger_length by (auto simp: get_def get_or_def split: option.splits)
  moreover have "example_ledger \<noteq> []" using example_ledger_length by auto
  ultimately have "\<exists>r. check_tip_file example_crypto example_options example_ledger (Some (dumps example_tip)) = Inr r"
    using example_tip_loads example_ledger_length
    by (simp add: check_tip_file_def example_options_def example_id_def text_of_def Let_def)
  moreover have "given (opt_pubkey example_options)"
    using example_pk_hex by (simp add: example_options_def given_def)
  ultimately have "tip_satisfied example_crypto example_options example_ledger (Some (Some (dumps example_tip)))"
    by (simp add: tip_satisfied_def)
  then show ?thesis using rep example_ledger_valid by (simp add: verdict_text example_options_def)
qed

theorem required_tip_was_checked_witness:
  "opt_require_tip example_options \<and> given (opt_pubkey example_options) \<and>
    (\<exists>tx tip_txt tip r. Text (ledger_text example_ledger) = Text tx \<and> Some (Some (dumps example_tip)) = Some (Some tip_txt) \<and> load_tip tip_txt = Inr tip \<and>
      check_tip example_crypto (int (length (entries (chain_report_of example_crypto (opt_algo example_options) tx))))
        (head_hash (entries (chain_report_of example_crypto (opt_algo example_options) tx))) tip (opt_pubkey example_options) (opt_not_before example_options)
        (Some (text_of (get (hd (entries (chain_report_of example_crypto (opt_algo example_options) tx))) ''self_hash'')))
        (opt_ledger_id example_options) (opt_pq_pubkey example_options) = Inr r)"
proof -
  have "opt_require_tip example_options" by (simp add: example_options_def)
  with required_tip_was_checked [OF example_run_passes] show ?thesis by blast
qed

section \<open>Exit codes\<close>



end
