(* ===== verification/Signer.thy ===== *)
theory Signer
  imports Verifier
begin

text \<open>
  The signature layer (\<^verbatim>\<open>src/signer.py\<close>): signing every entry of a ledger with Ed25519 and, for a hybrid ledger, with
  ML-DSA-65, and the independent verification of those signatures. Signatures cover the \<^verbatim>\<open>self_hash\<close> and stand outside
  the content hash.
\<close>

section \<open>Verification\<close>

definition PQ_SIG_LEN :: nat where
  "PQ_SIG_LEN = 3309"

text \<open>A line of the ledger as \<^verbatim>\<open>_load_line\<close> gives it: not JSON, or a value of the profile (floats are not modelled).\<close>

datatype loaded = Undecodable | Value json

datatype sig_fault =
    Line_Not_Json
  | Line_Not_Object
  | Missing_Signature_Field
  | Content_Hash_Mismatch
  | Signer_Mismatch
  | Malformed_Signature_Field
  | Refused_Order ed_problem
  | Bad_Signature

datatype pq_fault =
    Pq_Stripped
  | Pq_Incomplete
  | Pq_Signer_Mismatch
  | Malformed_Pq_Field
  | Pq_Not_Verifiable
  | Bad_Pq_Signature

definition content_self_hash_ok :: "crypto \<Rightarrow> entry \<Rightarrow> bool" where
  "content_self_hash_ok C e \<longleftrightarrow>
     (let sh = get e ''self_hash'' in
      truthy sh \<and>
      (let payload = canonical_payload e in py_eq sh (JStr (hash_with C Sha256 payload)) \<or> py_eq sh (JStr (hash_with C Sha3_256 payload))))"

text \<open>The checks after which the loop goes to the next entry; \<open>Inr\<close> the key, the signature and the signed octets.\<close>

definition signature_fields :: "crypto \<Rightarrow> pystr option \<Rightarrow> entry \<Rightarrow> sig_fault + bytes \<times> bytes \<times> bytes" where
  "signature_fields C expected e =
     (let sig = get e ''signature''; signer = get e ''signer''; sh = get e ''self_hash'' in
      if \<not> (truthy sig \<and> truthy signer \<and> truthy sh) then Inl Missing_Signature_Field
      else if \<not> content_self_hash_ok C e then Inl Content_Hash_Mismatch
      else if given expected \<and> \<not> py_eq signer (JStr (the expected)) then Inl Signer_Mismatch
      else (case b64_strict sig 64 of
          None \<Rightarrow> Inl Malformed_Signature_Field
        | Some raw \<Rightarrow>
            if \<not> (is_str signer \<and> hex_fullmatch 64 (text_of signer)) then Inl Malformed_Signature_Field
            else Inr (octets (text_of signer), raw, ascii_bytes (text_of sh))))"

definition ed_fault :: "crypto \<Rightarrow> bytes \<times> bytes \<times> bytes \<Rightarrow> sig_fault option" where
  "ed_fault C x =
     (case x of (pk, sig, msg) \<Rightarrow>
        (case ed_rules C pk sig of
           Some w \<Rightarrow> Some (Refused_Order w)
         | None \<Rightarrow> if ed_verify C pk sig msg then None else Some Bad_Signature))"

text \<open>The post-quantum part of an entry: no layer, a failure, a layer this host cannot check, or a valid one with its key.\<close>

datatype pq_outcome = Pq_None | Pq_Fail pq_fault | Pq_Unchecked | Pq_Good pystr

definition pq_check :: "crypto \<Rightarrow> pystr option \<Rightarrow> bool \<Rightarrow> entry \<Rightarrow> bytes \<Rightarrow> pq_outcome" where
  "pq_check C expected_pq require e msg =
     (let s = get e ''signature_pq''; k = get e ''signer_pq'' in
      if \<not> (truthy s \<or> truthy k) then (if require then Pq_Fail Pq_Stripped else Pq_None)
      else if \<not> (is_str s \<and> is_str k \<and> truthy s \<and> truthy k) then Pq_Fail Pq_Incomplete
      else if given expected_pq \<and> \<not> py_eq k (JStr (the expected_pq)) then Pq_Fail Pq_Signer_Mismatch
      else (case (b64_strict s PQ_SIG_LEN, b64_strict k PQ_PK_LEN) of
          (Some raw_sig, Some raw_pk) \<Rightarrow>
            (case mldsa65_verify C of
               None \<Rightarrow> if require then Pq_Fail Pq_Not_Verifiable else Pq_Unchecked
             | Some ver \<Rightarrow> if ver raw_pk raw_sig msg then Pq_Good (text_of k) else Pq_Fail Bad_Pq_Signature)
        | _ \<Rightarrow> Pq_Fail Malformed_Pq_Field))"

text \<open>The variables of the loop.\<close>

record sig_state =
  verified :: nat
  failures :: "(nat \<times> sig_fault) list"
  signers :: "pystr list"
  pq_ok :: nat
  pq_failures :: "(nat \<times> pq_fault) list"
  pq_signers :: "pystr list"
  pq_present :: nat

definition sig_start :: sig_state where
  "sig_start = \<lparr>verified = 0, failures = [], signers = [], pq_ok = 0, pq_failures = [], pq_signers = [], pq_present = 0\<rparr>"

definition count_pq :: "nat \<Rightarrow> pq_outcome \<Rightarrow> sig_state \<Rightarrow> sig_state" where
  "count_pq i r st =
     (case r of
        Pq_None \<Rightarrow> st
      | Pq_Fail f \<Rightarrow> st\<lparr>pq_failures := pq_failures st @ [(i, f)], pq_present := pq_present st + (if f = Pq_Stripped then 0 else 1)\<rparr>
      | Pq_Unchecked \<Rightarrow> st\<lparr>pq_present := pq_present st + 1\<rparr>
      | Pq_Good k \<Rightarrow> st\<lparr>pq_present := pq_present st + 1, pq_ok := pq_ok st + 1, pq_signers := List.insert k (pq_signers st)\<rparr>)"

definition sig_step :: "crypto \<Rightarrow> pystr option \<Rightarrow> pystr option \<Rightarrow> bool \<Rightarrow> nat \<Rightarrow> loaded \<Rightarrow> sig_state \<Rightarrow> sig_state" where
  "sig_step C expected expected_pq require i l st =
     (let fail = (\<lambda>f. st\<lparr>failures := failures st @ [(i, f)]\<rparr>) in
      case l of
        Undecodable \<Rightarrow> fail Line_Not_Json
      | Value (JObj e) \<Rightarrow>
          (case signature_fields C expected e of
             Inl f \<Rightarrow> fail f
           | Inr x \<Rightarrow>
               count_pq i (pq_check C expected_pq require e (snd (snd x)))
                 (case ed_fault C x of
                    None \<Rightarrow> st\<lparr>verified := verified st + 1, signers := List.insert (text_of (get e ''signer'')) (signers st)\<rparr>
                  | Some f \<Rightarrow> fail f))
      | Value _ \<Rightarrow> fail Line_Not_Object)"

fun sig_loop :: "crypto \<Rightarrow> pystr option \<Rightarrow> pystr option \<Rightarrow> bool \<Rightarrow> nat \<Rightarrow> loaded list \<Rightarrow> sig_state \<Rightarrow> sig_state" where
  "sig_loop C expected expected_pq require i [] st = st"
| "sig_loop C expected expected_pq require i (l # ls) st =
     sig_loop C expected expected_pq require (Suc i) ls (sig_step C expected expected_pq require i l st)"

datatype pq_status = Unverifiable | Layer_Missing | Layer_Invalid | Layer_Absent | Partial | Classical_Broken | Unpinned | Protected

text \<open>\<^verbatim>\<open>pq_protected\<close> and \<^verbatim>\<open>pq_status\<close>.\<close>

definition pq_summary :: "crypto \<Rightarrow> pystr option \<Rightarrow> nat \<Rightarrow> sig_state \<Rightarrow> bool option \<times> pq_status" where
  "pq_summary C expected_pq n st =
     (if pq_failures st \<noteq> [] then
        (let reasons = set (map snd (pq_failures st)) in
         (if reasons = {Pq_Not_Verifiable} then (None, Unverifiable)
          else if reasons = {Pq_Stripped} then (Some False, Layer_Missing) else (Some False, Layer_Invalid)))
      else if pq_present st = 0 then (Some False, Layer_Absent)
      else if mldsa65_verify C = None then (None, Unverifiable)
      else if pq_ok st \<noteq> n \<or> n = 0 then (Some False, Partial)
      else if failures st \<noteq> [] then (Some False, Classical_Broken)
      else if \<not> given expected_pq then (None, Unpinned)
      else (Some True, Protected))"

record sig_report =
  sig_ok :: bool
  rep_verified :: nat
  rep_total :: nat
  rep_failures :: "(nat \<times> sig_fault) list"
  rep_signers :: "pystr list"
  rep_pq_protected :: "bool option"
  rep_pq_status :: pq_status
  rep_pq_verified :: nat
  rep_pq_failures :: "(nat \<times> pq_fault) list"
  rep_pq_signers :: "pystr list"

datatype sig_error = Require_Needs_Key | Pq_Key_Needs_Ed_Key | Bad_Expected_Pq_Key

definition verify_ledger_signatures ::
  "crypto \<Rightarrow> loaded list \<Rightarrow> pystr option \<Rightarrow> pystr option \<Rightarrow> bool \<Rightarrow> sig_error + sig_report" where
  "verify_ledger_signatures C ls expected expected_pq require_pq =
     (if require_pq \<and> \<not> given expected_pq then Inl Require_Needs_Key
      else if given expected_pq \<and> \<not> given expected then Inl Pq_Key_Needs_Ed_Key
      else if given expected_pq \<and> b64_strict (JStr (the expected_pq)) PQ_PK_LEN = None then Inl Bad_Expected_Pq_Key
      else
        let require = (require_pq \<or> given expected_pq);
            st = sig_loop C expected expected_pq require 0 ls sig_start;
            (protected, status) = pq_summary C expected_pq (length ls) st
        in Inr \<lparr>sig_ok = (failures st = [] \<and> verified st = length ls \<and> ls \<noteq> [] \<and> pq_failures st = []),
                rep_verified = verified st, rep_total = length ls, rep_failures = failures st, rep_signers = sort (signers st),
                rep_pq_protected = protected, rep_pq_status = status, rep_pq_verified = pq_ok st, rep_pq_failures = pq_failures st,
                rep_pq_signers = sort (pq_signers st)\<rparr>)"

section \<open>Signing\<close>

text \<open>
  The key material behind a signing backend: the public key and the signing function, which are arguments here (a
  file, an HSM, a KMS). \<^verbatim>\<open>pq_public\<close> is the raw key of the post-quantum backend, whose \<^verbatim>\<open>public_key_b64\<close> is its base64.
\<close>

record backend =
  bk_public_hex :: pystr
  bk_sign :: "bytes \<Rightarrow> bytes"

record pq_backend =
  pq_public :: bytes
  pq_sign :: "bytes \<Rightarrow> bytes"

datatype sign_error =
    Bad_Public_Key
  | No_Ml_Dsa
  | Line_Error_At nat
  | No_Self_Hash
  | Unsignable_Self_Hash
  | Self_Check_Failed
  | Pq_Self_Check_Failed

definition sign_entry :: "crypto \<Rightarrow> backend \<Rightarrow> pq_backend option \<Rightarrow> entry \<Rightarrow> sign_error + entry" where
  "sign_entry C bk pq e =
     (let sh = get e ''self_hash'' in
      if \<not> truthy sh then Inl No_Self_Hash
      else if \<not> is_str sh \<or> \<not> encodable (text_of sh) then Inl Unsignable_Self_Hash
      else
        let msg = utf8 (text_of sh); sig = bk_sign bk msg in
        if \<not> ed_verify C (octets (bk_public_hex bk)) sig msg then Inl Self_Check_Failed
        else
          let e1 = put (put e ''signature'' (JStr (b64encode sig))) ''signer'' (JStr (bk_public_hex bk)) in
          (case pq of
             None \<Rightarrow> Inr (pop (pop e1 ''signature_pq'') ''signer_pq'')
           | Some q \<Rightarrow>
               let pq_sig = pq_sign q msg in
               (case mldsa65_verify C of
                  None \<Rightarrow> Inl No_Ml_Dsa
                | Some ver \<Rightarrow>
                    if \<not> ver (pq_public q) pq_sig msg then Inl Pq_Self_Check_Failed
                    else Inr (put (put e1 ''signature_pq'' (JStr (b64encode pq_sig))) ''signer_pq'' (JStr (b64encode (pq_public q)))))))"

text \<open>The lines are read, signed and kept; nothing is written when one raises.\<close>

fun sign_lines :: "crypto \<Rightarrow> backend \<Rightarrow> pq_backend option \<Rightarrow> nat \<Rightarrow> loaded list \<Rightarrow> sign_error + entry list" where
  "sign_lines C bk pq i [] = Inr []"
| "sign_lines C bk pq i (l # ls) =
     (case l of
        Value (JObj e) \<Rightarrow> bindE (sign_entry C bk pq e) (\<lambda>e'. bindE (sign_lines C bk pq (Suc i) ls) (\<lambda>es. Inr (e' # es)))
      | _ \<Rightarrow> Inl (Line_Error_At i))"

definition signed_line :: "entry \<Rightarrow> bytes" where
  "signed_line e = ascii_bytes (dumps_sep [44, 32] [58, 32] (JObj e) @ [10])"

definition sign_ledger ::
  "crypto \<Rightarrow> backend \<Rightarrow> pq_backend option \<Rightarrow> sys \<Rightarrow> (pystr \<Rightarrow> bool) \<Rightarrow> files \<Rightarrow> pystr \<Rightarrow> pystr \<Rightarrow> loaded list \<Rightarrow>
    ((sign_error + write_error) + nat) \<times> files" where
  "sign_ledger C bk pq S may_write F tmp out_path ls =
     (case fromhex (bk_public_hex bk) of
        None \<Rightarrow> (Inl (Inl Bad_Public_Key), F)
      | Some pk \<Rightarrow>
          if length pk \<noteq> 32 then (Inl (Inl Bad_Public_Key), F)
          else if pq \<noteq> None \<and> mldsa65_verify C = None then (Inl (Inl No_Ml_Dsa), F)
          else (case sign_lines C bk pq 0 ls of
              Inl e \<Rightarrow> (Inl (Inl e), F)
            | Inr out \<Rightarrow>
                (case write_output S may_write F tmp out_path (concat (map signed_line out)) 438 of
                   (Inl e, G) \<Rightarrow> (Inl (Inr e), G)
                 | (Inr _, G) \<Rightarrow> (Inr (length out), G))))"

section \<open>What the verdict means\<close>

text \<open>The specification of a signed entry, and of its post-quantum layer.\<close>

definition ed_signed :: "crypto \<Rightarrow> pystr option \<Rightarrow> entry \<Rightarrow> bool" where
  "ed_signed C expected e \<longleftrightarrow>
     (\<exists>pk sig sh. get e ''self_hash'' = JStr sh \<and> sh \<in> {hash_with C Sha256 (canonical_payload e), hash_with C Sha3_256 (canonical_payload e)} \<and>
       sh \<noteq> [] \<and> get e ''signer'' = JStr (hex_of pk) \<and> length pk = 32 \<and> (given expected \<longrightarrow> expected = Some (hex_of pk)) \<and>
       get e ''signature'' = JStr (b64encode sig) \<and> length sig = 64 \<and> ed_rules C pk sig = None \<and> ed_verify C pk sig (ascii_bytes sh))"

definition pq_fields :: "pystr option \<Rightarrow> entry \<Rightarrow> bytes \<Rightarrow> bytes \<Rightarrow> bool" where
  "pq_fields expected_pq e pk sig \<longleftrightarrow>
     get e ''signer_pq'' = JStr (b64encode pk) \<and> length pk = PQ_PK_LEN \<and> (given expected_pq \<longrightarrow> expected_pq = Some (b64encode pk)) \<and>
     get e ''signature_pq'' = JStr (b64encode sig) \<and> length sig = PQ_SIG_LEN"

definition pq_signed :: "crypto \<Rightarrow> pystr option \<Rightarrow> entry \<Rightarrow> bool" where
  "pq_signed C expected_pq e \<longleftrightarrow>
     (\<exists>pk sig ver. pq_fields expected_pq e pk sig \<and> mldsa65_verify C = Some ver \<and> ver pk sig (ascii_bytes (text_of (get e ''self_hash''))))"

definition pq_absent :: "entry \<Rightarrow> bool" where
  "pq_absent e \<longleftrightarrow> \<not> truthy (get e ''signature_pq'') \<and> \<not> truthy (get e ''signer_pq'')"

text \<open>A layer that is not required may be absent, or present where it cannot be checked.\<close>

definition pq_tolerated :: "crypto \<Rightarrow> pystr option \<Rightarrow> bool \<Rightarrow> entry \<Rightarrow> bool" where
  "pq_tolerated C expected_pq require e \<longleftrightarrow>
     pq_signed C expected_pq e \<or> \<not> require \<and> (pq_absent e \<or> mldsa65_verify C = None \<and> (\<exists>pk sig. pq_fields expected_pq e pk sig))"

definition arguments_ok :: "pystr option \<Rightarrow> pystr option \<Rightarrow> bool \<Rightarrow> bool" where
  "arguments_ok expected expected_pq require_pq \<longleftrightarrow>
     (require_pq \<longrightarrow> given expected_pq) \<and>
     (given expected_pq \<longrightarrow> given expected \<and> (\<exists>pk. expected_pq = Some (b64encode pk) \<and> length pk = PQ_PK_LEN))"

lemma hex_fullmatch_iff: "hex_fullmatch (2 * n) s \<longleftrightarrow> (\<exists>bs. s = hex_of bs \<and> length bs = n)"
  using hex_fullmatch_decodes [of n s] hex_of_fullmatch by fastforce

lemma b64_strict_json: "b64_strict v n = Some raw \<longleftrightarrow> v = JStr (b64encode raw) \<and> length raw = n"
proof (cases v)
  case (JStr s)
  then show ?thesis using b64_strict_iff [of s n raw] by auto
qed (auto simp: b64_strict_def)

lemma truthy_str: "is_str v \<Longrightarrow> v = JStr (text_of v)"
  by (cases v) (auto simp: is_str_def text_of_def)

lemma b64encode_nonempty: "length bs > 0 \<Longrightarrow> b64encode bs \<noteq> []"
  by (auto simp: length_b64encode simp flip: length_greater_0_conv)

lemma signature_fields_ok:
  "(\<exists>x. signature_fields C expected e = Inr x \<and> ed_fault C x = None) \<longleftrightarrow> ed_signed C expected e"
proof
  assume "\<exists>x. signature_fields C expected e = Inr x \<and> ed_fault C x = None"
  then obtain pk raw msg where x: "signature_fields C expected e = Inr (pk, raw, msg)" "ed_fault C (pk, raw, msg) = None" by auto
  from x(1) have c: "content_self_hash_ok C e" "\<not> (given expected \<and> get e ''signer'' \<noteq> JStr (the expected))"
    "b64_strict (get e ''signature'') 64 = Some raw" "is_str (get e ''signer'')" "hex_fullmatch 64 (text_of (get e ''signer''))"
    "pk = octets (text_of (get e ''signer''))" "msg = ascii_bytes (text_of (get e ''self_hash''))" "truthy (get e ''self_hash'')"
    unfolding signature_fields_def Let_def by (simp_all split: if_splits option.splits)
  obtain bs where bs: "text_of (get e ''signer'') = hex_of bs" "length bs = 32" using c(5) hex_fullmatch_iff [of 32] by auto
  have s: "get e ''signer'' = JStr (hex_of bs)" using truthy_str [OF c(4)] bs(1) by simp
  have "pk = bs" using c(6) bs by simp
  moreover have "expected = Some (hex_of bs)" if "given expected" using c(2) s that by (auto simp: given_def)
  moreover have "\<exists>sh. get e ''self_hash'' = JStr sh \<and> sh \<in> {hash_with C Sha256 (canonical_payload e), hash_with C Sha3_256 (canonical_payload e)} \<and> msg = ascii_bytes sh \<and> sh \<noteq> []"
    using c(1,7,8) by (auto simp: content_self_hash_ok_def Let_def text_of_def)
  ultimately show "ed_signed C expected e"
    using s bs(2) c(3) x(2) b64_strict_json [of "get e ''signature''" 64 raw]
    unfolding ed_signed_def ed_fault_def by (auto split: option.splits if_splits)
next
  assume "ed_signed C expected e"
  then obtain pk sig sh where e: "get e ''self_hash'' = JStr sh" "sh \<in> {hash_with C Sha256 (canonical_payload e), hash_with C Sha3_256 (canonical_payload e)}"
    "sh \<noteq> []" "get e ''signer'' = JStr (hex_of pk)" "length pk = 32" "given expected \<longrightarrow> expected = Some (hex_of pk)"
    "get e ''signature'' = JStr (b64encode sig)" "length sig = 64" "ed_rules C pk sig = None" "ed_verify C pk sig (ascii_bytes sh)"
    unfolding ed_signed_def by blast
  have "hex_of pk \<noteq> []" using e(5) by (auto simp flip: length_greater_0_conv)
  moreover have "b64encode sig \<noteq> []" using e(8) b64encode_nonempty [of sig] by linarith
  moreover have "hex_fullmatch 64 (hex_of pk)" using e(5) hex_of_fullmatch [of 64 pk] by simp
  moreover have "b64_strict (JStr (b64encode sig)) 64 = Some sig" using e(8) b64_strict_iff by blast
  moreover have "content_self_hash_ok C e" using e(1-3) by (auto simp: content_self_hash_ok_def Let_def)
  ultimately have "signature_fields C expected e = Inr (pk, sig, ascii_bytes sh)"
    using e(1,3,4,6,7) by (auto simp: signature_fields_def Let_def is_str_def text_of_def)
  then show "\<exists>x. signature_fields C expected e = Inr x \<and> ed_fault C x = None" using e(9,10) by (simp add: ed_fault_def)
qed

lemma signature_fields_msg: "signature_fields C expected e = Inr (pk, sig, msg) \<Longrightarrow> msg = ascii_bytes (text_of (get e ''self_hash''))"
  unfolding signature_fields_def Let_def by (simp split: if_splits option.splits)

lemma PQ_lens: "PQ_SIG_LEN > 0" "PQ_PK_LEN > 0"
  by (simp_all add: PQ_SIG_LEN_def PQ_PK_LEN_def)

lemma pq_fields_shape:
  assumes "pq_fields expected_pq e pk sig"
  shows "pq_check C expected_pq require e msg =
    (case mldsa65_verify C of
       None \<Rightarrow> if require then Pq_Fail Pq_Not_Verifiable else Pq_Unchecked
     | Some ver \<Rightarrow> if ver pk sig msg then Pq_Good (b64encode pk) else Pq_Fail Bad_Pq_Signature)"
proof -
  from assms have f: "get e ''signer_pq'' = JStr (b64encode pk)" "get e ''signature_pq'' = JStr (b64encode sig)"
    "b64encode pk \<noteq> []" "b64encode sig \<noteq> []" "given expected_pq \<longrightarrow> expected_pq = Some (b64encode pk)"
    using PQ_lens b64encode_nonempty [of pk] b64encode_nonempty [of sig] by (auto simp: pq_fields_def)
  have "b64_strict (JStr (b64encode pk)) PQ_PK_LEN = Some pk" "b64_strict (JStr (b64encode sig)) PQ_SIG_LEN = Some sig"
    using assms b64_strict_iff by (auto simp: pq_fields_def)
  with f show ?thesis by (auto simp: pq_check_def is_str_def text_of_def Let_def split: option.splits)
qed

lemma pq_check_fields:
  assumes "pq_check C expected_pq require e msg \<in> {Pq_Unchecked, Pq_Good k}"
  shows "\<exists>pk sig. pq_fields expected_pq e pk sig"
proof -
  have "given expected_pq \<longrightarrow> get e ''signer_pq'' = JStr (the expected_pq)"
    "\<exists>pk. b64_strict (get e ''signer_pq'') PQ_PK_LEN = Some pk" "\<exists>sig. b64_strict (get e ''signature_pq'') PQ_SIG_LEN = Some sig"
    using assms unfolding pq_check_def Let_def by (auto split: if_splits option.splits)
  then show ?thesis unfolding pq_fields_def b64_strict_json by (auto simp: given_def)
qed

lemma pq_check_cases:
  defines "msg e \<equiv> ascii_bytes (text_of (get e ''self_hash''))"
  shows "(\<exists>k. pq_check C expected_pq require e (msg e) = Pq_Good k) \<longleftrightarrow> pq_signed C expected_pq e"
    and "(\<forall>f. pq_check C expected_pq require e (msg e) \<noteq> Pq_Fail f) \<longleftrightarrow> pq_tolerated C expected_pq require e"
proof -
  have good: "\<exists>k. pq_check C expected_pq require e (msg e) = Pq_Good k" if "pq_signed C expected_pq e"
    using that pq_fields_shape [of expected_pq e] unfolding pq_signed_def msg_def by fastforce
  have signed: "pq_signed C expected_pq e" if "pq_check C expected_pq require e (msg e) = Pq_Good k" for k
  proof -
    from that have "pq_check C expected_pq require e (msg e) \<in> {Pq_Unchecked, Pq_Good k}" by simp
    then obtain pk sig where f: "pq_fields expected_pq e pk sig" using pq_check_fields by blast
    then show ?thesis using that unfolding pq_fields_shape [OF f] pq_signed_def msg_def by (auto split: option.splits if_splits)
  qed
  from good signed show "(\<exists>k. pq_check C expected_pq require e (msg e) = Pq_Good k) \<longleftrightarrow> pq_signed C expected_pq e" by blast
  have none: "pq_check C expected_pq require e m = Pq_None \<longleftrightarrow> pq_absent e \<and> \<not> require" for m
    unfolding pq_check_def pq_absent_def Let_def by (auto split: option.splits)
  have tolerated: "pq_check C expected_pq require e m = Pq_Unchecked \<longleftrightarrow>
      \<not> require \<and> mldsa65_verify C = None \<and> (\<exists>pk sig. pq_fields expected_pq e pk sig)" for m
  proof
    assume u: "pq_check C expected_pq require e m = Pq_Unchecked"
    then have "pq_check C expected_pq require e m \<in> {Pq_Unchecked, Pq_Good []}" by simp
    then obtain pk sig where f: "pq_fields expected_pq e pk sig" using pq_check_fields by blast
    from u show "\<not> require \<and> mldsa65_verify C = None \<and> (\<exists>pk sig. pq_fields expected_pq e pk sig)"
      unfolding pq_fields_shape [OF f] using f by (auto split: option.splits if_splits)
  qed (auto simp: pq_fields_shape)
  show "(\<forall>f. pq_check C expected_pq require e (msg e) \<noteq> Pq_Fail f) \<longleftrightarrow> pq_tolerated C expected_pq require e"
    unfolding pq_tolerated_def using good signed none tolerated by (metis pq_outcome.distinct(1,3,5,7,9,11) pq_outcome.exhaust)
qed

text \<open>The loop, one line at a time.\<close>

definition line_signed :: "crypto \<Rightarrow> pystr option \<Rightarrow> loaded \<Rightarrow> bool" where
  "line_signed C expected l \<longleftrightarrow> (\<exists>e. l = Value (JObj e) \<and> ed_signed C expected e)"

definition line_pq :: "crypto \<Rightarrow> pystr option \<Rightarrow> pystr option \<Rightarrow> bool \<Rightarrow> loaded \<Rightarrow> pq_outcome" where
  "line_pq C expected expected_pq require l =
     (case l of
        Value (JObj e) \<Rightarrow>
          (case signature_fields C expected e of
             Inr x \<Rightarrow> pq_check C expected_pq require e (snd (snd x)) | Inl _ \<Rightarrow> Pq_None)
      | _ \<Rightarrow> Pq_None)"

lemma count_pq_fields [simp]:
  "failures (count_pq i r st) = failures st" "verified (count_pq i r st) = verified st"
  "pq_failures (count_pq i r st) = pq_failures st @ (case r of Pq_Fail f \<Rightarrow> [(i, f)] | _ \<Rightarrow> [])"
  "pq_ok (count_pq i r st) = pq_ok st + (case r of Pq_Good _ \<Rightarrow> 1 | _ \<Rightarrow> 0)"
  "pq_present (count_pq i r st) = pq_present st + (case r of Pq_None \<Rightarrow> 0 | Pq_Fail f \<Rightarrow> if f = Pq_Stripped then 0 else 1 | _ \<Rightarrow> 1)"
  by (simp_all add: count_pq_def split: pq_outcome.splits)

lemma sig_step_fields:
  fixes C expected expected_pq require
  defines "step i l st \<equiv> sig_step C expected expected_pq require i l st" and "pq l \<equiv> line_pq C expected expected_pq require l"
  shows "failures (step i l st) = [] \<longleftrightarrow> failures st = [] \<and> line_signed C expected l"
    "verified (step i l st) = verified st + (if line_signed C expected l then 1 else 0)"
    "pq_failures (step i l st) = pq_failures st @ (case pq l of Pq_Fail f \<Rightarrow> [(i, f)] | _ \<Rightarrow> [])"
    "pq_ok (step i l st) = pq_ok st + (case pq l of Pq_Good _ \<Rightarrow> 1 | _ \<Rightarrow> 0)"
    "pq_present (step i l st) = pq_present st + (case pq l of Pq_None \<Rightarrow> 0 | Pq_Fail f \<Rightarrow> if f = Pq_Stripped then 0 else 1 | _ \<Rightarrow> 1)"
  unfolding step_def pq_def sig_step_def line_signed_def line_pq_def Let_def signature_fields_ok [symmetric]
  by (auto split: loaded.splits json.splits sum.splits option.splits)

lemma sig_loop_fields:
  fixes C expected expected_pq require
  defines "loop i ls st \<equiv> sig_loop C expected expected_pq require i ls st" and "pq l \<equiv> line_pq C expected expected_pq require l"
  shows "failures (loop i ls st) = [] \<longleftrightarrow> failures st = [] \<and> list_all (line_signed C expected) ls"
    "list_all (line_signed C expected) ls \<Longrightarrow> verified (loop i ls st) = verified st + length ls"
    "pq_failures (loop i ls st) = [] \<longleftrightarrow> pq_failures st = [] \<and> (\<forall>l\<in>set ls. \<forall>f. pq l \<noteq> Pq_Fail f)"
    "pq_ok (loop i ls st) = pq_ok st + length (filter (\<lambda>l. \<exists>k. pq l = Pq_Good k) ls)"
    "pq_present (loop i ls st) = pq_present st + length (filter (\<lambda>l. pq l \<noteq> Pq_None \<and> pq l \<noteq> Pq_Fail Pq_Stripped) ls)"
  unfolding loop_def
  by (induction ls arbitrary: i st)
    (auto simp: sig_step_fields pq_def split: pq_outcome.splits)

lemma line_pq_Value:
  "signature_fields C expected e = Inr x \<Longrightarrow>
     line_pq C expected expected_pq require (Value (JObj e)) = pq_check C expected_pq require e (ascii_bytes (text_of (get e ''self_hash'')))"
  by (cases x) (auto simp: line_pq_def dest: signature_fields_msg)

lemma line_signed_pq:
  assumes "line_signed C expected l"
  obtains e where "l = Value (JObj e)" "ed_signed C expected e"
    "(\<forall>f. line_pq C expected expected_pq require l \<noteq> Pq_Fail f) \<longleftrightarrow> pq_tolerated C expected_pq require e"
    "(\<exists>k. line_pq C expected expected_pq require l = Pq_Good k) \<longleftrightarrow> pq_signed C expected_pq e"
    "line_pq C expected expected_pq require l = Pq_None \<Longrightarrow> \<not> pq_signed C expected_pq e"
proof -
  obtain e where e: "l = Value (JObj e)" "ed_signed C expected e" using assms by (auto simp: line_signed_def)
  obtain x where "signature_fields C expected e = Inr x" using e(2) signature_fields_ok by metis
  from line_pq_Value [OF this] show thesis
    using that [OF e] pq_check_cases [of C expected_pq require e] unfolding e(1) by (metis pq_outcome.distinct(5))
qed

lemma verify_ledger_signatures_Inr:
  "verify_ledger_signatures C ls expected expected_pq require_pq = Inr r \<longleftrightarrow>
     arguments_ok expected expected_pq require_pq \<and>
     (let st = sig_loop C expected expected_pq (given expected_pq) 0 ls sig_start in
      r = \<lparr>sig_ok = (failures st = [] \<and> verified st = length ls \<and> ls \<noteq> [] \<and> pq_failures st = []),
           rep_verified = verified st, rep_total = length ls, rep_failures = failures st, rep_signers = sort (signers st),
           rep_pq_protected = fst (pq_summary C expected_pq (length ls) st), rep_pq_status = snd (pq_summary C expected_pq (length ls) st),
           rep_pq_verified = pq_ok st, rep_pq_failures = pq_failures st, rep_pq_signers = sort (pq_signers st)\<rparr>)"
proof (cases "arguments_ok expected expected_pq require_pq")
  case True
  then have "(require_pq \<or> given expected_pq) = given expected_pq" by (auto simp: arguments_ok_def)
  moreover have "given expected_pq \<longrightarrow> b64_strict (JStr (the expected_pq)) PQ_PK_LEN \<noteq> None"
    using True by (auto simp: arguments_ok_def b64_strict_json)
  ultimately show ?thesis
    using True by (auto simp: verify_ledger_signatures_def arguments_ok_def Let_def split: prod.splits)
next
  case False
  have "b64_strict (JStr (the expected_pq)) PQ_PK_LEN = None" if "given expected_pq" "\<nexists>pk. expected_pq = Some (b64encode pk) \<and> length pk = PQ_PK_LEN"
    using that by (cases "b64_strict (JStr (the expected_pq)) PQ_PK_LEN") (auto simp: b64_strict_json given_def)
  with False show ?thesis by (auto simp: verify_ledger_signatures_def arguments_ok_def)
qed

lemma verify_ledger_signatures_args:
  "(\<exists>r. verify_ledger_signatures C ls expected expected_pq require_pq = Inr r) \<longleftrightarrow> arguments_ok expected expected_pq require_pq"
  using verify_ledger_signatures_Inr [of C ls expected expected_pq require_pq] by metis

lemma sig_start_fields [simp]: "failures sig_start = []" "verified sig_start = 0" "pq_failures sig_start = []" "pq_ok sig_start = 0" "pq_present sig_start = 0"
  by (simp_all add: sig_start_def)

lemma sig_ok_spec:
  assumes "verify_ledger_signatures C ls expected expected_pq require_pq = Inr r"
  shows "sig_ok r \<longleftrightarrow> ls \<noteq> [] \<and> list_all (\<lambda>l. \<exists>e. l = Value (JObj e) \<and> ed_signed C expected e \<and> pq_tolerated C expected_pq (given expected_pq) e) ls"
proof -
  let ?st = "sig_loop C expected expected_pq (given expected_pq) 0 ls sig_start"
  have ok: "sig_ok r \<longleftrightarrow> failures ?st = [] \<and> verified ?st = length ls \<and> ls \<noteq> [] \<and> pq_failures ?st = []"
    using assms unfolding verify_ledger_signatures_Inr Let_def by auto
  show ?thesis
  proof (cases "list_all (line_signed C expected) ls")
    case True
    have "(\<forall>f. line_pq C expected expected_pq (given expected_pq) l \<noteq> Pq_Fail f) \<longleftrightarrow>
        (\<exists>e. l = Value (JObj e) \<and> ed_signed C expected e \<and> pq_tolerated C expected_pq (given expected_pq) e)" if "l \<in> set ls" for l
      using True that line_signed_pq [of C expected l expected_pq "given expected_pq"] unfolding list_all_iff by (metis json.inject(5) loaded.inject)
    then show ?thesis unfolding ok sig_loop_fields using True sig_loop_fields(2) [OF True] by (auto simp: list_all_iff)
  next
    case False
    then show ?thesis unfolding ok sig_loop_fields by (auto simp: list_all_iff line_signed_def)
  qed
qed

lemma filter_full: "length (filter P xs) = length xs \<Longrightarrow> \<forall>x\<in>set xs. P x"
  by (metis length_filter_less less_irrefl)

lemma pq_protected_spec:
  assumes "verify_ledger_signatures C ls expected expected_pq require_pq = Inr r"
  shows "rep_pq_protected r = Some True \<longleftrightarrow>
    given expected_pq \<and> ls \<noteq> [] \<and> list_all (\<lambda>l. \<exists>e. l = Value (JObj e) \<and> ed_signed C expected e \<and> pq_signed C expected_pq e) ls"
    (is "_ \<longleftrightarrow> ?spec")
proof -
  let ?st = "sig_loop C expected expected_pq (given expected_pq) 0 ls sig_start"
  let ?pq = "line_pq C expected expected_pq (given expected_pq)"
  have "rep_pq_protected r = fst (pq_summary C expected_pq (length ls) ?st)"
    using assms unfolding verify_ledger_signatures_Inr Let_def by auto
  also have "\<dots> = Some True \<longleftrightarrow> pq_failures ?st = [] \<and> pq_present ?st \<noteq> 0 \<and> mldsa65_verify C \<noteq> None \<and>
      pq_ok ?st = length ls \<and> ls \<noteq> [] \<and> failures ?st = [] \<and> given expected_pq"
    by (auto simp: pq_summary_def Let_def)
  finally have p: "rep_pq_protected r = Some True \<longleftrightarrow> \<dots>" .
  have all: "(\<exists>e. l = Value (JObj e) \<and> ed_signed C expected e \<and> pq_signed C expected_pq e) \<longleftrightarrow> line_signed C expected l \<and> (\<exists>k. ?pq l = Pq_Good k)" for l
    using line_signed_pq [of C expected l expected_pq "given expected_pq"] unfolding line_signed_def by (metis json.inject(5) loaded.inject)
  show ?thesis
  proof
    assume "rep_pq_protected r = Some True"
    then have a: "length (filter (\<lambda>l. \<exists>k. ?pq l = Pq_Good k) ls) = length ls" "ls \<noteq> []" "list_all (line_signed C expected) ls" "given expected_pq"
      unfolding p sig_loop_fields sig_start_fields add_0 by blast+
    then show ?spec unfolding all using filter_full [OF a(1)] by (auto simp: list_all_iff)
  next
    assume spec: ?spec
    then have good: "line_signed C expected l" "\<exists>k. ?pq l = Pq_Good k" if "l \<in> set ls" for l
      using that unfolding all by (auto simp: list_all_iff)
    then have "filter (\<lambda>l. \<exists>k. ?pq l = Pq_Good k) ls = ls" by (simp add: filter_id_conv)
    moreover have "filter (\<lambda>l. ?pq l \<noteq> Pq_None \<and> ?pq l \<noteq> Pq_Fail Pq_Stripped) ls = ls"
      using good(2) by (fastforce simp: filter_id_conv)
    moreover have "mldsa65_verify C \<noteq> None" using spec by (cases ls) (auto simp: pq_signed_def)
    ultimately show "rep_pq_protected r = Some True"
      unfolding p sig_loop_fields using spec good by (fastforce simp: list_all_iff)
  qed
qed

text \<open>
  C16. What \<^verbatim>\<open>ok\<close> means: \<^verbatim>\<open>verify_ledger_signatures\<close> reports ok exactly when its arguments are consistent, the ledger is not empty,
  and every line is an object whose \<^verbatim>\<open>self_hash\<close> recomputes from its content and is signed, in strict encodings, by a
  key that obeys the order rules and is the expected one if one is given, while its post-quantum layer is valid, or
  (only when no post-quantum key is expected) absent or not checkable.
\<close>

theorem signatures_ok_iff:
  "(case verify_ledger_signatures C ls expected expected_pq require_pq of Inr r \<Rightarrow> sig_ok r | Inl _ \<Rightarrow> False) \<longleftrightarrow>
     arguments_ok expected expected_pq require_pq \<and> ls \<noteq> [] \<and>
     list_all (\<lambda>l. \<exists>e. l = Value (JObj e) \<and> ed_signed C expected e \<and> pq_tolerated C expected_pq (given expected_pq) e) ls"
proof (cases "verify_ledger_signatures C ls expected expected_pq require_pq")
  case (Inl a)
  then have "\<not> arguments_ok expected expected_pq require_pq"
    using verify_ledger_signatures_args [of C ls expected expected_pq require_pq] by (metis Inl_Inr_False)
  with Inl show ?thesis by simp
next
  case (Inr r)
  then have "arguments_ok expected expected_pq require_pq" using verify_ledger_signatures_args by blast
  with Inr show ?thesis using sig_ok_spec [OF Inr] by simp
qed

text \<open>
  No self-declared protection: \<^verbatim>\<open>pq_protected\<close> is reported true exactly when a post-quantum key is pinned together with
  the Ed25519 key, and every entry of a non-empty ledger carries a valid Ed25519 signature by the pinned key and a
  valid ML-DSA-65 signature by the pinned post-quantum key.
\<close>

theorem pq_protected_iff:
  "(case verify_ledger_signatures C ls expected expected_pq require_pq of Inr r \<Rightarrow> rep_pq_protected r = Some True | Inl _ \<Rightarrow> False) \<longleftrightarrow>
     arguments_ok expected expected_pq require_pq \<and> given expected_pq \<and> ls \<noteq> [] \<and>
     list_all (\<lambda>l. \<exists>e. l = Value (JObj e) \<and> ed_signed C expected e \<and> pq_signed C expected_pq e) ls"
proof (cases "verify_ledger_signatures C ls expected expected_pq require_pq")
  case (Inl a)
  then have "\<not> arguments_ok expected expected_pq require_pq"
    using verify_ledger_signatures_args [of C ls expected expected_pq require_pq] by (metis Inl_Inr_False)
  with Inl show ?thesis by simp
next
  case (Inr r)
  then have "arguments_ok expected expected_pq require_pq" using verify_ledger_signatures_args by blast
  with Inr show ?thesis using pq_protected_spec [OF Inr] by simp
qed

section \<open>Signing keeps the chain and is verified\<close>

text \<open>A backend whose signatures verify under its own key, with the lengths of the algorithms.\<close>

definition honest_backend :: "crypto \<Rightarrow> backend \<Rightarrow> bytes \<Rightarrow> bool" where
  "honest_backend C bk pk \<longleftrightarrow> bk_public_hex bk = hex_of pk \<and> length pk = 32 \<and>
     (\<forall>m. length (bk_sign bk m) = 64 \<and> ed_rules C pk (bk_sign bk m) = None \<and> ed_verify C pk (bk_sign bk m) m)"

definition honest_pq :: "crypto \<Rightarrow> pq_backend option \<Rightarrow> bool" where
  "honest_pq C pq \<longleftrightarrow>
     (case pq of
        None \<Rightarrow> True
      | Some q \<Rightarrow> length (pq_public q) = PQ_PK_LEN \<and>
          (\<exists>ver. mldsa65_verify C = Some ver \<and> (\<forall>m. length (pq_sign q m) = PQ_SIG_LEN \<and> ver (pq_public q) (pq_sign q m) m)))"

lemma attest_fields: "lit ''signature'' \<in> set ATTEST" "lit ''signer'' \<in> set ATTEST" "lit ''signature_pq'' \<in> set ATTEST" "lit ''signer_pq'' \<in> set ATTEST"
  by (simp_all add: ATTEST_def)

lemmas content_attest = content_put [OF attest_fields(1)] content_put [OF attest_fields(2)] content_put [OF attest_fields(3)]
  content_put [OF attest_fields(4)] content_pop [OF attest_fields(3)] content_pop [OF attest_fields(4)]

lemma entry_fields: "{lit ''signature'', lit ''signer'', lit ''signature_pq'', lit ''signer_pq''} \<subseteq> set ENTRY_KEYS"
  by (simp add: ENTRY_KEYS_def)

lemma hash_with_utf8: "encodable (hash_with C a p) \<and> utf8 (hash_with C a p) = ascii_bytes (hash_with C a p)"
proof (rule utf8_ascii_eq)
  show "\<forall>c\<in>set (hash_with C a p). c < 128"
    using hex_of_fullmatch [OF refl, of "hash_fun C a p"] by (auto simp: hash_with_def hex_fullmatch_def list_all_iff lower_hex_def)
qed

text \<open>What signing changes in an entry: only the four attestation fields.\<close>

lemma sign_entry_frame:
  assumes "sign_entry C bk pq e = Inr e'"
  shows "canonical_payload e' = canonical_payload e" "set (map fst e') \<subseteq> set (map fst e) \<union> set ENTRY_KEYS"
    "k \<notin> {''signature'', ''signer'', ''signature_pq'', ''signer_pq''} \<Longrightarrow> get e' k = get e k"
proof -
  have shape: "(\<exists>v w. e' = pop (pop (put (put e ''signature'' v) ''signer'' w) ''signature_pq'') ''signer_pq'') \<or>
    (\<exists>v w x y. e' = put (put (put (put e ''signature'' v) ''signer'' w) ''signature_pq'' x) ''signer_pq'' y)"
    using assms unfolding sign_entry_def Let_def by (simp split: if_splits option.splits) blast+
  then show "canonical_payload e' = canonical_payload e" by (auto simp: canonical_payload_def content_attest)
  have keys: "set (map fst (pop (pop e1 j) k)) \<subseteq> set (map fst e1)" for e1 j k using keys_pop by blast
  show "set (map fst e') \<subseteq> set (map fst e) \<union> set ENTRY_KEYS"
    using shape
  proof (elim disjE exE)
    fix v w assume e': "e' = pop (pop (put (put e ''signature'' v) ''signer'' w) ''signature_pq'') ''signer_pq''"
    show ?thesis using keys [of "put (put e ''signature'' v) ''signer'' w"] entry_fields unfolding e' keys_put by blast
  next
    fix v w x y assume e': "e' = put (put (put (put e ''signature'' v) ''signer'' w) ''signature_pq'' x) ''signer_pq'' y"
    show ?thesis using entry_fields unfolding e' keys_put by blast
  qed
  show "get e' k = get e k" if "k \<notin> {''signature'', ''signer'', ''signature_pq'', ''signer_pq''}"
    using shape that by auto
qed

lemma sign_entry_signed:
  assumes "honest_backend C bk pk" "honest_pq C pq" "get e ''self_hash'' = JStr (hash_with C a (canonical_payload e))"
    "\<forall>m. length (hash_fun C a m) = 32"
  obtains e' where "sign_entry C bk pq e = Inr e'" "ed_signed C (Some (hex_of pk)) e'"
    "case pq of None \<Rightarrow> pq_absent e' | Some q \<Rightarrow> pq_signed C (Some (b64encode (pq_public q))) e'"
proof -
  let ?sh = "hash_with C a (canonical_payload e)" and ?bytes = "ascii_bytes (hash_with C a (canonical_payload e))"
  have sh: "?sh \<noteq> []" using assms(4) by (auto simp: hash_with_def simp flip: length_greater_0_conv)
  have u: "encodable ?sh" "utf8 ?sh = ?bytes" using hash_with_utf8 by blast+
  have k: "octets (bk_public_hex bk) = pk" "bk_public_hex bk = hex_of pk" "length pk = 32" using assms(1) by (simp_all add: honest_backend_def)
  have sig: "length (bk_sign bk ?bytes) = 64" "ed_rules C pk (bk_sign bk ?bytes) = None" "ed_verify C pk (bk_sign bk ?bytes) ?bytes"
    using assms(1) by (simp_all add: honest_backend_def)
  obtain e' where e': "sign_entry C bk pq e = Inr e'" "get e' ''signature'' = JStr (b64encode (bk_sign bk ?bytes))" "get e' ''signer'' = JStr (hex_of pk)"
    "case pq of None \<Rightarrow> pq_absent e'
     | Some q \<Rightarrow> get e' ''signer_pq'' = JStr (b64encode (pq_public q)) \<and> get e' ''signature_pq'' = JStr (b64encode (pq_sign q ?bytes))"
    using sh u k sig assms(2,3)
    by (cases pq) (auto simp: sign_entry_def Let_def honest_pq_def is_str_def text_of_def pq_absent_def)
  have h: "get e' ''self_hash'' = JStr ?sh" using sign_entry_frame(3) [OF e'(1), of "''self_hash''"] assms(3) by simp
  have "canonical_payload e' = canonical_payload e" by (rule sign_entry_frame(1) [OF e'(1)])
  then have "ed_signed C (Some (hex_of pk)) e'"
    unfolding ed_signed_def using e'(2,3) h sh k(3) sig by (cases a) auto
  moreover have "case pq of None \<Rightarrow> pq_absent e' | Some q \<Rightarrow> pq_signed C (Some (b64encode (pq_public q))) e'"
    using e'(4) assms(2) h by (cases pq) (auto simp: honest_pq_def pq_signed_def pq_fields_def text_of_def)
  ultimately show thesis using that e'(1) by blast
qed

lemma sign_lines_ok:
  assumes "\<forall>e\<in>set es. \<exists>e'. sign_entry C bk pq e = Inr e' \<and> P e e'"
  shows "\<exists>es'. sign_lines C bk pq i (map (\<lambda>e. Value (JObj e)) es) = Inr es' \<and>
    list_all2 (\<lambda>e e'. sign_entry C bk pq e = Inr e' \<and> P e e') es es'"
  using assms by (induction es arbitrary: i) (fastforce split: json.splits)+

lemma sign_lines_chain:
  assumes "list_all2 (\<lambda>e e'. sign_entry C bk pq e = Inr e') es es'" "valid_chain C a es"
  shows "valid_chain C a es'"
proof -
  have len: "length es' = length es" using assms(1) list_all2_lengthD by metis
  have s: "sign_entry C bk pq (es ! i) = Inr (es' ! i)" if "i < length es" for i using assms(1) that by (simp add: list_all2_conv_all_nth)
  have prev: "expected_prev es' i = expected_prev es i" if "i < length es" for i
    using sign_entry_frame(3) [OF s [of "i - 1"], of "''self_hash''"] that by (auto simp: expected_prev_def)
  have "valid_entry C a es' i" if "i < length es" for i
    using assms(2) that sign_entry_frame(1,2) [OF s [OF that]] sign_entry_frame(3) [OF s [OF that], of "''idx''"]
      sign_entry_frame(3) [OF s [OF that], of "''self_hash''"] sign_entry_frame(3) [OF s [OF that], of "''prev_hash''"] prev [OF that]
    unfolding valid_chain_def valid_entry_def Let_def by auto
  then show ?thesis using assms(2) len unfolding valid_chain_def by auto
qed

text \<open>
  C17. Signing and verifying: for a valid chain and backends whose signatures verify, \<^verbatim>\<open>sign_ledger\<close> signs every entry, the
  signed ledger is still a valid chain (the signatures stand outside the content hash), \<^verbatim>\<open>verify_ledger_signatures\<close> with the
  backend's keys reports ok, and a hybrid ledger is reported as protected.
\<close>

theorem signed_ledger_verifies:
  assumes "honest_backend C bk pk" "honest_pq C pq" "valid_chain C a es" "\<forall>m. length (hash_fun C a m) = 32"
  shows "\<exists>es' r. sign_lines C bk pq 0 (map (\<lambda>e. Value (JObj e)) es) = Inr es' \<and> valid_chain C a es' \<and>
    verify_ledger_signatures C (map (\<lambda>e. Value (JObj e)) es') (Some (hex_of pk)) (map_option (\<lambda>q. b64encode (pq_public q)) pq) (pq \<noteq> None) = Inr r \<and>
    sig_ok r \<and> (pq \<noteq> None \<longrightarrow> rep_pq_protected r = Some True)"
proof -
  let ?P = "\<lambda>e'. ed_signed C (Some (hex_of pk)) e' \<and> (case pq of None \<Rightarrow> pq_absent e' | Some q \<Rightarrow> pq_signed C (Some (b64encode (pq_public q))) e')"
  let ?pq = "map_option (\<lambda>q. b64encode (pq_public q)) pq"
  have "get e ''self_hash'' = JStr (hash_with C a (canonical_payload e))" if "e \<in> set es" for e
    using assms(3) that by (auto simp: valid_chain_def valid_entry_def Let_def in_set_conv_nth)
  then have "\<forall>e\<in>set es. \<exists>e'. sign_entry C bk pq e = Inr e' \<and> ?P e'"
    using sign_entry_signed [OF assms(1,2) _ assms(4)] by metis
  from sign_lines_ok [OF this, of 0] obtain es' where es': "sign_lines C bk pq 0 (map (\<lambda>e. Value (JObj e)) es) = Inr es'"
    "list_all2 (\<lambda>e e'. sign_entry C bk pq e = Inr e' \<and> ?P e') es es'" by blast
  have chain: "valid_chain C a es'" by (rule sign_lines_chain [OF _ assms(3)]) (use es'(2) in \<open>auto elim: list_all2_mono\<close>)
  have P: "\<forall>e'\<in>set es'. ?P e'" using es'(2) by (auto simp: list_all2_conv_all_nth in_set_conv_nth)
  have g: "given (Some (hex_of pk))" "given ?pq \<longleftrightarrow> pq \<noteq> None"
    using assms(1,2) b64encode_nonempty PQ_lens by (auto simp: given_def honest_backend_def honest_pq_def simp flip: length_greater_0_conv split: option.splits)
  have args: "arguments_ok (Some (hex_of pk)) ?pq (pq \<noteq> None)"
    using g assms(2) by (auto simp: arguments_ok_def honest_pq_def split: option.splits)
  then obtain r where r: "verify_ledger_signatures C (map (\<lambda>e. Value (JObj e)) es') (Some (hex_of pk)) ?pq (pq \<noteq> None) = Inr r"
    using verify_ledger_signatures_args by blast
  have ne: "es' \<noteq> []" using chain by (simp add: valid_chain_def)
  have "sig_ok r" unfolding sig_ok_spec [OF r] using P ne g(2) by (cases pq) (auto simp: list_all_iff pq_tolerated_def)
  moreover have "rep_pq_protected r = Some True" if "pq \<noteq> None"
    unfolding pq_protected_spec [OF r] using P ne g(2) that by (auto simp: list_all_iff)
  ultimately show ?thesis using es'(1) chain r by blast
qed

definition example_backend :: backend where
  "example_backend = \<lparr>bk_public_hex = hex_of example_pk, bk_sign = example_sign example_pk\<rparr>"

lemma example_backend_honest: "honest_backend example_crypto example_backend example_pk"
  by (simp add: honest_backend_def example_backend_def example_crypto_def example_pk_def example_sign_def)

theorem signed_ledger_verifies_witness:
  "honest_backend example_crypto example_backend example_pk \<and>
    (\<exists>es' r. sign_lines example_crypto example_backend None 0 (map (\<lambda>e. Value (JObj e)) example_ledger) = Inr es' \<and> valid_chain example_crypto Sha256 es' \<and>
      verify_ledger_signatures example_crypto (map (\<lambda>e. Value (JObj e)) es') (Some (hex_of example_pk)) None False = Inr r \<and> sig_ok r)"
proof -
  have len: "\<forall>m. length (hash_fun example_crypto Sha256 m) = 32" by (simp add: hash_fun_def example_crypto_def)
  have "honest_pq example_crypto None" by (simp add: honest_pq_def)
  from signed_ledger_verifies [OF example_backend_honest this example_ledger_valid len] example_backend_honest show ?thesis by auto
qed

end
