(* ===== verification/Py_Bytes.thy ===== *)
theory Py_Bytes
  imports Py_Utf8
begin

text \<open>
  Fixed-width integers in octets (\<^verbatim>\<open>struct.pack(">Q")\<close>, \<^verbatim>\<open>int.to_bytes(n, "big")\<close>), and the string operations \<^verbatim>\<open>split\<close> and
  \<^verbatim>\<open>rfind\<close> on a separator.
\<close>

section \<open>Big-endian integers\<close>

fun be_bytes :: "nat \<Rightarrow> nat \<Rightarrow> bytes" where
  "be_bytes 0 n = []"
| "be_bytes (Suc k) n = be_bytes k (n div 256) @ [of_nat (n mod 256)]"

definition be_val :: "bytes \<Rightarrow> nat" where
  "be_val bs = foldl (\<lambda>acc b. 256 * acc + unat b) 0 bs"

lemma length_be_bytes [simp]: "length (be_bytes k n) = k"
  by (induction k arbitrary: n) auto

lemma be_val_snoc: "be_val (bs @ [b]) = 256 * be_val bs + unat b"
  by (simp add: be_val_def)

lemma be_val_less: "be_val bs < 256 ^ length bs"
proof (induction bs rule: rev_induct)
  case (snoc b bs)
  then have "256 * be_val bs + 256 \<le> 256 * 256 ^ length bs" by linarith
  moreover have "unat b < 256" using unat_byte [of b] by simp
  ultimately show ?case unfolding be_val_snoc by simp
qed (simp add: be_val_def)

lemma be_val_bytes: "n < 256 ^ k \<Longrightarrow> be_val (be_bytes k n) = n"
proof (induction k arbitrary: n)
  case (Suc k)
  then have "n div 256 < 256 ^ k" by (simp add: less_mult_imp_div_less mult.commute)
  moreover have "unat (of_nat (n mod 256) :: byte) = n mod 256" by (simp add: unat_byte_of_nat)
  ultimately show ?case using Suc.IH by (simp add: be_val_snoc)
qed (simp add: be_val_def)

lemma be_bytes_val: "be_bytes (length bs) (be_val bs) = bs"
proof (induction bs rule: rev_induct)
  case (snoc b bs)
  have "unat b < 256" using unat_byte [of b] by simp
  then have "be_val (bs @ [b]) div 256 = be_val bs" "be_val (bs @ [b]) mod 256 = unat b"
    unfolding be_val_snoc by auto
  then show ?case using snoc by simp
qed simp

text \<open>\<^verbatim>\<open>struct.pack(">Q", n)\<close> and its inverse.\<close>

interpretation be64: codec "be_bytes 8" "\<lambda>bs. if length bs = 8 then Some (be_val bs) else None" "\<lambda>n. n < 2 ^ 64"
  by unfold_locales (simp add: be_val_bytes)

section \<open>Splitting\<close>

text \<open>\<^verbatim>\<open>s.split(c)\<close> for a single character: never an empty list.\<close>

fun split_on :: "nat \<Rightarrow> pystr \<Rightarrow> pystr list" where
  "split_on c [] = [[]]"
| "split_on c (x # s) =
     (if x = c then [] # split_on c s
      else case split_on c s of p # ps \<Rightarrow> (x # p) # ps | [] \<Rightarrow> [[x]])"

lemma split_on_nonempty [simp]: "split_on c s \<noteq> []"
  by (cases s) (auto split: list.splits)

lemma split_on_no_sep: "c \<notin> set p \<Longrightarrow> split_on c p = [p]"
  by (induction p) auto

lemma split_on_append: "c \<notin> set p \<Longrightarrow> split_on c (p @ c # s) = p # split_on c s"
  by (induction p) auto

lemma split_on_join:
  assumes "ps \<noteq> []" "\<forall>p\<in>set ps. c \<notin> set p"
  shows "split_on c (join [c] ps) = ps"
  using assms
proof (induction ps)
  case (Cons p ps)
  then show ?case by (cases "ps = []") (auto simp: join_Cons split_on_no_sep split_on_append)
qed simp

lemma join_split_on: "join [c] (split_on c s) = s"
proof (induction s)
  case (Cons x s)
  obtain p ps where ps: "split_on c s = p # ps" using split_on_nonempty by (metis list.exhaust)
  with Cons show ?case by (cases "ps = []") (auto simp: join_Cons)
qed simp

lemma split_on_parts: "p \<in> set (split_on c s) \<Longrightarrow> c \<notin> set p \<and> set p \<subseteq> set s"
proof (induction s arbitrary: p)
  case (Cons x s)
  obtain q qs where qs: "split_on c s = q # qs" using split_on_nonempty by (metis list.exhaust)
  have q: "c \<notin> set q" "set q \<subseteq> set s" using Cons.IH [of q] qs by simp_all
  have rest: "c \<notin> set r \<and> set r \<subseteq> set s" if "r \<in> set (split_on c s)" for r using Cons.IH that by blast
  show ?case
  proof (cases "x = c \<or> p \<noteq> x # q")
    case True
    then have "p = [] \<or> p \<in> set (split_on c s)" using Cons.prems qs by (auto split: if_splits)
    then show ?thesis using rest by fastforce
  next
    case False
    then show ?thesis using q by auto
  qed
qed simp

lemma split_on_inj: "split_on c s = split_on c t \<Longrightarrow> s = t"
  by (metis join_split_on)

text \<open>\<^verbatim>\<open>s.rfind(c + c)\<close>: the last place where the character stands twice.\<close>

fun rfind_pair :: "nat \<Rightarrow> pystr \<Rightarrow> nat option" where
  "rfind_pair c [] = None"
| "rfind_pair c (x # s) =
     (case rfind_pair c s of
        Some i \<Rightarrow> Some (Suc i)
      | None \<Rightarrow> if x = c \<and> s \<noteq> [] \<and> hd s = c then Some 0 else None)"

lemma rfind_pair_last: "rfind_pair c (c # u) = None \<Longrightarrow> rfind_pair c (t @ c # c # u) = Some (length t)"
  by (induction t) (auto split: option.splits)

lemma rfind_pair_Some:
  "rfind_pair c s = Some i \<Longrightarrow> \<exists>t u. s = t @ c # c # u \<and> length t = i \<and> rfind_pair c (c # u) = None"
proof (induction s arbitrary: i)
  case (Cons x s)
  show ?case
  proof (cases "rfind_pair c s")
    case None
    then have "i = 0" "x = c" "s \<noteq> []" "hd s = c" using Cons.prems by (auto split: if_splits)
    then obtain u where "s = c # u" by (cases s) auto
    with None \<open>i = 0\<close> \<open>x = c\<close> show ?thesis by (intro exI [of _ "[]"] exI [of _ u]) simp
  next
    case (Some j)
    then obtain t u where "s = t @ c # c # u" "length t = j" "rfind_pair c (c # u) = None" using Cons.IH by blast
    with Some Cons.prems show ?thesis by (intro exI [of _ "x # t"] exI [of _ u]) simp
  qed
qed simp

text \<open>Lines that are not empty, each ended by the separator, hold no empty line.\<close>

definition ended :: "nat \<Rightarrow> pystr list \<Rightarrow> pystr" where
  "ended c ls = concat (map (\<lambda>l. l @ [c]) ls)"

lemma ended_Cons [simp]: "ended c (l # ls) = l @ c # ended c ls" "ended c [] = []"
  by (simp_all add: ended_def)

lemma rfind_pair_line: "c \<notin> set l \<Longrightarrow> rfind_pair c (l @ c # s) = map_option (\<lambda>i. i + length l) (rfind_pair c (c # s))"
  by (induction l) (auto split: option.splits)

lemma rfind_pair_ended: "\<forall>l\<in>set ls. l \<noteq> [] \<and> c \<notin> set l \<Longrightarrow> rfind_pair c (c # ended c ls) = None"
proof (induction ls)
  case (Cons l ls)
  then have "rfind_pair c (ended c (l # ls)) = None" by (simp add: rfind_pair_line)
  moreover have "hd (ended c (l # ls)) \<noteq> c" using Cons.prems by (cases l) auto
  ultimately show ?case by simp
qed simp

lemma split_on_ended: "ls \<noteq> [] \<Longrightarrow> \<forall>l\<in>set ls. c \<notin> set l \<Longrightarrow> split_on c (butlast (ended c ls)) = ls"
proof (induction ls)
  case (Cons l ls)
  then show ?case
  proof (cases "ls = []")
    case False
    then have "ended c ls \<noteq> []" by (cases ls) auto
    then have "butlast (ended c (l # ls)) = l @ c # butlast (ended c ls)" by (simp add: butlast_append)
    with False Cons show ?thesis by (simp add: split_on_append)
  qed (simp add: split_on_no_sep butlast_append)
qed simp

section \<open>Decimal lengths\<close>

lemma length_nat_str: "n < 10 ^ Suc k \<Longrightarrow> length (nat_str n) \<le> Suc k"
proof (induction k arbitrary: n)
  case (Suc k)
  show ?case
  proof (cases "n < 10")
    case False
    have "n div 10 < 10 ^ Suc k" using Suc.prems by (simp add: less_mult_imp_div_less mult.commute)
    from Suc.IH [OF this] False show ?thesis by (subst nat_str.simps) simp
  qed (subst nat_str.simps, simp)
qed (subst nat_str.simps, simp)

end
