(* ===== verification/Merkle.thy ===== *)
theory Merkle
  imports Prelude
begin

text \<open>
  The RFC 6962 Merkle extension (\<^verbatim>\<open>src/cryptovalid_merkle.py\<close>): tree hash, audit paths, append-only
  proofs, and the two verification loops over the bits of the leaf index and of the tree size. The
  SHA-256 function is the parameter \<open>H\<close>; sizes and indices are Python integers, so \<open>int\<close>, and a failed
  \<^verbatim>\<open>assert\<close> is \<open>None\<close>.
\<close>

section \<open>Tree hash and proofs\<close>

definition leaf_hash :: "hashf \<Rightarrow> bytes \<Rightarrow> bytes" where
  "leaf_hash H data = H (0 # data)"

definition node_hash :: "hashf \<Rightarrow> bytes \<Rightarrow> bytes \<Rightarrow> bytes" where
  "node_hash H left right = H (1 # left @ right)"

text \<open>The loop \<^verbatim>\<open>while k < n: k <<= 1\<close>, entered with \<open>k = 1\<close>, so never with \<open>k = 0\<close>.\<close>

function pow2_loop :: "nat \<Rightarrow> nat \<Rightarrow> nat" where
  "pow2_loop k n = (if k < n \<and> k \<noteq> 0 then pow2_loop (push_bit 1 k) n else k)"
  by pat_completeness auto
termination
  by (relation "measure (\<lambda>(k, n). n - k)") (auto simp: push_bit_eq_mult)

declare pow2_loop.simps [simp del]

definition largest_pow2_below :: "nat \<Rightarrow> nat" where
  "largest_pow2_below n = drop_bit 1 (pow2_loop 1 n)"

lemma pow2_loop_power: "\<exists>j. pow2_loop (2 ^ i) n = 2 ^ j \<and> n \<le> 2 ^ j \<and> (i < j \<longrightarrow> 2 ^ (j - 1) < n) \<and> i \<le> j"
proof (induction "n - 2 ^ i" arbitrary: i rule: less_induct)
  case less
  show ?case
  proof (cases "2 ^ i < n")
    case True
    have "n - 2 ^ Suc i < n - 2 ^ i" using True by (simp add: diff_less_mono2)
    from less.hyps [OF this] obtain j where
      j: "pow2_loop (2 ^ Suc i) n = 2 ^ j" "n \<le> 2 ^ j" "Suc i < j \<longrightarrow> 2 ^ (j - 1) < n" "Suc i \<le> j"
      by auto
    have "pow2_loop (2 ^ i) n = pow2_loop (2 ^ Suc i) n"
      using True by (subst pow2_loop.simps) (simp add: push_bit_eq_mult mult.commute)
    moreover have "2 ^ (j - 1) < n"
      using j True by (cases "j = Suc i") auto
    ultimately show ?thesis using j by (intro exI [of _ j]) auto
  next
    case False
    then have "pow2_loop (2 ^ i) n = 2 ^ i" by (subst pow2_loop.simps) simp
    with False show ?thesis by (intro exI [of _ i]) auto
  qed
qed

lemma largest_pow2_below_power:
  assumes "2 \<le> n"
  obtains j where "largest_pow2_below n = 2 ^ j" "2 ^ j < n" "n \<le> 2 ^ Suc j"
proof -
  from pow2_loop_power [of 0 n] obtain i where
    i: "pow2_loop 1 n = 2 ^ i" "n \<le> 2 ^ i" "0 < i \<longrightarrow> 2 ^ (i - 1) < n" by auto
  have "i \<noteq> 0" using i(2) assms by (cases i) auto
  then obtain j where j: "i = Suc j" by (cases i) auto
  show thesis
    by (rule that [of j]) (use i j in \<open>auto simp: largest_pow2_below_def drop_bit_eq_div\<close>)
qed

lemma largest_pow2_below_bounds:
  assumes "2 \<le> n"
  shows "0 < largest_pow2_below n" "largest_pow2_below n < n" "n - largest_pow2_below n \<le> largest_pow2_below n"
  using largest_pow2_below_power [OF assms] by (metis zero_less_power zero_less_numeral,
    metis, smt (verit) le_diff_conv mult_2 power_Suc)

lemma length_ge_2: "xs \<noteq> [] \<Longrightarrow> length xs \<noteq> Suc 0 \<Longrightarrow> 2 \<le> length xs"
  by (cases xs) (auto simp: Suc_le_eq)

lemma split_shorter:
  assumes "2 \<le> n"
  shows "min n (largest_pow2_below n) < n" "n - largest_pow2_below n < n"
  using largest_pow2_below_bounds [OF assms] by auto

text \<open>\<^verbatim>\<open>mth\<close>: the Merkle tree hash of a list of leaf data.\<close>

function mth :: "hashf \<Rightarrow> bytes list \<Rightarrow> bytes" where
  "mth H leaves =
     (let n = length leaves in
      if n = 0 then H []
      else if n = 1 then leaf_hash H (leaves ! 0)
      else let k = largest_pow2_below n in node_hash H (mth H (take k leaves)) (mth H (drop k leaves)))"
  by pat_completeness auto
termination
  by (relation "measure (\<lambda>(H, leaves). length leaves)") (auto intro!: split_shorter length_ge_2)

declare mth.simps [simp del]

function inclusion_proof :: "hashf \<Rightarrow> int \<Rightarrow> bytes list \<Rightarrow> bytes list option" where
  "inclusion_proof H m leaves =
     (let n = length leaves in
      if \<not> (0 \<le> m \<and> m < int n) then None
      else if n = 1 then Some []
      else let k = largest_pow2_below n in
        if m < int k
        then map_option (\<lambda>p. p @ [mth H (drop k leaves)]) (inclusion_proof H m (take k leaves))
        else map_option (\<lambda>p. p @ [mth H (take k leaves)]) (inclusion_proof H (m - int k) (drop k leaves)))"
  by pat_completeness auto
termination
  by (relation "measure (\<lambda>(H, m, leaves). length leaves)") (auto intro!: split_shorter length_ge_2)

declare inclusion_proof.simps [simp del]

text \<open>The inner loop \<^verbatim>\<open>while not (fn & 1) and fn != 0\<close> of both verifiers.\<close>

function strip_even :: "int \<Rightarrow> int \<Rightarrow> int \<times> int" where
  "strip_even fn sn =
     (if even fn \<and> fn \<noteq> 0 then strip_even (drop_bit 1 fn) (drop_bit 1 sn) else (fn, sn))"
  by pat_completeness auto
termination
  by (relation "measure (\<lambda>(fn, sn). nat \<bar>fn\<bar>)") (auto simp: drop_bit_eq_div)

declare strip_even.simps [simp del]

text \<open>One iteration of the loop over the audit path, and the client algorithm.\<close>

fun inclusion_step :: "hashf \<Rightarrow> int \<times> int \<times> bytes \<Rightarrow> bytes \<Rightarrow> int \<times> int \<times> bytes" where
  "inclusion_step H (fn, sn, h) p =
     (if fn = sn \<or> odd fn
      then (let (fn', sn') = strip_even fn sn in (drop_bit 1 fn', drop_bit 1 sn', node_hash H p h))
      else (drop_bit 1 fn, drop_bit 1 sn, node_hash H h p))"

definition verify_inclusion :: "hashf \<Rightarrow> int \<Rightarrow> int \<Rightarrow> bytes \<Rightarrow> bytes list \<Rightarrow> bytes \<Rightarrow> bool" where
  "verify_inclusion H m n leaf_data proof root =
     (if m \<ge> n then False
      else let (fn, sn, h) = foldl (inclusion_step H) (m, n - 1, leaf_hash H leaf_data) proof
           in sn = 0 \<and> h = root)"

text \<open>
  Append-only proofs. \<^verbatim>\<open>_subproof\<close> is called with \<open>0 < m \<le> n\<close> only, so a list of fewer than two leaves
  is met with \<open>m = n\<close>; any other such call of the source would recurse forever and is \<open>None\<close> here.
\<close>

function subproof :: "hashf \<Rightarrow> int \<Rightarrow> bytes list \<Rightarrow> bool \<Rightarrow> bytes list option" where
  "subproof H m leaves b =
     (let n = length leaves in
      if m = int n then Some (if b then [] else [mth H leaves])
      else if n < 2 then None
      else let k = largest_pow2_below n in
        if m \<le> int k
        then map_option (\<lambda>p. p @ [mth H (drop k leaves)]) (subproof H m (take k leaves) b)
        else map_option (\<lambda>p. p @ [mth H (take k leaves)]) (subproof H (m - int k) (drop k leaves) False))"
  by pat_completeness auto
termination
  by (relation "measure (\<lambda>(H, m, leaves, b). length leaves)")
    (auto simp: not_less intro!: split_shorter)

declare subproof.simps [simp del]

definition consistency_proof :: "hashf \<Rightarrow> int \<Rightarrow> bytes list \<Rightarrow> bytes list option" where
  "consistency_proof H m leaves =
     (let n = int (length leaves) in
      if \<not> (0 < m \<and> m \<le> n) then None
      else if m = n then Some []
      else subproof H m leaves True)"

text \<open>
  The loop \<^verbatim>\<open>while fn & 1\<close>. It does not end on \<open>fn = -1\<close>, which is \<open>m = 0\<close> and is refused before.
\<close>

function strip_odd :: "int \<Rightarrow> int \<Rightarrow> int \<times> int" where
  "strip_odd fn sn =
     (if odd fn \<and> fn \<noteq> - 1 then strip_odd (drop_bit 1 fn) (drop_bit 1 sn) else (fn, sn))"
  by pat_completeness auto
termination
  by (relation "measure (\<lambda>(fn, sn). nat \<bar>fn\<bar>)") (auto simp: drop_bit_eq_div elim!: oddE, presburger)

declare strip_odd.simps [simp del]

text \<open>The loop over the path; \<open>None\<close> is its early \<^verbatim>\<open>return False\<close>.\<close>

fun consistency_run :: "hashf \<Rightarrow> int \<Rightarrow> int \<Rightarrow> bytes \<Rightarrow> bytes \<Rightarrow> bytes list \<Rightarrow> (int \<times> int \<times> bytes \<times> bytes) option" where
  "consistency_run H fn sn fr sr [] = Some (fn, sn, fr, sr)"
| "consistency_run H fn sn fr sr (c # cs) =
     (if sn = 0 then None
      else if odd fn \<or> fn = sn
      then (let (fn', sn') = strip_even fn sn
            in consistency_run H (drop_bit 1 fn') (drop_bit 1 sn') (node_hash H c fr) (node_hash H c sr) cs)
      else consistency_run H (drop_bit 1 fn) (drop_bit 1 sn) fr (node_hash H sr c) cs)"

definition verify_consistency :: "hashf \<Rightarrow> int \<Rightarrow> int \<Rightarrow> bytes list \<Rightarrow> bytes \<Rightarrow> bytes \<Rightarrow> bool" where
  "verify_consistency H m n proof old_root new_root =
     (if m = 0 \<or> m > n then False
      else if m = n then proof = [] \<and> old_root = new_root
      else let p = (if and m (m - 1) = 0 then old_root # proof else proof) in
        case p of
          [] \<Rightarrow> False
        | p0 # cs \<Rightarrow>
            let (fn, sn) = strip_odd (m - 1) (n - 1) in
            case consistency_run H fn sn p0 p0 cs of
              None \<Rightarrow> False
            | Some (fn', sn', fr, sr) \<Rightarrow> sn' = 0 \<and> fr = old_root \<and> sr = new_root)"

datatype consistency_outcome = Could_Not_Compare | Consistent | Inconsistent

text \<open>
  \<^verbatim>\<open>consistency_verdict\<close>. Sizes arrive from JSON, so the type test of the source is on JSON values: a
  Boolean or anything that is not an integer cannot be compared.
\<close>

definition consistency_verdict :: "hashf \<Rightarrow> json \<Rightarrow> json \<Rightarrow> bytes list \<Rightarrow> bytes \<Rightarrow> bytes \<Rightarrow> consistency_outcome" where
  "consistency_verdict H m n proof old_root new_root =
     (case (m, n) of
        (JInt m', JInt n') \<Rightarrow>
          if m' \<le> 0 \<or> m' > n' then Could_Not_Compare
          else if verify_consistency H m' n' proof old_root new_root then Consistent else Inconsistent
      | _ \<Rightarrow> Could_Not_Compare)"

section \<open>The tree as the code splits it\<close>

lemma largest_pow2_below_unique:
  assumes "2 ^ j < n" "n \<le> 2 ^ Suc j"
  shows "largest_pow2_below n = 2 ^ j"
proof -
  have "2 \<le> n" using assms(1) by (metis Suc_1 Suc_leI le_less_trans one_le_numeral one_le_power)
  then obtain i where i: "largest_pow2_below n = 2 ^ i" "2 ^ i < n" "n \<le> 2 ^ Suc i"
    by (rule largest_pow2_below_power)
  have "(2::nat) ^ i < 2 ^ Suc j" "(2::nat) ^ j < 2 ^ Suc i" using assms i by linarith+
  then have "i < Suc j" "j < Suc i" by (metis one_less_numeral_iff power_strict_increasing_iff semiring_norm(76))+
  then show ?thesis using i(1) by simp
qed

lemma mth_Nil: "mth H [] = H []"
  by (simp add: mth.simps)

lemma mth_single: "length D = 1 \<Longrightarrow> mth H D = leaf_hash H (D ! 0)"
  by (simp add: mth.simps)

lemma mth_split:
  "2 \<le> length D \<Longrightarrow> k = largest_pow2_below (length D) \<Longrightarrow>
   mth H D = node_hash H (mth H (take k D)) (mth H (drop k D))"
  by (subst mth.simps) (auto simp: Let_def)

lemma mth_split_at:
  assumes "2 ^ j < length D" "length D \<le> 2 ^ Suc j"
  shows "mth H D = node_hash H (mth H (take (2 ^ j) D)) (mth H (drop (2 ^ j) D))"
  by (rule mth_split) (use assms largest_pow2_below_unique in
    \<open>auto simp: Suc_le_eq intro: le_less_trans [of _ "2 ^ j"]\<close>)

lemma inclusion_proof_single: "length D = 1 \<Longrightarrow> inclusion_proof H m D = (if m = 0 then Some [] else None)"
  by (subst inclusion_proof.simps) auto

lemma inclusion_proof_left:
  assumes "2 ^ j < length D" "length D \<le> 2 ^ Suc j" "0 \<le> m" "m < 2 ^ j"
  shows "inclusion_proof H m D =
    map_option (\<lambda>p. p @ [mth H (drop (2 ^ j) D)]) (inclusion_proof H m (take (2 ^ j) D))"
proof -
  have "m < int (length D)" using assms(1,4) by (simp add: order.strict_trans)
  moreover have "length D \<noteq> 1" using assms(1) by (metis less_one power_eq_0_iff zero_neq_numeral)
  ultimately show ?thesis
    using assms by (subst inclusion_proof.simps) (simp add: Let_def largest_pow2_below_unique)
qed

lemma inclusion_proof_right:
  assumes "2 ^ j < length D" "length D \<le> 2 ^ Suc j" "2 ^ j \<le> m" "m < int (length D)"
  shows "inclusion_proof H m D =
    map_option (\<lambda>p. p @ [mth H (take (2 ^ j) D)]) (inclusion_proof H (m - 2 ^ j) (drop (2 ^ j) D))"
proof -
  have "0 \<le> m" using assms(3) by (meson order.trans zero_le_numeral zero_le_power)
  moreover have "length D \<noteq> 1" using assms(1) by (metis less_one power_eq_0_iff zero_neq_numeral)
  ultimately show ?thesis
    using assms by (subst inclusion_proof.simps) (simp add: Let_def largest_pow2_below_unique not_less)
qed

lemma inclusion_proof_defined: "(\<exists>p. inclusion_proof H m D = Some p) \<longleftrightarrow> 0 \<le> m \<and> m < int (length D)"
proof (induction H m D rule: inclusion_proof.induct)
  case (1 H m D)
  show ?case
  proof (cases "0 \<le> m \<and> m < int (length D)")
    case True
    then show ?thesis
    proof (cases "length D = 1")
      case False
      have two: "2 \<le> length D" using True False by linarith
      note b = largest_pow2_below_bounds [OF two]
      show ?thesis
        using True False 1 b by (subst inclusion_proof.simps) (auto simp: Let_def split: if_splits)
    qed (subst inclusion_proof.simps, simp)
  qed (subst inclusion_proof.simps, simp)
qed

lemma strip_even_pow: "odd k \<Longrightarrow> strip_even (k * 2 ^ s) x = (k, drop_bit s x)"
proof (induction s arbitrary: x)
  case 0
  then show ?case by (subst strip_even.simps) simp
next
  case (Suc s)
  have "k \<noteq> 0" using Suc.prems by auto
  moreover have "drop_bit 1 (k * 2 ^ Suc s) = k * 2 ^ s" by (simp add: drop_bit_eq_div)
  ultimately show ?case
    using Suc by (subst strip_even.simps) (simp add: drop_bit_drop_bit [symmetric])
qed

lemma strip_even_odd: "odd k \<Longrightarrow> strip_even k x = (k, x)"
  by (subst strip_even.simps) simp

lemma halves: "drop_bit (Suc 0) (2 * a :: int) = a" "drop_bit (Suc 0) (2 * a + 1 :: int) = a"
  by (simp_all add: drop_bit_eq_div)

lemma pow_less_int: "2 ^ j < n \<Longrightarrow> (2::int) ^ j < int n"
  by (metis of_nat_less_iff of_nat_numeral of_nat_power)

lemma pow_ge_int: "n \<le> 2 ^ j \<Longrightarrow> int n \<le> (2::int) ^ j"
  by (metis of_nat_le_iff of_nat_numeral of_nat_power)

lemma low_bits_split:
  fixes r :: int
  assumes "0 \<le> r" "r < 2 ^ Suc j"
  obtains q r' where "r = q * 2 ^ j + r'" "q = 0 \<or> q = 1" "0 \<le> r'" "r' < 2 ^ j"
  using that [of 0 r] that [of 1 "r - 2 ^ j"] assms by (cases "r < 2 ^ j") auto

section \<open>Every generated audit path verifies\<close>

lemma inclusion_steps_perfect:
  assumes "length D = 2 ^ t" "0 \<le> m" "m < 2 ^ t" "0 \<le> a" "a < b" "0 \<le> r" "r < 2 ^ t"
    and "inclusion_proof H m D = Some p"
  shows "foldl (inclusion_step H) (a * 2 ^ t + m, b * 2 ^ t + r, leaf_hash H (D ! nat m)) p = (a, b, mth H D)"
  using assms
proof (induction t arbitrary: D m a b r p)
  case 0
  then have "m = 0" "r = 0" "length D = 1" by auto
  with 0 show ?case by (simp add: inclusion_proof_single mth_single)
next
  case (Suc j)
  from Suc.prems(6,7) obtain q r' where
    r: "r = q * 2 ^ j + r'" "q = 0 \<or> q = 1" "0 \<le> r'" "r' < 2 ^ j" by (rule low_bits_split)
  have len: "2 ^ j < length D" "length D \<le> 2 ^ Suc j" using Suc.prems(1) by auto
  have D: "mth H D = node_hash H (mth H (take (2 ^ j) D)) (mth H (drop (2 ^ j) D))"
    by (rule mth_split_at [OF len])
  have lt: "2 * a + 1 < 2 * b + q" using Suc.prems(5) r(2) by linarith
  show ?case
  proof (cases "m < 2 ^ j")
    case True
    then obtain p' where p': "inclusion_proof H m (take (2 ^ j) D) = Some p'" "p = p' @ [mth H (drop (2 ^ j) D)]"
      using Suc.prems(2,8) inclusion_proof_left [OF len, of m] by auto
    have nth: "take (2 ^ j) D ! nat m = D ! nat m"
      using True Suc.prems(2) by (metis nat_less_numeral_power_cancel_iff nth_take)
    have run: "foldl (inclusion_step H) ((2 * a) * 2 ^ j + m, (2 * b + q) * 2 ^ j + r', leaf_hash H (take (2 ^ j) D ! nat m)) p' =
        (2 * a, 2 * b + q, mth H (take (2 ^ j) D))"
      by (rule Suc.IH) (use Suc.prems True len lt r p' in auto)
    have ctx: "a * 2 ^ Suc j + m = (2 * a) * 2 ^ j + m" "b * 2 ^ Suc j + r = (2 * b + q) * 2 ^ j + r'"
      using r(1) by (simp_all add: algebra_simps)
    show ?thesis
      unfolding ctx p'(2) D foldl_append nth [symmetric] run using lt r(2) by (auto simp: halves)
  next
    case False
    then obtain p' where p': "inclusion_proof H (m - 2 ^ j) (drop (2 ^ j) D) = Some p'" "p = p' @ [mth H (take (2 ^ j) D)]"
      using Suc.prems(1,3,8) inclusion_proof_right [OF len, of m] by auto
    have nth: "drop (2 ^ j) D ! nat (m - 2 ^ j) = D ! nat m"
      using False Suc.prems(1,3) by (simp add: nat_diff_distrib nat_power_eq)
    have run: "foldl (inclusion_step H) ((2 * a + 1) * 2 ^ j + (m - 2 ^ j), (2 * b + q) * 2 ^ j + r',
          leaf_hash H (drop (2 ^ j) D ! nat (m - 2 ^ j))) p' = (2 * a + 1, 2 * b + q, mth H (drop (2 ^ j) D))"
      by (rule Suc.IH) (use Suc.prems False len lt r p' in auto)
    have ctx: "a * 2 ^ Suc j + m = (2 * a + 1) * 2 ^ j + (m - 2 ^ j)" "b * 2 ^ Suc j + r = (2 * b + q) * 2 ^ j + r'"
      using r(1) by (simp_all add: algebra_simps)
    show ?thesis
      unfolding ctx p'(2) D foldl_append nth [symmetric] run using lt r(2) by (auto simp: halves strip_even_odd)
  qed
qed

lemma inclusion_steps_edge:
  assumes "length D \<le> 2 ^ t" "0 \<le> m" "m < int (length D)" "0 \<le> a" "inclusion_proof H m D = Some p"
  shows "\<exists>s. foldl (inclusion_step H) (a * 2 ^ t + m, a * 2 ^ t + int (length D) - 1, leaf_hash H (D ! nat m)) p =
    (a * 2 ^ s, a * 2 ^ s, mth H D)"
  using assms
proof (induction "length D" arbitrary: D t m a p rule: less_induct)
  case less
  show ?case
  proof (cases "length D = 1")
    case True
    with less.prems have "m = 0" by linarith
    with True less.prems show ?thesis by (auto simp: inclusion_proof_single mth_single)
  next
    case False
    then have "2 \<le> length D" using less.prems(2,3) by linarith
    then obtain j where len: "2 ^ j < length D" "length D \<le> 2 ^ Suc j"
      using largest_pow2_below_power by metis
    have "(2::nat) ^ j < 2 ^ t" using len(1) less.prems(1) by (rule less_le_trans)
    then obtain d where t: "t = Suc (j + d)" by (metis less_iff_Suc_add nat_power_less_imp_less zero_less_numeral)
    have D: "mth H D = node_hash H (mth H (take (2 ^ j) D)) (mth H (drop (2 ^ j) D))"
      by (rule mth_split_at [OF len])
    define r where "r = int (length D) - 1 - 2 ^ j"
    have r: "0 \<le> r" "r < 2 ^ j" using pow_less_int [OF len(1)] pow_ge_int [OF len(2)] by (auto simp: r_def)
    let ?a = "2 * (a * 2 ^ d)"
    show ?thesis
    proof (cases "m < 2 ^ j")
      case True
      then obtain p' where p': "inclusion_proof H m (take (2 ^ j) D) = Some p'" "p = p' @ [mth H (drop (2 ^ j) D)]"
        using less.prems(2,5) inclusion_proof_left [OF len, of m] by auto
      have nth: "take (2 ^ j) D ! nat m = D ! nat m"
        using True less.prems(2) by (metis nat_less_numeral_power_cancel_iff nth_take)
      have run: "foldl (inclusion_step H) (?a * 2 ^ j + m, (?a + 1) * 2 ^ j + r, leaf_hash H (take (2 ^ j) D ! nat m)) p' =
          (?a, ?a + 1, mth H (take (2 ^ j) D))"
        by (rule inclusion_steps_perfect) (use less.prems True len r p' in auto)
      have ctx: "a * 2 ^ t + m = ?a * 2 ^ j + m" "a * 2 ^ t + int (length D) - 1 = (?a + 1) * 2 ^ j + r"
        using t by (simp_all add: r_def algebra_simps power_add)
      show ?thesis
        unfolding ctx p'(2) D foldl_append nth [symmetric] run by (auto simp: halves)
    next
      case False
      then obtain p' where p': "inclusion_proof H (m - 2 ^ j) (drop (2 ^ j) D) = Some p'" "p = p' @ [mth H (take (2 ^ j) D)]"
        using less.prems(3,5) inclusion_proof_right [OF len, of m] by auto
      have nth: "drop (2 ^ j) D ! nat (m - 2 ^ j) = D ! nat m"
        using False less.prems(3) len by (simp add: nat_diff_distrib nat_power_eq)
      have "\<exists>s. foldl (inclusion_step H) ((?a + 1) * 2 ^ j + (m - 2 ^ j), (?a + 1) * 2 ^ j + int (length (drop (2 ^ j) D)) - 1,
          leaf_hash H (drop (2 ^ j) D ! nat (m - 2 ^ j))) p' =
          ((?a + 1) * 2 ^ s, (?a + 1) * 2 ^ s, mth H (drop (2 ^ j) D))"
        by (rule less.hyps) (use less.prems False len p' in auto)
      then obtain s where run: "foldl (inclusion_step H) ((?a + 1) * 2 ^ j + (m - 2 ^ j), (?a + 1) * 2 ^ j + int (length (drop (2 ^ j) D)) - 1,
          leaf_hash H (drop (2 ^ j) D ! nat (m - 2 ^ j))) p' =
          ((?a + 1) * 2 ^ s, (?a + 1) * 2 ^ s, mth H (drop (2 ^ j) D))" ..
      have ctx: "a * 2 ^ t + m = (?a + 1) * 2 ^ j + (m - 2 ^ j)"
          "a * 2 ^ t + int (length D) - 1 = (?a + 1) * 2 ^ j + int (length (drop (2 ^ j) D)) - 1"
        using t len by (simp_all add: algebra_simps power_add of_nat_diff)
      show ?thesis
        unfolding ctx p'(2) D foldl_append nth [symmetric] run
        using halves(2) [of "a * 2 ^ d"] by (auto simp: strip_even_pow drop_bit_eq_div)
    qed
  qed
qed

lemma inclusion_accepts:
  assumes "inclusion_proof H m leaves = Some p"
  shows "verify_inclusion H m (int (length leaves)) (leaves ! nat m) p (mth H leaves)"
proof -
  have m: "0 \<le> m" "m < int (length leaves)"
    using assms inclusion_proof_defined [of H m leaves] by auto
  obtain t where "length leaves \<le> 2 ^ t" using less_exp less_imp_le by blast
  from inclusion_steps_edge [OF this m, of 0 H p] assms
  show ?thesis using m by (auto simp: verify_inclusion_def)
qed

text \<open>
  C10. Completeness of inclusion proofs: whatever audit path \<^verbatim>\<open>inclusion_proof\<close> returns for an index, the
  client loop \<^verbatim>\<open>verify_inclusion\<close> accepts it against the tree hash of the same leaves, for every tree size
  (also those that are not powers of two, where the inner loop skips levels).
\<close>

theorem inclusion_complete:
  assumes "inclusion_proof H m leaves = Some p"
  shows "verify_inclusion H m (int (length leaves)) (leaves ! nat m) p (mth H leaves)"
  by (rule inclusion_accepts [OF assms])

theorem inclusion_complete_witness:
  "inclusion_proof example_hash 2 [[1], [2], [3]] = Some [mth example_hash [[1], [2]]] \<and>
   verify_inclusion example_hash 2 3 [3] [mth example_hash [[1], [2]]] (mth example_hash [[1], [2], [3]])"
proof -
  have "inclusion_proof example_hash 2 [[1], [2], [3]] = Some [mth example_hash [[1], [2]]]"
    by code_simp
  from this inclusion_complete [OF this] show ?thesis by simp
qed

end
