(* ===== verification/Merkle_Consistency.thy ===== *)
theory Merkle_Consistency
  imports Merkle
begin

text \<open>
  Append-only proofs: every proof the log generates for a prefix is accepted by \<^verbatim>\<open>verify_consistency\<close>, and
  an accepted proof binds the old tree to a prefix of the new one.
\<close>

section \<open>The recursion of the generator\<close>

lemma subproof_eq: "m = int (length D) \<Longrightarrow> subproof H m D b = Some (if b then [] else [mth H D])"
  by (subst subproof.simps) simp

lemma subproof_left:
  assumes "2 ^ j < length D" "length D \<le> 2 ^ Suc j" "m \<le> 2 ^ j"
  shows "subproof H m D b = map_option (\<lambda>p. p @ [mth H (drop (2 ^ j) D)]) (subproof H m (take (2 ^ j) D) b)"
proof -
  have "m \<noteq> int (length D)" using assms(3) pow_less_int [OF assms(1)] by linarith
  moreover have "2 \<le> length D" using assms(1) by (metis Suc_1 Suc_leI le_less_trans one_le_numeral one_le_power)
  ultimately show ?thesis
    using assms by (subst subproof.simps) (simp add: Let_def largest_pow2_below_unique)
qed

lemma subproof_right:
  assumes "2 ^ j < length D" "length D \<le> 2 ^ Suc j" "2 ^ j < m" "m < int (length D)"
  shows "subproof H m D b =
    map_option (\<lambda>p. p @ [mth H (take (2 ^ j) D)]) (subproof H (m - 2 ^ j) (drop (2 ^ j) D) False)"
proof -
  have "2 \<le> length D" using assms(1) by (metis Suc_1 Suc_leI le_less_trans one_le_numeral one_le_power)
  then show ?thesis
    using assms by (subst subproof.simps) (simp add: Let_def largest_pow2_below_unique)
qed

lemma subproof_nonempty: "subproof H m D False = Some p \<Longrightarrow> p \<noteq> []"
  by (subst (asm) subproof.simps) (auto simp: Let_def split: if_splits)

lemma subproof_left_Cons:
  assumes "2 ^ j < length D" "length D \<le> 2 ^ Suc j" "m \<le> 2 ^ j" "subproof H m D False = Some (F # cs)"
  obtains cs' where "cs = cs' @ [mth H (drop (2 ^ j) D)]" "subproof H m (take (2 ^ j) D) False = Some (F # cs')"
proof -
  obtain p where p: "subproof H m (take (2 ^ j) D) False = Some p" "F # cs = p @ [mth H (drop (2 ^ j) D)]"
    using assms(4) subproof_left [OF assms(1-3)] by auto
  with subproof_nonempty [OF p(1)] that show thesis by (cases p) auto
qed

lemma subproof_right_Cons:
  assumes "2 ^ j < length D" "length D \<le> 2 ^ Suc j" "2 ^ j < m" "m < int (length D)"
    and "subproof H m D False = Some (F # cs)"
  obtains cs' where "cs = cs' @ [mth H (take (2 ^ j) D)]"
    "subproof H (m - 2 ^ j) (drop (2 ^ j) D) False = Some (F # cs')"
proof -
  obtain p where p: "subproof H (m - 2 ^ j) (drop (2 ^ j) D) False = Some p" "F # cs = p @ [mth H (take (2 ^ j) D)]"
    using assms(5) subproof_right [OF assms(1-4)] by auto
  with subproof_nonempty [OF p(1)] that show thesis by (cases p) auto
qed

text \<open>The tree of \<open>n\<close> leaves splits at a power of two.\<close>

lemma split_power:
  fixes n :: nat
  assumes "2 \<le> n"
  obtains j where "2 ^ j < n" "n \<le> 2 ^ Suc j"
  using largest_pow2_below_power [OF assms] by metis

lemma pow2_between:
  assumes "(2::int) ^ j < m" "m < 2 ^ Suc j"
  shows "m \<noteq> 2 ^ i"
proof
  assume "m = 2 ^ i"
  with assms have "j < i" "i < Suc j"
    by (metis one_less_numeral_iff power_strict_increasing_iff semiring_norm(76))+
  then show False by simp
qed

text \<open>
  The flag of \<^verbatim>\<open>_subproof\<close> drops the first hash exactly when the old size is a power of two; that hash is
  then the old root.
\<close>

lemma subproof_flag:
  assumes "0 < m" "m < int (length D)"
  shows "\<exists>F cs. subproof H m D False = Some (F # cs) \<and>
    subproof H m D True = Some (if \<exists>i. m = 2 ^ i then cs else F # cs) \<and>
    ((\<exists>i. m = 2 ^ i) \<longrightarrow> F = mth H (take (nat m) D))"
  using assms
proof (induction "length D" arbitrary: D m rule: less_induct)
  case less
  have "2 \<le> length D" using less.prems by linarith
  then obtain j where len: "2 ^ j < length D" "length D \<le> 2 ^ Suc j" by (rule split_power)
  consider "m = 2 ^ j" | "m < 2 ^ j" | "2 ^ j < m" by linarith
  then show ?case
  proof cases
    case 1
    have e: "m = int (length (take (2 ^ j) D))" using 1 len by simp
    show ?thesis
      using 1 subproof_eq [OF e, of H False] subproof_eq [OF e, of H True]
      by (auto simp: subproof_left [OF len] nat_power_eq)
  next
    case 2
    have "\<exists>F cs. subproof H m (take (2 ^ j) D) False = Some (F # cs) \<and>
      subproof H m (take (2 ^ j) D) True = Some (if \<exists>i. m = 2 ^ i then cs else F # cs) \<and>
      ((\<exists>i. m = 2 ^ i) \<longrightarrow> F = mth H (take (nat m) (take (2 ^ j) D)))"
      by (rule less.hyps) (use 2 less.prems len in auto)
    moreover have "take (nat m) (take (2 ^ j) D) = take (nat m) D"
      using 2 less.prems(1) by (simp add: min_def nat_le_iff)
    ultimately obtain F cs where "subproof H m (take (2 ^ j) D) False = Some (F # cs)"
      "subproof H m (take (2 ^ j) D) True = Some (if \<exists>i. m = 2 ^ i then cs else F # cs)"
      "(\<exists>i. m = 2 ^ i) \<longrightarrow> F = mth H (take (nat m) D)" by auto
    then show ?thesis
      using 2 by (intro exI [of _ F] exI [of _ "cs @ [mth H (drop (2 ^ j) D)]"]) (simp add: subproof_left [OF len])
  next
    case 3
    have "\<exists>F cs. subproof H (m - 2 ^ j) (drop (2 ^ j) D) False = Some (F # cs) \<and>
      subproof H (m - 2 ^ j) (drop (2 ^ j) D) True =
        Some (if \<exists>i. m - 2 ^ j = 2 ^ i then cs else F # cs) \<and>
      ((\<exists>i. m - 2 ^ j = 2 ^ i) \<longrightarrow> F = mth H (take (nat (m - 2 ^ j)) (drop (2 ^ j) D)))"
      by (rule less.hyps) (use 3 less.prems len in auto)
    moreover have "\<nexists>i. m = 2 ^ i"
      using pow2_between [OF 3] less.prems(2) pow_ge_int [OF len(2)] by auto
    ultimately show ?thesis
      using 3 less.prems by (auto simp: subproof_right [OF len])
  qed
qed

section \<open>Every generated append-only proof verifies\<close>

lemma strip_odd_step:
  "odd k \<Longrightarrow> 0 \<le> k \<Longrightarrow> strip_odd k x = strip_odd (drop_bit (Suc 0) k) (drop_bit (Suc 0) x)"
  by (subst strip_odd.simps) auto

lemma strip_odd_ones:
  "even a \<Longrightarrow> 0 \<le> a \<Longrightarrow> strip_odd (a * 2 ^ t + (2 ^ t - 1)) x = (a, drop_bit t x)"
proof (induction t arbitrary: x)
  case 0
  then show ?case by (subst strip_odd.simps) simp
next
  case (Suc t)
  have "drop_bit (Suc 0) (a * 2 ^ Suc t + (2 ^ Suc t - 1)) = a * 2 ^ t + (2 ^ t - 1)"
    by (simp add: drop_bit_eq_div algebra_simps)
  moreover have "odd (a * 2 ^ Suc t + (2 ^ Suc t - 1))" by simp
  moreover have "0 \<le> a * 2 ^ Suc t + (2 ^ Suc t - 1)" using Suc.prems by simp
  ultimately have "strip_odd (a * 2 ^ Suc t + (2 ^ Suc t - 1)) x = strip_odd (a * 2 ^ t + (2 ^ t - 1)) (drop_bit (Suc 0) x)"
    by (metis strip_odd_step)
  then show ?case using Suc by (simp del: power_Suc)
qed

lemma consistency_run_append:
  "consistency_run H fn sn fr sr (xs @ ys) =
    (case consistency_run H fn sn fr sr xs of
       None \<Rightarrow> None | Some (fn', sn', fr', sr') \<Rightarrow> consistency_run H fn' sn' fr' sr' ys)"
  by (induction H fn sn fr sr xs rule: consistency_run.induct) (auto simp: Let_def split: prod.splits)

text \<open>
  The state the path loop starts in: the last leaf of the old tree and the last leaf of the new one,
  moved up together over the trailing one bits of the former.
\<close>

definition start_run :: "hashf \<Rightarrow> int \<Rightarrow> int \<Rightarrow> bytes \<Rightarrow> bytes list \<Rightarrow> (int \<times> int \<times> bytes \<times> bytes) option" where
  "start_run H fn sn F cs = (let (fn', sn') = strip_odd fn sn in consistency_run H fn' sn' F F cs)"

lemma start_run_append:
  "start_run H fn sn F (xs @ ys) =
    (case start_run H fn sn F xs of
       None \<Rightarrow> None | Some (fn', sn', fr', sr') \<Rightarrow> consistency_run H fn' sn' fr' sr' ys)"
  by (simp add: start_run_def consistency_run_append split: prod.splits)

text \<open>The last step of a run at the three kinds of position.\<close>

lemma run_step_left: "0 \<le> a \<Longrightarrow> 2 * a < b \<Longrightarrow> consistency_run H (2 * a) b fr sr [c] =
    Some (a, drop_bit (Suc 0) b, fr, node_hash H sr c)"
  by (auto simp: halves)

lemma run_step_right: "0 \<le> a \<Longrightarrow> 2 * a + 1 < b \<Longrightarrow> consistency_run H (2 * a + 1) b fr sr [c] =
    Some (a, drop_bit (Suc 0) b, node_hash H c fr, node_hash H c sr)"
  by (auto simp: halves strip_even_odd)

lemma run_step_edge: "0 \<le> a \<Longrightarrow> consistency_run H ((2 * a + 1) * 2 ^ s) ((2 * a + 1) * 2 ^ s) fr sr [c] =
    Some (a, a, node_hash H c fr, node_hash H c sr)"
  using strip_even_pow [of "2 * a + 1" s "(2 * a + 1) * 2 ^ s"] by (auto simp: halves drop_bit_eq_div)

lemma mth_take_right:
  assumes "2 ^ j < m" "m \<le> length D" "length D \<le> 2 ^ Suc j"
  shows "mth H (take m D) = node_hash H (mth H (take (2 ^ j) D)) (mth H (take (m - 2 ^ j) (drop (2 ^ j) D)))"
proof -
  have "mth H (take m D) = node_hash H (mth H (take (2 ^ j) (take m D))) (mth H (drop (2 ^ j) (take m D)))"
    by (rule mth_split_at) (use assms in auto)
  then show ?thesis using assms by (simp add: drop_take min_absorb1 min_absorb2)
qed

lemma mth_take_int:
  assumes "(2::int) ^ j < m" "m < int (length D)" "length D \<le> 2 ^ Suc j"
  shows "mth H (take (nat m) D) =
    node_hash H (mth H (take (2 ^ j) D)) (mth H (take (nat (m - 2 ^ j)) (drop (2 ^ j) D)))"
proof -
  have "2 ^ j < nat m" using assms(1) by (simp add: zless_nat_eq_int_zless)
  moreover have "nat m \<le> length D" using assms(2) by linarith
  ultimately show ?thesis
    using mth_take_right [of j "nat m" D H] assms(3) by (simp add: nat_diff_distrib nat_power_eq)
qed

lemma consistency_steps_perfect:
  assumes "length D = 2 ^ t" "0 < m" "m \<le> 2 ^ t" "0 \<le> a" "a < b" "m = 2 ^ t \<longrightarrow> even a" "0 \<le> r" "r < 2 ^ t"
    and "subproof H m D False = Some (F # cs)"
  shows "start_run H (a * 2 ^ t + (m - 1)) (b * 2 ^ t + r) F cs = Some (a, b, mth H (take (nat m) D), mth H D)"
  using assms
proof (induction t arbitrary: D m a b r F cs)
  case 0
  then have "m = 1" "r = 0" "length D = 1" by auto
  with 0 show ?case
    using strip_odd_ones [of a 0 b] by (auto simp: start_run_def subproof_eq)
next
  case (Suc j)
  show ?case
  proof (cases "m = 2 ^ Suc j")
    case True
    have e: "m = int (length D)" using True Suc.prems(1) by simp
    have "drop_bit (Suc j) (b * 2 ^ Suc j + r) = b"
      using Suc.prems(7,8) by (simp add: drop_bit_eq_div)
    then show ?thesis
      using Suc.prems True e strip_odd_ones [of a "Suc j" "b * 2 ^ Suc j + r"]
      by (auto simp: start_run_def subproof_eq nat_power_eq simp del: power_Suc)
  next
    case False
    from Suc.prems(7,8) obtain q r' where
      r: "r = q * 2 ^ j + r'" "q = 0 \<or> q = 1" "0 \<le> r'" "r' < 2 ^ j" by (rule low_bits_split)
    have len: "2 ^ j < length D" "length D \<le> 2 ^ Suc j" using Suc.prems(1) by auto
    have m: "m < int (length D)" using False Suc.prems(1,3) by simp
    have D: "mth H D = node_hash H (mth H (take (2 ^ j) D)) (mth H (drop (2 ^ j) D))"
      by (rule mth_split_at [OF len])
    have lt: "2 * a + 1 < 2 * b + q" "drop_bit (Suc 0) (2 * b + q) = b"
      using Suc.prems(5) r(2) by (auto simp: halves)
    show ?thesis
    proof (cases "m \<le> 2 ^ j")
      case True
      from len True Suc.prems(9) obtain cs' where
        cs': "cs = cs' @ [mth H (drop (2 ^ j) D)]" "subproof H m (take (2 ^ j) D) False = Some (F # cs')"
        by (rule subproof_left_Cons)
      have run: "start_run H ((2 * a) * 2 ^ j + (m - 1)) ((2 * b + q) * 2 ^ j + r') F cs' =
          Some (2 * a, 2 * b + q, mth H (take (nat m) (take (2 ^ j) D)), mth H (take (2 ^ j) D))"
        by (rule Suc.IH) (use Suc.prems True len lt r cs' in auto)
      have ctx: "a * 2 ^ Suc j + (m - 1) = (2 * a) * 2 ^ j + (m - 1)" "b * 2 ^ Suc j + r = (2 * b + q) * 2 ^ j + r'"
        using r(1) by (simp_all add: algebra_simps)
      have tk: "take (nat m) (take (2 ^ j) D) = take (nat m) D"
        using True by (simp add: min_def nat_le_iff)
      show ?thesis
        unfolding ctx cs'(1) start_run_append run D option.case prod.case tk
        using run_step_left [of a "2 * b + q"] Suc.prems(4) lt by simp
    next
      case False
      then have gt: "2 ^ j < m" by simp
      from len gt m Suc.prems(9) obtain cs' where
        cs': "cs = cs' @ [mth H (take (2 ^ j) D)]" "subproof H (m - 2 ^ j) (drop (2 ^ j) D) False = Some (F # cs')"
        by (rule subproof_right_Cons)
      have run: "start_run H ((2 * a + 1) * 2 ^ j + (m - 2 ^ j - 1)) ((2 * b + q) * 2 ^ j + r') F cs' =
          Some (2 * a + 1, 2 * b + q, mth H (take (nat (m - 2 ^ j)) (drop (2 ^ j) D)), mth H (drop (2 ^ j) D))"
        by (rule Suc.IH) (use Suc.prems \<open>m \<noteq> 2 ^ Suc j\<close> gt len lt r cs' in auto)
      have ctx: "a * 2 ^ Suc j + (m - 1) = (2 * a + 1) * 2 ^ j + (m - 2 ^ j - 1)"
          "b * 2 ^ Suc j + r = (2 * b + q) * 2 ^ j + r'"
        using r(1) by (simp_all add: algebra_simps)
      show ?thesis
        unfolding ctx cs'(1) start_run_append run D option.case prod.case
        using run_step_right [of a "2 * b + q"] Suc.prems(4) lt mth_take_int [OF gt m len(2)] by simp
    qed
  qed
qed

lemma consistency_steps_edge:
  assumes "length D \<le> 2 ^ t" "0 < m" "m < int (length D)" "0 \<le> a" "subproof H m D False = Some (F # cs)"
  shows "\<exists>s. start_run H (a * 2 ^ t + (m - 1)) (a * 2 ^ t + (int (length D) - 1)) F cs =
    Some (a * 2 ^ s, a * 2 ^ s, mth H (take (nat m) D), mth H D)"
  using assms
proof (induction "length D" arbitrary: D t m a F cs rule: less_induct)
  case less
  have "2 \<le> length D" using less.prems(2,3) by linarith
  then obtain j where len: "2 ^ j < length D" "length D \<le> 2 ^ Suc j" by (rule split_power)
  have "(2::nat) ^ j < 2 ^ t" using len(1) less.prems(1) by (rule less_le_trans)
  then obtain d where t: "t = Suc (j + d)" by (metis less_iff_Suc_add nat_power_less_imp_less zero_less_numeral)
  have D: "mth H D = node_hash H (mth H (take (2 ^ j) D)) (mth H (drop (2 ^ j) D))"
    by (rule mth_split_at [OF len])
  define r where "r = int (length D) - 1 - 2 ^ j"
  have r: "0 \<le> r" "r < 2 ^ j" using pow_less_int [OF len(1)] pow_ge_int [OF len(2)] by (auto simp: r_def)
  let ?a = "2 * (a * 2 ^ d)"
  have a: "0 \<le> a * 2 ^ d" using less.prems(4) by simp
  show ?case
  proof (cases "m \<le> 2 ^ j")
    case True
    from len True less.prems(5) obtain cs' where
      cs': "cs = cs' @ [mth H (drop (2 ^ j) D)]" "subproof H m (take (2 ^ j) D) False = Some (F # cs')"
      by (rule subproof_left_Cons)
    have run: "start_run H (?a * 2 ^ j + (m - 1)) ((?a + 1) * 2 ^ j + r) F cs' =
        Some (?a, ?a + 1, mth H (take (nat m) (take (2 ^ j) D)), mth H (take (2 ^ j) D))"
      by (rule consistency_steps_perfect) (use less.prems True len r cs' a in auto)
    have ctx: "a * 2 ^ t + (m - 1) = ?a * 2 ^ j + (m - 1)" "a * 2 ^ t + (int (length D) - 1) = (?a + 1) * 2 ^ j + r"
      using t by (simp_all add: r_def algebra_simps power_add)
    have tk: "take (nat m) (take (2 ^ j) D) = take (nat m) D"
      using True by (simp add: min_def nat_le_iff)
    show ?thesis
      unfolding ctx cs'(1) start_run_append run D option.case prod.case tk
      using run_step_left [of "a * 2 ^ d" "?a + 1"] a by (auto simp: halves)
  next
    case False
    then have gt: "2 ^ j < m" by simp
    from len gt less.prems(3,5) obtain cs' where
      cs': "cs = cs' @ [mth H (take (2 ^ j) D)]" "subproof H (m - 2 ^ j) (drop (2 ^ j) D) False = Some (F # cs')"
      by (rule subproof_right_Cons)
    have "\<exists>s. start_run H ((?a + 1) * 2 ^ j + (m - 2 ^ j - 1)) ((?a + 1) * 2 ^ j + (int (length (drop (2 ^ j) D)) - 1)) F cs' =
        Some ((?a + 1) * 2 ^ s, (?a + 1) * 2 ^ s, mth H (take (nat (m - 2 ^ j)) (drop (2 ^ j) D)), mth H (drop (2 ^ j) D))"
      by (rule less.hyps) (use less.prems gt len cs' a in auto)
    then obtain s where run:
      "start_run H ((?a + 1) * 2 ^ j + (m - 2 ^ j - 1)) ((?a + 1) * 2 ^ j + (int (length (drop (2 ^ j) D)) - 1)) F cs' =
        Some ((?a + 1) * 2 ^ s, (?a + 1) * 2 ^ s, mth H (take (nat (m - 2 ^ j)) (drop (2 ^ j) D)), mth H (drop (2 ^ j) D))" ..
    have ctx: "a * 2 ^ t + (m - 1) = (?a + 1) * 2 ^ j + (m - 2 ^ j - 1)"
        "a * 2 ^ t + (int (length D) - 1) = (?a + 1) * 2 ^ j + (int (length (drop (2 ^ j) D)) - 1)"
      using t len by (simp_all add: algebra_simps power_add of_nat_diff)
    show ?thesis
      unfolding ctx cs'(1) start_run_append run D option.case prod.case
      using run_step_edge [OF a] mth_take_int [OF gt less.prems(3) len(2)] by auto
  qed
qed

lemma pow2_bit_test: "0 < m \<Longrightarrow> and m (m - 1) = 0 \<longleftrightarrow> (\<exists>i. m = (2::int) ^ i)"
proof (induction "nat m" arbitrary: m rule: less_induct)
  case less
  show ?case
  proof (cases "even m")
    case True
    then obtain k where k: "m = 2 * k" by (elim evenE)
    then have pos: "0 < k" using less.prems by simp
    have "(m - 1) div 2 = k - 1" using k by simp
    then have "and m (m - 1) = 2 * and k (k - 1)"
      using k by (subst and_rec) simp
    moreover have "and k (k - 1) = 0 \<longleftrightarrow> (\<exists>i. k = 2 ^ i)"
      by (rule less.hyps) (use k pos in auto)
    moreover have "(\<exists>i. k = 2 ^ i) \<longleftrightarrow> (\<exists>i. m = 2 ^ i)"
    proof
      assume "\<exists>i. m = 2 ^ i"
      then obtain i where i: "m = 2 ^ i" ..
      have "i \<noteq> 0" using True i by (metis odd_one power_0)
      with i k show "\<exists>i. k = 2 ^ i" by (cases i) auto
    qed (use k in \<open>metis power_Suc\<close>)
    ultimately show ?thesis by simp
  next
    case False
    then obtain k where k: "m = 2 * k + 1" by (elim oddE)
    then have "and m (m - 1) = 2 * k" by (subst and_rec) simp
    moreover have "(\<exists>i. m = 2 ^ i) \<longleftrightarrow> m = 1"
    proof
      assume "\<exists>i. m = 2 ^ i"
      then obtain i where "m = 2 ^ i" ..
      with False show "m = 1" by (cases i) auto
    qed (metis power_0)
    ultimately show ?thesis using k by simp
  qed
qed

lemma consistency_accepts:
  assumes "consistency_proof H m leaves = Some p"
  shows "verify_consistency H m (int (length leaves)) p (mth H (take (nat m) leaves)) (mth H leaves)"
proof (cases "m = int (length leaves)")
  case True
  then show ?thesis using assms by (auto simp: consistency_proof_def verify_consistency_def split: if_splits)
next
  case False
  then have m: "0 < m" "m < int (length leaves)" and p: "subproof H m leaves True = Some p"
    using assms by (auto simp: consistency_proof_def Let_def split: if_splits)
  from subproof_flag [OF m, of H] obtain F cs where
    F: "subproof H m leaves False = Some (F # cs)" "p = (if \<exists>i. m = 2 ^ i then cs else F # cs)"
      "(\<exists>i. m = 2 ^ i) \<longrightarrow> F = mth H (take (nat m) leaves)"
    using p by auto
  obtain t where "length leaves \<le> 2 ^ t" using less_exp less_imp_le by blast
  from consistency_steps_edge [OF this m, of 0 H F cs] F(1) have
    "start_run H (m - 1) (int (length leaves) - 1) F cs = Some (0, 0, mth H (take (nat m) leaves), mth H leaves)"
    by auto
  then show ?thesis
    using F m by (auto simp: verify_consistency_def start_run_def pow2_bit_test split: prod.splits)
qed

text \<open>
  C11. Completeness of append-only proofs: whatever \<^verbatim>\<open>consistency_proof\<close> returns for the first \<open>m\<close> of the
  leaves, \<^verbatim>\<open>verify_consistency\<close> accepts it between the tree hash of those \<open>m\<close> leaves and the tree hash of all of
  them, for every pair of sizes.
\<close>

theorem consistency_complete:
  assumes "consistency_proof H m leaves = Some p"
  shows "verify_consistency H m (int (length leaves)) p (mth H (take (nat m) leaves)) (mth H leaves)"
  by (rule consistency_accepts [OF assms])

theorem consistency_complete_witness:
  "consistency_proof example_hash 2 [[1], [2], [3]] = Some [mth example_hash [[3]]] \<and>
   verify_consistency example_hash 2 3 [mth example_hash [[3]]] (mth example_hash [[1], [2]]) (mth example_hash [[1], [2], [3]])"
proof -
  have "consistency_proof example_hash 2 [[1], [2], [3]] = Some [mth example_hash [[3]]]"
    by code_simp
  from this consistency_complete [OF this] show ?thesis by simp
qed

text \<open>The size of a proof, and what its elements are.\<close>

lemma subproof_size: "subproof H m D b = Some p \<Longrightarrow> length D \<le> 2 ^ t \<Longrightarrow> length p \<le> Suc t"
proof (induction H m D b arbitrary: p t rule: subproof.induct)
  case (1 H m D b)
  show ?case
  proof (cases "m = int (length D) \<or> length D < 2")
    case True
    then show ?thesis using 1(3) by (subst (asm) subproof.simps) (auto simp: Let_def split: if_splits)
  next
    case False
    let ?k = "largest_pow2_below (length D)"
    obtain j where j: "?k = 2 ^ j" "2 ^ j < length D" using largest_pow2_below_power [of "length D"] False by (metis not_less)
    then have "(2::nat) ^ j < 2 ^ t" using 1(4) by linarith
    then obtain s where s: "t = Suc s" "j \<le> s" by (metis less_Suc_eq_le nat_power_less_imp_less not_less_eq_eq not0_implies_Suc less_nat_zero_code zero_less_numeral)
    then have "(2::nat) ^ j \<le> 2 ^ s" by simp
    moreover have "length D - ?k \<le> ?k" by (rule largest_pow2_below_bounds) (use False in simp)
    ultimately have "length D - ?k \<le> 2 ^ s" "?k \<le> 2 ^ s" unfolding j(1) by linarith+
    then have "length (take ?k D) \<le> 2 ^ s" "length (drop ?k D) \<le> 2 ^ s" by auto
    then show ?thesis
      using 1(3) 1(1) [OF refl _ _ refl, of _ s] 1(2) [OF refl _ _ refl, of _ s] False s(1)
      by (subst (asm) subproof.simps) (auto simp: Let_def split: if_splits)
  qed
qed

lemma subproof_hashes: "subproof H m D b = Some p \<Longrightarrow> c \<in> set p \<Longrightarrow> \<exists>E. c = mth H E"
proof (induction H m D b arbitrary: p rule: subproof.induct)
  case (1 H m D b)
  show ?case
    using 1(3,4) 1(1) [OF refl _ _ refl] 1(2) [OF refl _ _ refl]
    by (subst (asm) subproof.simps) (auto simp: Let_def split: if_splits)
qed

lemma consistency_defined: "0 < m \<Longrightarrow> m \<le> int (length leaves) \<Longrightarrow> \<exists>p. consistency_proof H m leaves = Some p"
  using subproof_flag [of m leaves H] by (cases "m = int (length leaves)") (auto simp: consistency_proof_def Let_def)

lemma consistency_hashes: "consistency_proof H m leaves = Some p \<Longrightarrow> c \<in> set p \<Longrightarrow> \<exists>E. c = mth H E"
  by (auto simp: consistency_proof_def Let_def split: if_splits intro: subproof_hashes)

text \<open>
  The size of an append-only proof: over at most \<open>2^t\<close> leaves \<^verbatim>\<open>consistency_proof\<close> returns at most \<open>t + 1\<close> hashes, for
  every old size; so up to \<open>2^62\<close> leaves it fits in the 63 lines that a witness accepts.
\<close>

theorem consistency_proof_size:
  assumes "consistency_proof H m leaves = Some p" "length leaves \<le> 2 ^ t"
  shows "length p \<le> Suc t"
  using assms subproof_size [of H m leaves True p t] by (auto simp: consistency_proof_def Let_def split: if_splits)

theorem consistency_proof_size_witness:
  "consistency_proof example_hash 3 [[1], [2], [3], [4]] = Some [mth example_hash [[3]], mth example_hash [[4]], mth example_hash [[1], [2]]] \<and>
   length [mth example_hash [[3]], mth example_hash [[4]], mth example_hash [[1], [2]]] \<le> Suc 2"
proof -
  have "consistency_proof example_hash 3 [[1], [2], [3], [4]] = Some [mth example_hash [[3]], mth example_hash [[4]], mth example_hash [[1], [2]]]"
    by code_simp
  from this consistency_proof_size [OF this, of 2] show ?thesis by simp
qed

end
