(* ===== verification/Merkle_Binding.thy ===== *)
theory Merkle_Binding
  imports Merkle_Consistency
begin

text \<open>
  What an accepted Merkle proof binds. The hash function is any function with 32-octet values; each
  statement is an extraction: either the claimed data agree, or two different inputs that were really
  hashed, by the log or by the verifier, have one hash value.
\<close>

section \<open>Inputs that are hashed\<close>

function mth_inputs :: "hashf \<Rightarrow> bytes list \<Rightarrow> bytes set" where
  "mth_inputs H leaves =
     (let n = length leaves in
      if n = 0 then {[]}
      else if n = 1 then {0 # leaves ! 0}
      else let k = largest_pow2_below n in
        insert (1 # mth H (take k leaves) @ mth H (drop k leaves))
          (mth_inputs H (take k leaves) \<union> mth_inputs H (drop k leaves)))"
  by pat_completeness auto
termination
  by (relation "measure (\<lambda>(H, leaves). length leaves)") (auto intro!: split_shorter length_ge_2)

declare mth_inputs.simps [simp del]

lemma mth_inputs_split_at:
  assumes "2 ^ j < length D" "length D \<le> 2 ^ Suc j"
  shows "mth_inputs H D = insert (1 # mth H (take (2 ^ j) D) @ mth H (drop (2 ^ j) D))
    (mth_inputs H (take (2 ^ j) D) \<union> mth_inputs H (drop (2 ^ j) D))"
proof -
  have "length D \<noteq> 0" "length D \<noteq> 1" using assms(1) by (auto simp: less_one)
  then show ?thesis using assms by (subst mth_inputs.simps) (simp add: Let_def largest_pow2_below_unique)
qed

lemma mth_inputs_parts:
  assumes "2 ^ j < length D" "length D \<le> 2 ^ Suc j"
  shows "mth_inputs H (take (2 ^ j) D) \<subseteq> mth_inputs H D" "mth_inputs H (drop (2 ^ j) D) \<subseteq> mth_inputs H D"
    "1 # mth H (take (2 ^ j) D) @ mth H (drop (2 ^ j) D) \<in> mth_inputs H D"
  using mth_inputs_split_at [OF assms, of H] by auto

text \<open>Octet strings hashed by the two verification loops, in order.\<close>

fun inclusion_trace :: "hashf \<Rightarrow> int \<times> int \<times> bytes \<Rightarrow> bytes list \<Rightarrow> bytes list" where
  "inclusion_trace H st [] = []"
| "inclusion_trace H (fn, sn, h) (p # ps) =
     (if fn = sn \<or> odd fn then 1 # p @ h else 1 # h @ p) # inclusion_trace H (inclusion_step H (fn, sn, h) p) ps"

definition inclusion_inputs :: "hashf \<Rightarrow> int \<Rightarrow> int \<Rightarrow> bytes \<Rightarrow> bytes list \<Rightarrow> bytes set" where
  "inclusion_inputs H m n leaf_data proof =
     insert (0 # leaf_data) (set (inclusion_trace H (m, n - 1, leaf_hash H leaf_data) proof))"

fun consistency_trace :: "hashf \<Rightarrow> int \<Rightarrow> int \<Rightarrow> bytes \<Rightarrow> bytes \<Rightarrow> bytes list \<Rightarrow> bytes list" where
  "consistency_trace H fn sn fr sr [] = []"
| "consistency_trace H fn sn fr sr (c # cs) =
     (if sn = 0 then []
      else if odd fn \<or> fn = sn
      then (1 # c @ fr) # (1 # c @ sr) # (let (fn', sn') = strip_even fn sn
            in consistency_trace H (drop_bit 1 fn') (drop_bit 1 sn') (node_hash H c fr) (node_hash H c sr) cs)
      else (1 # sr @ c) # consistency_trace H (drop_bit 1 fn) (drop_bit 1 sn) fr (node_hash H sr c) cs)"

definition start_trace :: "hashf \<Rightarrow> int \<Rightarrow> int \<Rightarrow> bytes \<Rightarrow> bytes list \<Rightarrow> bytes list" where
  "start_trace H fn sn F cs = (let (fn', sn') = strip_odd fn sn in consistency_trace H fn' sn' F F cs)"

definition consistency_inputs :: "hashf \<Rightarrow> int \<Rightarrow> int \<Rightarrow> bytes list \<Rightarrow> bytes \<Rightarrow> bytes set" where
  "consistency_inputs H m n proof old_root =
     (case (if and m (m - 1) = 0 then old_root # proof else proof) of
        [] \<Rightarrow> {}
      | p0 # cs \<Rightarrow> set (start_trace H (m - 1) (n - 1) p0 cs))"

lemma start_trace_append:
  assumes "start_run H fn sn F xs = Some (fn', sn', fr', sr')"
  shows "start_trace H fn sn F (xs @ ys) = start_trace H fn sn F xs @ consistency_trace H fn' sn' fr' sr' ys"
proof -
  have "consistency_run H a b fr sr xs = Some (fn', sn', fr', sr') \<Longrightarrow>
    consistency_trace H a b fr sr (xs @ ys) = consistency_trace H a b fr sr xs @ consistency_trace H fn' sn' fr' sr' ys"
    for a b fr sr
    by (induction H a b fr sr xs rule: consistency_run.induct) (auto simp: Let_def split: prod.splits if_splits)
  then show ?thesis using assms by (simp add: start_run_def start_trace_def split: prod.splits)
qed

section \<open>The tree hash binds its leaves\<close>

lemma node_hash_eq_cases:
  assumes "node_hash H a b = node_hash H c d" "length a = length c"
    and "1 # a @ b \<in> S" "1 # c @ d \<in> S"
  shows "a = c \<and> b = d \<or> collision H S"
proof (cases "1 # a @ b = 1 # c @ d")
  case False
  then show ?thesis using assms collisionI [of "1 # a @ b" S "1 # c @ d" H] by (simp add: node_hash_def)
qed (use assms(2) in simp)

lemma length_mth: "(\<And>x. length (H x) = 32) \<Longrightarrow> length (mth H D) = 32"
  by (subst mth.simps) (auto simp: Let_def leaf_hash_def node_hash_def)

lemma length_node_hash: "(\<And>x. length (H x) = 32) \<Longrightarrow> length (node_hash H a b) = 32"
  by (simp add: node_hash_def)

lemma mth_binding:
  assumes h: "\<And>x. length (H x) = 32" and "length D = length E" "mth H D = mth H E"
  shows "D = E \<or> collision H (mth_inputs H D \<union> mth_inputs H E)"
  using assms(2,3)
proof (induction "length D" arbitrary: D E rule: less_induct)
  case less
  consider "length D = 0" | "length D = 1" | "2 \<le> length D" by linarith
  then show ?case
  proof cases
    case 1
    with less.prems show ?thesis by simp
  next
    case 2
    then obtain d e where "D = [d]" "E = [e]" using less.prems by (auto simp: length_Suc_conv)
    with less.prems show ?thesis
      by (auto simp: mth_single leaf_hash_def mth_inputs.simps [of H "[d]"] mth_inputs.simps [of H "[e]"] collision_def)
  next
    case 3
    then obtain j where len: "2 ^ j < length D" "length D \<le> 2 ^ Suc j" by (rule split_power)
    have len': "2 ^ j < length E" "length E \<le> 2 ^ Suc j" using len less.prems by auto
    have "node_hash H (mth H (take (2 ^ j) D)) (mth H (drop (2 ^ j) D)) =
        node_hash H (mth H (take (2 ^ j) E)) (mth H (drop (2 ^ j) E))"
      using less.prems(2) by (simp add: mth_split_at [OF len] mth_split_at [OF len'])
    from node_hash_eq_cases [OF this, of "mth_inputs H D \<union> mth_inputs H E"] have
      "mth H (take (2 ^ j) D) = mth H (take (2 ^ j) E) \<and> mth H (drop (2 ^ j) D) = mth H (drop (2 ^ j) E) \<or>
       collision H (mth_inputs H D \<union> mth_inputs H E)"
      using mth_inputs_parts(3) [OF len, of H] mth_inputs_parts(3) [OF len', of H] by (simp add: length_mth [OF h])
    then show ?thesis
    proof
      assume e: "mth H (take (2 ^ j) D) = mth H (take (2 ^ j) E) \<and> mth H (drop (2 ^ j) D) = mth H (drop (2 ^ j) E)"
      have "take (2 ^ j) D = take (2 ^ j) E \<or> collision H (mth_inputs H (take (2 ^ j) D) \<union> mth_inputs H (take (2 ^ j) E))"
        by (rule less.hyps) (use e len len' less.prems in auto)
      moreover have "drop (2 ^ j) D = drop (2 ^ j) E \<or> collision H (mth_inputs H (drop (2 ^ j) D) \<union> mth_inputs H (drop (2 ^ j) E))"
        by (rule less.hyps) (use e len len' less.prems in auto)
      ultimately show ?thesis
        using mth_inputs_parts(1,2) [OF len, of H] mth_inputs_parts(1,2) [OF len', of H]
        by (metis append_take_drop_id collision_mono Un_mono)
    qed simp
  qed
qed

section \<open>Accepted append-only proofs\<close>

text \<open>Number of path elements between the subtree the loop starts at and the root of the new tree.\<close>

function levels :: "int \<Rightarrow> nat \<Rightarrow> nat" where
  "levels m n =
     (if m \<ge> int n \<or> n < 2 then 0
      else let k = largest_pow2_below n in
        if m \<le> int k then Suc (levels m k) else Suc (levels (m - int k) (n - k)))"
  by pat_completeness auto
termination
  by (relation "measure (\<lambda>(m, n). n)") (auto simp: not_less largest_pow2_below_bounds)

declare levels.simps [simp del]

lemma levels_left: "2 ^ j < n \<Longrightarrow> n \<le> 2 ^ Suc j \<Longrightarrow> m \<le> 2 ^ j \<Longrightarrow> m < int n \<Longrightarrow> 2 \<le> n \<Longrightarrow> levels m n = Suc (levels m (2 ^ j))"
  by (subst levels.simps) (simp add: Let_def largest_pow2_below_unique)

lemma levels_right: "2 ^ j < n \<Longrightarrow> n \<le> 2 ^ Suc j \<Longrightarrow> 2 ^ j < m \<Longrightarrow> m < int n \<Longrightarrow> 2 \<le> n \<Longrightarrow>
    levels m n = Suc (levels (m - 2 ^ j) (n - 2 ^ j))"
  by (subst levels.simps) (simp add: Let_def largest_pow2_below_unique)

lemma levels_full: "levels m n = 0" if "int n \<le> m"
  using that by (subst levels.simps) simp

text \<open>
  What a finished run binds, unless the hashed inputs hold a collision: an old list with hash \<open>fr\<close> is a prefix of a
  new list with hash \<open>sr\<close>, and \<open>fr\<close> is the hash of a prefix of any new list with hash \<open>sr\<close>.
\<close>

definition binds :: "hashf \<Rightarrow> int \<Rightarrow> nat \<Rightarrow> bytes \<Rightarrow> bytes \<Rightarrow> bytes set \<Rightarrow> bool" where
  "binds H m n fr sr S \<longleftrightarrow> length fr = 32 \<and> length sr = 32 \<and>
     (\<forall>P D. length D = n \<longrightarrow> int (length P) = m \<longrightarrow> fr = mth H P \<longrightarrow> sr = mth H D \<longrightarrow>
        P = take (nat m) D \<or> collision H (mth_inputs H P \<union> mth_inputs H D \<union> S)) \<and>
     (\<forall>D. length D = n \<longrightarrow> sr = mth H D \<longrightarrow> fr = mth H (take (nat m) D) \<or> collision H (mth_inputs H D \<union> S))"

lemma bindsE:
  "binds H m n fr sr S \<Longrightarrow> length D = n \<Longrightarrow> sr = mth H D \<Longrightarrow> fr = mth H (take (nat m) D) \<or> collision H (mth_inputs H D \<union> S)"
  by (simp add: binds_def)

lemma bindsD:
  "binds H m n fr sr S \<Longrightarrow> length D = n \<Longrightarrow> int (length P) = m \<Longrightarrow> fr = mth H P \<Longrightarrow> sr = mth H D \<Longrightarrow>
   P = take (nat m) D \<or> collision H (mth_inputs H P \<union> mth_inputs H D \<union> S)"
  by (simp add: binds_def)

lemma pow_less_nat: "(2::int) ^ j < int n \<Longrightarrow> 2 ^ j < n"
  by (metis of_nat_less_iff of_nat_numeral of_nat_power)

lemma binds_left:
  assumes h: "\<And>x. length (H x) = 32"
    and n: "2 ^ j < n" "n \<le> 2 ^ Suc j" "m \<le> 2 ^ j"
    and b: "binds H m (2 ^ j) fr sr S"
  shows "binds H m n fr (node_hash H sr c) (insert (1 # sr @ c) S)"
  unfolding binds_def
proof (intro conjI allI impI)
  fix P D :: "bytes list"
  assume D: "length D = n" and P: "int (length P) = m" and fr: "fr = mth H P" and sr: "node_hash H sr c = mth H D"
  have len: "2 ^ j < length D" "length D \<le> 2 ^ Suc j" using D n by auto
  let ?S = "mth_inputs H P \<union> mth_inputs H D \<union> insert (1 # sr @ c) S"
  have "sr = mth H (take (2 ^ j) D) \<and> c = mth H (drop (2 ^ j) D) \<or> collision H ?S"
    by (rule node_hash_eq_cases)
      (use sr b mth_split_at [OF len, of H] mth_inputs_parts(3) [OF len, of H] in \<open>auto simp: length_mth [OF h] binds_def\<close>)
  moreover have "P = take (nat m) (take (2 ^ j) D) \<or> collision H (mth_inputs H P \<union> mth_inputs H (take (2 ^ j) D) \<union> S)"
    if "sr = mth H (take (2 ^ j) D)"
    by (rule bindsD [OF b]) (use that P fr len in auto)
  moreover have "take (nat m) (take (2 ^ j) D) = take (nat m) D"
    using n(3) by (simp add: min_def nat_le_iff)
  moreover have "mth_inputs H P \<union> mth_inputs H (take (2 ^ j) D) \<union> S \<subseteq> ?S"
    using mth_inputs_parts(1) [OF len, of H] by auto
  ultimately show "P = take (nat m) D \<or> collision H ?S"
    by (metis collision_mono)
next
  fix D :: "bytes list"
  assume D: "length D = n" and sr: "node_hash H sr c = mth H D"
  have len: "2 ^ j < length D" "length D \<le> 2 ^ Suc j" using D n by auto
  let ?S = "mth_inputs H D \<union> insert (1 # sr @ c) S"
  have "sr = mth H (take (2 ^ j) D) \<and> c = mth H (drop (2 ^ j) D) \<or> collision H ?S"
    by (rule node_hash_eq_cases)
      (use sr b mth_split_at [OF len, of H] mth_inputs_parts(3) [OF len, of H] in \<open>auto simp: length_mth [OF h] binds_def\<close>)
  moreover have "fr = mth H (take (nat m) (take (2 ^ j) D)) \<or> collision H (mth_inputs H (take (2 ^ j) D) \<union> S)"
    if "sr = mth H (take (2 ^ j) D)"
    by (rule bindsE [OF b]) (use that len in auto)
  moreover have "take (nat m) (take (2 ^ j) D) = take (nat m) D"
    using n(3) by (simp add: min_def nat_le_iff)
  moreover have "mth_inputs H (take (2 ^ j) D) \<union> S \<subseteq> ?S" using mth_inputs_parts(1) [OF len, of H] by auto
  ultimately show "fr = mth H (take (nat m) D) \<or> collision H ?S" by (metis collision_mono)
qed (use b h in \<open>auto simp: binds_def length_node_hash\<close>)

lemma binds_right:
  assumes h: "\<And>x. length (H x) = 32" and c: "length c = 32"
    and n: "2 ^ j < n" "n \<le> 2 ^ Suc j" "2 ^ j < m" "m \<le> int n"
    and b: "binds H (m - 2 ^ j) (n - 2 ^ j) fr sr S"
  shows "binds H m n (node_hash H c fr) (node_hash H c sr) (insert (1 # c @ fr) (insert (1 # c @ sr) S))"
  unfolding binds_def
proof (intro conjI allI impI)
  fix P D :: "bytes list"
  assume D: "length D = n" and P: "int (length P) = m"
    and fr: "node_hash H c fr = mth H P" and sr: "node_hash H c sr = mth H D"
  have len: "2 ^ j < length D" "length D \<le> 2 ^ Suc j" using D n by auto
  have len': "2 ^ j < length P" "length P \<le> 2 ^ Suc j"
    using P n by (auto intro: pow_less_nat)
  let ?S = "mth_inputs H P \<union> mth_inputs H D \<union> insert (1 # c @ fr) (insert (1 # c @ sr) S)"
  have cP: "c = mth H (take (2 ^ j) P) \<and> fr = mth H (drop (2 ^ j) P) \<or> collision H ?S"
    by (rule node_hash_eq_cases)
      (use fr c mth_split_at [OF len', of H] mth_inputs_parts(3) [OF len', of H] in \<open>auto simp: length_mth [OF h]\<close>)
  have cD: "c = mth H (take (2 ^ j) D) \<and> sr = mth H (drop (2 ^ j) D) \<or> collision H ?S"
    by (rule node_hash_eq_cases)
      (use sr c mth_split_at [OF len, of H] mth_inputs_parts(3) [OF len, of H] in \<open>auto simp: length_mth [OF h]\<close>)
  have L: "take (2 ^ j) P = take (2 ^ j) D \<or> collision H ?S"
    if "mth H (take (2 ^ j) P) = mth H (take (2 ^ j) D)"
    by (rule or_collision_mono [OF mth_binding [OF h _ that]])
      (use len len' mth_inputs_parts(1) [OF len, of H] mth_inputs_parts(1) [OF len', of H] in auto)
  have R: "drop (2 ^ j) P = take (nat (m - 2 ^ j)) (drop (2 ^ j) D) \<or> collision H ?S"
    if "fr = mth H (drop (2 ^ j) P)" "sr = mth H (drop (2 ^ j) D)"
  proof -
    have "drop (2 ^ j) P = take (nat (m - 2 ^ j)) (drop (2 ^ j) D) \<or>
        collision H (mth_inputs H (drop (2 ^ j) P) \<union> mth_inputs H (drop (2 ^ j) D) \<union> S)"
      by (rule bindsD [OF b]) (use that P D len len' in \<open>auto simp: of_nat_diff\<close>)
    then show ?thesis
      by (rule or_collision_mono)
        (use mth_inputs_parts(2) [OF len, of H] mth_inputs_parts(2) [OF len', of H] in auto)
  qed
  have "P = take (nat m) D" if "take (2 ^ j) P = take (2 ^ j) D" "drop (2 ^ j) P = take (nat (m - 2 ^ j)) (drop (2 ^ j) D)"
  proof -
    have "nat m = 2 ^ j + nat (m - 2 ^ j)" using n(3) by (simp add: nat_diff_distrib nat_power_eq)
    then have "take (nat m) D = take (2 ^ j) D @ take (nat (m - 2 ^ j)) (drop (2 ^ j) D)" by (simp add: take_add)
    with that show ?thesis by (metis append_take_drop_id)
  qed
  with cP cD L R show "P = take (nat m) D \<or> collision H ?S" by metis
next
  fix D :: "bytes list"
  assume D: "length D = n" and sr: "node_hash H c sr = mth H D"
  have len: "2 ^ j < length D" "length D \<le> 2 ^ Suc j" using D n by auto
  have m: "nat m = 2 ^ j + nat (m - 2 ^ j)" using n(3) by (simp add: nat_diff_distrib nat_power_eq)
  have lenm: "2 ^ j < length (take (nat m) D)" "length (take (nat m) D) \<le> 2 ^ Suc j"
    using n D m by (auto simp: pow_less_nat)
  let ?S = "mth_inputs H D \<union> insert (1 # c @ fr) (insert (1 # c @ sr) S)"
  have "c = mth H (take (2 ^ j) D) \<and> sr = mth H (drop (2 ^ j) D) \<or> collision H ?S"
    by (rule node_hash_eq_cases)
      (use sr c mth_split_at [OF len, of H] mth_inputs_parts(3) [OF len, of H] in \<open>auto simp: length_mth [OF h]\<close>)
  moreover have "fr = mth H (take (nat (m - 2 ^ j)) (drop (2 ^ j) D)) \<or> collision H ?S" if "sr = mth H (drop (2 ^ j) D)"
    by (rule or_collision_mono [OF bindsE [OF b]]) (use that D mth_inputs_parts(2) [OF len, of H] in auto)
  moreover have "mth H (take (nat m) D) = node_hash H (mth H (take (2 ^ j) D)) (mth H (take (nat (m - 2 ^ j)) (drop (2 ^ j) D)))"
    using mth_split_at [OF lenm, of H] m by (simp add: drop_take min_def)
  ultimately show "node_hash H c fr = mth H (take (nat m) D) \<or> collision H ?S" by metis
qed (use h in \<open>auto simp: length_node_hash\<close>)

text \<open>
  A run at a perfect subtree and at the right edge. With fewer elements than levels the loop stops below
  the root; with exactly as many it stops at the root and binds.
\<close>

definition run_at :: "hashf \<Rightarrow> int \<Rightarrow> nat \<Rightarrow> int \<Rightarrow> int \<Rightarrow> bytes \<Rightarrow> bytes list \<Rightarrow> (int \<Rightarrow> int \<Rightarrow> bool) \<Rightarrow> bool" where
  "run_at H m n fn sn F cs goal \<longleftrightarrow>
     (\<exists>fn' sn' fr sr. start_run H fn sn F cs = Some (fn', sn', fr, sr) \<and>
        (length cs < levels m n \<longrightarrow> 0 < sn') \<and>
        (length cs = levels m n \<longrightarrow> goal fn' sn' \<and> binds H m n fr sr (set (start_trace H fn sn F cs))))"

lemma binds_start:
  assumes h: "\<And>x. length (H x) = 32" and "length F = 32" "m = int n"
  shows "binds H m n F F S"
  unfolding binds_def
proof (intro conjI allI impI)
  fix P D :: "bytes list"
  assume "length D = n" "int (length P) = m" "F = mth H P" "F = mth H D"
  then have "P = take (nat m) D \<or> collision H (mth_inputs H P \<union> mth_inputs H D)"
    using mth_binding [of H P D] h assms(3) by simp
  then show "P = take (nat m) D \<or> collision H (mth_inputs H P \<union> mth_inputs H D \<union> S)"
    by (rule or_collision_mono) auto
qed (use assms in auto)

lemma run_at_snoc_left:
  assumes h: "\<And>x. length (H x) = 32"
    and n: "2 ^ j < n" "n \<le> 2 ^ Suc j" "m \<le> 2 ^ j" "0 < m"
    and IH: "run_at H m (2 ^ j) fn sn F cs (\<lambda>fn' sn'. fn' = 2 * a \<and> sn' = b)" "length cs = levels m (2 ^ j)"
    and a: "0 \<le> a" "2 * a < b"
  shows "\<exists>fr sr. start_run H fn sn F (cs @ [c]) = Some (a, drop_bit (Suc 0) b, fr, sr) \<and>
    binds H m n fr sr (set (start_trace H fn sn F (cs @ [c])))"
proof -
  from IH obtain fr sr where run: "start_run H fn sn F cs = Some (2 * a, b, fr, sr)"
    and b: "binds H m (2 ^ j) fr sr (set (start_trace H fn sn F cs))" by (auto simp: run_at_def)
  have "set (start_trace H fn sn F (cs @ [c])) = insert (1 # sr @ c) (set (start_trace H fn sn F cs))"
    using a by (auto simp: start_trace_append [OF run])
  then show ?thesis
    using binds_left [OF h n(1-3) b, of c] run_step_left [OF a, of H fr sr c]
    by (simp add: start_run_append run)
qed

lemma run_at_snoc_right:
  assumes h: "\<And>x. length (H x) = 32" and c: "length c = 32"
    and n: "2 ^ j < n" "n \<le> 2 ^ Suc j" "2 ^ j < m" "m \<le> int n"
    and IH: "run_at H (m - 2 ^ j) (n - 2 ^ j) fn sn F cs (\<lambda>fn' sn'. goal fn' sn')"
      "length cs = levels (m - 2 ^ j) (n - 2 ^ j)"
    and step: "\<And>fn' sn' fr sr. goal fn' sn' \<Longrightarrow> (odd fn' \<or> fn' = sn') \<and> sn' \<noteq> 0 \<and>
      consistency_run H fn' sn' fr sr [c] = Some (f, s, node_hash H c fr, node_hash H c sr)"
  shows "\<exists>fr sr. start_run H fn sn F (cs @ [c]) = Some (f, s, fr, sr) \<and>
    binds H m n fr sr (set (start_trace H fn sn F (cs @ [c])))"
proof -
  from IH obtain fn' sn' fr sr where run: "start_run H fn sn F cs = Some (fn', sn', fr, sr)" "goal fn' sn'"
    and b: "binds H (m - 2 ^ j) (n - 2 ^ j) fr sr (set (start_trace H fn sn F cs))" by (auto simp: run_at_def)
  have "set (start_trace H fn sn F (cs @ [c])) =
      insert (1 # c @ fr) (insert (1 # c @ sr) (set (start_trace H fn sn F cs)))"
    using step [OF run(2), of fr sr] by (auto simp: start_trace_append [OF run(1)] split: prod.splits)
  then show ?thesis
    using binds_right [OF h c n b] step [OF run(2), of fr sr]
    by (simp only: start_run_append run option.case prod.case) blast
qed

lemma run_at_short:
  assumes "run_at H m' n' fn sn F cs goal" "length cs \<le> levels m' n'"
    and "\<And>fn' sn'. goal fn' sn' \<Longrightarrow> 0 < sn'" "levels m n = Suc (levels m' n')"
  shows "run_at H m n fn sn F cs goal'"
  using assms by (auto simp: run_at_def le_less)

lemma run_at_full:
  assumes "\<exists>fr sr. start_run H fn sn F cs = Some (f, s, fr, sr) \<and> binds H m n fr sr (set (start_trace H fn sn F cs))"
    and "length cs = levels m n" "goal f s"
  shows "run_at H m n fn sn F cs goal"
  using assms by (auto simp: run_at_def)

lemma snoc_of_length:
  assumes "length cs \<le> Suc l" "\<not> length cs \<le> l"
  obtains cs' c where "cs = cs' @ [c]" "length cs' = l"
  using assms by (cases cs rule: rev_cases) auto

lemma run_at_left:
  assumes h: "\<And>x. length (H x) = 32"
    and n: "2 ^ j < n" "n \<le> 2 ^ Suc j" "m \<le> 2 ^ j" "0 < m" "levels m n = Suc (levels m (2 ^ j))"
    and IH: "\<And>xs. length xs \<le> levels m (2 ^ j) \<Longrightarrow> \<forall>c\<in>set xs. length c = 32 \<Longrightarrow>
      run_at H m (2 ^ j) fn sn F xs (\<lambda>fn' sn'. fn' = 2 * a \<and> sn' = b)"
    and cs: "length cs \<le> levels m n" "\<forall>c\<in>set cs. length c = 32"
    and a: "0 \<le> a" "2 * a < b" "goal a (drop_bit (Suc 0) b)"
  shows "run_at H m n fn sn F cs goal"
proof (cases "length cs \<le> levels m (2 ^ j)")
  case True
  from run_at_short [OF IH [OF this cs(2)] this _ n(5)] a show ?thesis by auto
next
  case False
  with cs(1) n(5) obtain cs' c where snoc: "cs = cs' @ [c]" "length cs' = levels m (2 ^ j)"
    by (metis snoc_of_length)
  have "\<exists>fr sr. start_run H fn sn F (cs' @ [c]) = Some (a, drop_bit (Suc 0) b, fr, sr) \<and>
      binds H m n fr sr (set (start_trace H fn sn F (cs' @ [c])))"
    by (rule run_at_snoc_left [OF h n(1-4) IH]) (use snoc cs a in auto)
  then show ?thesis unfolding snoc(1) using snoc(2) n(5) a(3) by (intro run_at_full) auto
qed

lemma run_at_right:
  assumes h: "\<And>x. length (H x) = 32"
    and n: "2 ^ j < n" "n \<le> 2 ^ Suc j" "2 ^ j < m" "m \<le> int n" "levels m n = Suc (levels (m - 2 ^ j) (n - 2 ^ j))"
    and IH: "\<And>xs. length xs \<le> levels (m - 2 ^ j) (n - 2 ^ j) \<Longrightarrow> \<forall>c\<in>set xs. length c = 32 \<Longrightarrow>
      run_at H (m - 2 ^ j) (n - 2 ^ j) fn sn F xs goal"
    and cs: "length cs \<le> levels m n" "\<forall>c\<in>set cs. length c = 32"
    and step: "\<And>fn' sn' fr sr c. goal fn' sn' \<Longrightarrow> (odd fn' \<or> fn' = sn') \<and> 0 < sn' \<and>
      consistency_run H fn' sn' fr sr [c] = Some (f, s, node_hash H c fr, node_hash H c sr)"
    and goal: "goal' f s"
  shows "run_at H m n fn sn F cs goal'"
proof (cases "length cs \<le> levels (m - 2 ^ j) (n - 2 ^ j)")
  case True
  from run_at_short [OF IH [OF this cs(2)] this _ n(5)] step show ?thesis by blast
next
  case False
  with cs(1) n(5) obtain cs' c where snoc: "cs = cs' @ [c]" "length cs' = levels (m - 2 ^ j) (n - 2 ^ j)"
    by (metis snoc_of_length)
  have "\<exists>fr sr. start_run H fn sn F (cs' @ [c]) = Some (f, s, fr, sr) \<and>
      binds H m n fr sr (set (start_trace H fn sn F (cs' @ [c])))"
    by (rule run_at_snoc_right [OF h _ n(1-4) IH])
      (use snoc cs step in \<open>auto simp del: consistency_run.simps simp: less_imp_neq [symmetric]\<close>)
  then show ?thesis unfolding snoc(1) using snoc(2) n(5) goal by (intro run_at_full) auto
qed

lemma run_perfect:
  assumes h: "\<And>x. length (H x) = 32" and "\<forall>c\<in>set cs. length c = 32" "length F = 32"
    and "0 < m" "m \<le> 2 ^ t" "0 \<le> a" "a < b" "m = 2 ^ t \<longrightarrow> even a" "0 \<le> r" "r < 2 ^ t"
    and "length cs \<le> levels m (2 ^ t)"
  shows "run_at H m (2 ^ t) (a * 2 ^ t + (m - 1)) (b * 2 ^ t + r) F cs (\<lambda>fn sn. fn = a \<and> sn = b)"
  using assms(2-)
proof (induction t arbitrary: m a b r cs)
  case 0
  then have "m = 1" "r = 0" "cs = []" "even a" by (auto simp: levels_full)
  with 0 show ?case
    using strip_odd_ones [of a 0 b] binds_start [OF h, of F 1 1]
    by (auto simp: run_at_def start_run_def start_trace_def levels_full)
next
  case (Suc j)
  show ?case
  proof (cases "m = 2 ^ Suc j")
    case True
    have "levels m (2 ^ Suc j) = 0" using True by (intro levels_full) simp
    then have cs: "cs = []" using Suc.prems(10) by simp
    have "drop_bit (Suc j) (b * 2 ^ Suc j + r) = b"
      using Suc.prems(8,9) by (simp add: drop_bit_eq_div)
    then have "start_run H (a * 2 ^ Suc j + (m - 1)) (b * 2 ^ Suc j + r) F [] = Some (a, b, F, F)"
      using Suc.prems(5,7) True strip_odd_ones [of a "Suc j" "b * 2 ^ Suc j + r"]
      by (auto simp: start_run_def simp del: power_Suc)
    then show ?thesis
      using binds_start [OF h Suc.prems(2), of m "2 ^ Suc j"] True cs
      by (intro run_at_full) (auto simp: levels_full simp del: power_Suc)
  next
    case False
    from Suc.prems(8,9) obtain q r' where
      r: "r = q * 2 ^ j + r'" "q = 0 \<or> q = 1" "0 \<le> r'" "r' < 2 ^ j" by (rule low_bits_split)
    have n: "(2::nat) ^ j < 2 ^ Suc j" "(2::nat) ^ Suc j \<le> 2 ^ Suc j" "(2::nat) \<le> 2 ^ Suc j" by auto
    have m: "m < int (2 ^ Suc j)" using False Suc.prems(4) by simp
    have lt: "2 * a + 1 < 2 * b + q" "drop_bit (Suc 0) (2 * b + q) = b" "0 < 2 * b + q"
      using Suc.prems(5,6) r(2) by (auto simp: halves)
    show ?thesis
    proof (cases "m \<le> 2 ^ j")
      case True
      have lv: "levels m (2 ^ Suc j) = Suc (levels m (2 ^ j))" by (rule levels_left [OF n(1,2) True m n(3)])
      have ctx: "a * 2 ^ Suc j + (m - 1) = (2 * a) * 2 ^ j + (m - 1)" "b * 2 ^ Suc j + r = (2 * b + q) * 2 ^ j + r'"
        using r(1) by (simp_all add: algebra_simps)
      show ?thesis
        unfolding ctx
        by (rule run_at_left [OF h n(1,2) True Suc.prems(3) lv, where b = "2 * b + q" and a = a])
          (use Suc True lt r in auto)
    next
      case False
      then have gt: "2 ^ j < m" by simp
      have half: "(2::nat) ^ Suc j - 2 ^ j = 2 ^ j" by simp
      have lv: "levels m (2 ^ Suc j) = Suc (levels (m - 2 ^ j) (2 ^ j))"
        using levels_right [OF n(1,2) gt m n(3)] by (simp add: half del: power_Suc)
      have ctx: "a * 2 ^ Suc j + (m - 1) = (2 * a + 1) * 2 ^ j + (m - 2 ^ j - 1)"
          "b * 2 ^ Suc j + r = (2 * b + q) * 2 ^ j + r'"
        using r(1) by (simp_all add: algebra_simps)
      show ?thesis
        unfolding ctx
      proof (rule run_at_right [OF h n(1,2) gt _ _ _ Suc.prems(10,1),
            where goal = "\<lambda>fn sn. fn = 2 * a + 1 \<and> sn = 2 * b + q" and f = a and s = b])
        show "run_at H (m - 2 ^ j) (2 ^ Suc j - 2 ^ j) ((2 * a + 1) * 2 ^ j + (m - 2 ^ j - 1)) ((2 * b + q) * 2 ^ j + r') F xs
            (\<lambda>fn sn. fn = 2 * a + 1 \<and> sn = 2 * b + q)"
          if "length xs \<le> levels (m - 2 ^ j) (2 ^ Suc j - 2 ^ j)" "\<forall>c\<in>set xs. length c = 32" for xs
          unfolding half by (rule Suc.IH) (use Suc.prems gt False that lt r \<open>m \<noteq> 2 ^ Suc j\<close> half in auto)
      qed (use lt lv m half run_step_right [of a "2 * b + q"] Suc.prems(5) in \<open>auto simp del: consistency_run.simps power_Suc\<close>)
    qed
  qed
qed

lemma run_edge:
  assumes h: "\<And>x. length (H x) = 32" and "\<forall>c\<in>set cs. length c = 32" "length F = 32"
    and "n \<le> 2 ^ t" "0 < m" "m < int n" "0 \<le> a" "length cs \<le> levels m n"
  shows "run_at H m n (a * 2 ^ t + (m - 1)) (a * 2 ^ t + (int n - 1)) F cs (\<lambda>fn sn. \<exists>s. fn = a * 2 ^ s \<and> sn = a * 2 ^ s)"
  using assms(2-)
proof (induction n arbitrary: t m a cs rule: less_induct)
  case (less n)
  have two: "2 \<le> n" using less.prems(4,5) by linarith
  then obtain j where n: "2 ^ j < n" "n \<le> 2 ^ Suc j" by (rule split_power)
  have "(2::nat) ^ j < 2 ^ t" using n(1) less.prems(3) by (rule less_le_trans)
  then obtain d where t: "t = Suc (j + d)" by (metis less_iff_Suc_add nat_power_less_imp_less zero_less_numeral)
  define r where "r = int n - 1 - 2 ^ j"
  have r: "0 \<le> r" "r < 2 ^ j" using pow_less_int [OF n(1)] pow_ge_int [OF n(2)] by (auto simp: r_def)
  let ?a = "a * 2 ^ d"
  have a: "0 \<le> ?a" using less.prems(6) by simp
  show ?case
  proof (cases "m \<le> 2 ^ j")
    case True
    have ctx: "a * 2 ^ t + (m - 1) = (2 * ?a) * 2 ^ j + (m - 1)" "a * 2 ^ t + (int n - 1) = (2 * ?a + 1) * 2 ^ j + r"
      using t by (simp_all add: r_def algebra_simps power_add)
    show ?thesis
      unfolding ctx
    proof (rule run_at_left [OF h n True less.prems(4) levels_left [OF n True less.prems(5) two] _ less.prems(7,1),
          where a = ?a and b = "2 * ?a + 1"])
      show "run_at H m (2 ^ j) (2 * ?a * 2 ^ j + (m - 1)) ((2 * ?a + 1) * 2 ^ j + r) F xs (\<lambda>fn sn. fn = 2 * ?a \<and> sn = 2 * ?a + 1)"
        if "length xs \<le> levels m (2 ^ j)" "\<forall>c\<in>set xs. length c = 32" for xs
        by (rule run_perfect [OF h]) (use less.prems True r a that in auto)
    qed (use a halves(2) [of ?a] in auto)
  next
    case False
    then have gt: "2 ^ j < m" by simp
    have ctx: "a * 2 ^ t + (m - 1) = (2 * ?a + 1) * 2 ^ j + (m - 2 ^ j - 1)"
        "a * 2 ^ t + (int n - 1) = (2 * ?a + 1) * 2 ^ j + (int (n - 2 ^ j) - 1)"
      using t n by (simp_all add: algebra_simps power_add of_nat_diff)
    show ?thesis
      unfolding ctx
    proof (rule run_at_right [OF h n gt _ levels_right [OF n gt less.prems(5) two] _ less.prems(7,1),
          where goal = "\<lambda>fn sn. \<exists>s. fn = (2 * ?a + 1) * 2 ^ s \<and> sn = (2 * ?a + 1) * 2 ^ s" and f = ?a and s = ?a])
      show "run_at H (m - 2 ^ j) (n - 2 ^ j) ((2 * ?a + 1) * 2 ^ j + (m - 2 ^ j - 1)) ((2 * ?a + 1) * 2 ^ j + (int (n - 2 ^ j) - 1)) F xs
          (\<lambda>fn sn. \<exists>s. fn = (2 * ?a + 1) * 2 ^ s \<and> sn = (2 * ?a + 1) * 2 ^ s)"
        if "length xs \<le> levels (m - 2 ^ j) (n - 2 ^ j)" "\<forall>c\<in>set xs. length c = 32" for xs
        by (rule less.IH) (use less.prems gt a that n in \<open>auto simp: of_nat_diff\<close>)
    qed (use less.prems(5) a run_step_edge [OF a] in \<open>auto simp del: consistency_run.simps\<close>)
  qed
qed

lemma start_run_exact:
  assumes h: "\<And>x. length (H x) = 32" and "\<forall>c\<in>set cs. length c = 32" "length F = 32"
    and m: "0 < m" "m < int n" and run: "start_run H (m - 1) (int n - 1) F cs = Some (fn, 0, fr, sr)"
  shows "binds H m n fr sr (set (start_trace H (m - 1) (int n - 1) F cs))"
proof -
  obtain t where t: "n \<le> 2 ^ t" using less_exp less_imp_le by blast
  have edge: "run_at H m n (m - 1) (int n - 1) F xs (\<lambda>fn sn. fn = 0 \<and> sn = 0)"
    if "length xs \<le> levels m n" "\<forall>c\<in>set xs. length c = 32" for xs
    using run_edge [OF h that(2) assms(3) t m, of 0] that(1) by simp
  consider "length cs < levels m n" | "length cs = levels m n" | "levels m n < length cs" by linarith
  then show ?thesis
  proof cases
    case 3
    have "length (take (levels m n) cs) = levels m n" using 3 by simp
    with id_take_nth_drop [OF 3] obtain xs y ys where cs: "cs = xs @ y # ys" "length xs = levels m n" by metis
    have "run_at H m n (m - 1) (int n - 1) F xs (\<lambda>fn sn. fn = 0 \<and> sn = 0)"
      by (rule edge) (use assms(2) cs in auto)
    then show ?thesis using run cs(2) by (auto simp: run_at_def cs(1) start_run_append)
  qed (use edge [of cs] assms(2) run in \<open>auto simp: run_at_def\<close>)
qed

text \<open>The old root of an accepted proof is the hash of a prefix, whatever the log claims it to be.\<close>

lemma consistency_extracts:
  assumes h: "\<And>x. length (H x) = 32" and proof32: "\<forall>c\<in>set proof. length c = 32" and old32: "length old_root = 32"
    and m: "0 < m" and acc: "verify_consistency H m (int (length D)) proof old_root (mth H D)"
  shows "old_root = mth H (take (nat m) D) \<or> collision H (mth_inputs H D \<union> consistency_inputs H m (int (length D)) proof old_root)"
proof (cases "m = int (length D)")
  case True
  then show ?thesis using acc by (simp add: verify_consistency_def split: if_splits)
next
  case False
  let ?n = "int (length D)"
  from acc False obtain p0 cs where p: "(if and m (m - 1) = 0 then old_root # proof else proof) = p0 # cs" and lt: "m < ?n"
    and run: "\<exists>fn. start_run H (m - 1) (?n - 1) p0 cs = Some (fn, 0, old_root, mth H D)"
    by (auto simp: verify_consistency_def start_run_def Let_def split: if_splits list.splits option.splits prod.splits)
  have "length p0 = 32" "\<forall>c\<in>set cs. length c = 32" using p proof32 old32 by (auto split: if_splits)
  with run m lt have "binds H m (length D) old_root (mth H D) (set (start_trace H (m - 1) (?n - 1) p0 cs))"
    using start_run_exact [where H = H and cs = cs and F = p0 and m = m and n = "length D", OF h] by blast
  from bindsE [OF this refl refl] show ?thesis using p by (simp add: consistency_inputs_def)
qed

text \<open>
  C8. Soundness of append-only proofs: if \<^verbatim>\<open>verify_consistency\<close> accepts some path of 32-octet elements between the
  tree hashes of two lists of leaves, the old list is a prefix of the new one, or two different octet
  strings hashed by one of the trees or by the verifier collide.
\<close>

theorem consistency_sound:
  assumes hash32: "\<And>x. length (H x) = 32" and proof32: "\<forall>c\<in>set proof. length c = 32"
    and accepted: "verify_consistency H (int (length old)) (int (length new)) proof (mth H old) (mth H new)"
  shows "old = take (length old) new \<or>
    collision H (mth_inputs H old \<union> mth_inputs H new \<union>
      consistency_inputs H (int (length old)) (int (length new)) proof (mth H old))"
proof (cases "length old = length new")
  case True
  then have "mth H old = mth H new" using accepted by (simp add: verify_consistency_def split: if_splits)
  then have "old = take (length old) new \<or> collision H (mth_inputs H old \<union> mth_inputs H new)"
    using mth_binding [of H old new] hash32 True by simp
  then show ?thesis by (rule or_collision_mono) auto
next
  case False
  let ?m = "int (length old)" and ?n = "int (length new)"
  have m: "0 < ?m" "?m < ?n" using accepted False by (auto simp: verify_consistency_def split: if_splits)
  from accepted False obtain p0 cs fn where p: "(if and ?m (?m - 1) = 0 then mth H old # proof else proof) = p0 # cs"
    and run: "start_run H (?m - 1) (?n - 1) p0 cs = Some (fn, 0, mth H old, mth H new)"
    by (auto simp: verify_consistency_def start_run_def Let_def split: if_splits list.splits option.splits prod.splits)
  have "length p0 = 32" "\<forall>c\<in>set cs. length c = 32"
    using p proof32 length_mth [OF hash32] by (auto split: if_splits)
  from start_run_exact [OF hash32 this(2,1) m run]
  have "binds H ?m (length new) (mth H old) (mth H new) (set (start_trace H (?m - 1) (?n - 1) p0 cs))" .
  from bindsD [OF this, of new old] show ?thesis
    using p by (simp add: consistency_inputs_def)
qed

theorem consistency_sound_witness:
  "verify_consistency example_hash 2 3 [leaf_hash example_hash [3]] (mth example_hash [[1], [2]]) (mth example_hash [[1], [2], [3]]) \<and>
   ([[1], [2]] = take 2 [[1], [2], [3]] \<or>
    collision example_hash (mth_inputs example_hash [[1], [2]] \<union> mth_inputs example_hash [[1], [2], [3]] \<union>
      consistency_inputs example_hash 2 3 [leaf_hash example_hash [3]] (mth example_hash [[1], [2]])))"
proof -
  let ?old = "[[1], [2]]" and ?new = "[[1], [2], [3]]" and ?p = "[leaf_hash example_hash [3]]"
  have "verify_consistency example_hash 2 3 ?p (mth example_hash ?old) (mth example_hash ?new)"
    by code_simp
  with consistency_sound [of example_hash ?p ?old ?new] show ?thesis
    by (simp add: leaf_hash_def)
qed

end
