(* ===== verification/Merkle_Inclusion.thy ===== *)
theory Merkle_Inclusion
  imports Merkle_Binding
begin

text \<open>
  What an accepted audit path proves. The bit loop of \<^verbatim>\<open>verify_inclusion\<close> is first reduced to the list of
  directions it takes; that list, read from the root, leads to the claimed leaf of the tree of the
  claimed size, also when the path is longer than needed (the loop does not stop at \<^verbatim>\<open>sn == 0\<close>).
\<close>

section \<open>Directions taken by the loop\<close>

text \<open>\<open>True\<close>: the sibling is on the left, the node is a right child.\<close>

fun dirs :: "nat \<Rightarrow> int \<Rightarrow> int \<Rightarrow> bool list \<times> int \<times> int" where
  "dirs 0 fn sn = ([], fn, sn)"
| "dirs (Suc l) fn sn =
     (let d = (fn = sn \<or> odd fn); (fn', sn') = (if d then strip_even fn sn else (fn, sn));
          (ds, st) = dirs l (drop_bit 1 fn') (drop_bit 1 sn')
      in (d # ds, st))"

fun climb :: "hashf \<Rightarrow> bytes \<Rightarrow> bool list \<Rightarrow> bytes list \<Rightarrow> bytes" where
  "climb H h (d # ds) (c # cs) = climb H (if d then node_hash H c h else node_hash H h c) ds cs"
| "climb H h _ _ = h"

fun climb_inputs :: "hashf \<Rightarrow> bytes \<Rightarrow> bool list \<Rightarrow> bytes list \<Rightarrow> bytes list" where
  "climb_inputs H h (d # ds) (c # cs) =
     (if d then 1 # c @ h else 1 # h @ c) # climb_inputs H (if d then node_hash H c h else node_hash H h c) ds cs"
| "climb_inputs H h _ _ = []"

lemma length_dirs: "length (fst (dirs l fn sn)) = l"
  by (induction l arbitrary: fn sn) (simp_all add: Let_def case_prod_beta)

lemma foldl_inclusion_step:
  "foldl (inclusion_step H) (fn, sn, h) ps =
    (let (ds, fn', sn') = dirs (length ps) fn sn in (fn', sn', climb H h ds ps))"
  by (induction ps arbitrary: fn sn h) (auto simp: Let_def split: prod.splits)

lemma inclusion_trace_climb:
  "inclusion_trace H (fn, sn, h) ps = climb_inputs H h (fst (dirs (length ps) fn sn)) ps"
  by (induction ps arbitrary: fn sn h) (auto simp: Let_def split: prod.splits)

lemma dirs_add:
  "dirs (l + l') fn sn =
    (let (ds, fn', sn') = dirs l fn sn; (ds', st) = dirs l' fn' sn' in (ds @ ds', st))"
  by (induction l arbitrary: fn sn) (auto simp: Let_def split: prod.splits)

lemma climb_snoc:
  "length ds = length cs \<Longrightarrow> climb H h (ds @ [d]) (cs @ [c]) =
    (if d then node_hash H c (climb H h ds cs) else node_hash H (climb H h ds cs) c)"
  by (induction ds cs arbitrary: h rule: list_induct2) auto

lemma climb_inputs_snoc:
  "length ds = length cs \<Longrightarrow> climb_inputs H h (ds @ [d]) (cs @ [c]) =
    climb_inputs H h ds cs @ [if d then 1 # c @ climb H h ds cs else 1 # climb H h ds cs @ c]"
  by (induction ds cs arbitrary: h rule: list_induct2) auto

section \<open>Positions in the tree\<close>

text \<open>From the root: the directions to leaf \<open>m\<close>, and the leaf a list of directions ends at.\<close>

function path :: "nat \<Rightarrow> int \<Rightarrow> bool list" where
  "path n m =
     (if n < 2 then []
      else let k = largest_pow2_below n in
        if m < int k then False # path k m else True # path (n - k) (m - int k))"
  by pat_completeness auto
termination
  by (relation "measure (\<lambda>(n, m). n)") (auto simp: not_less largest_pow2_below_bounds)

declare path.simps [simp del]

fun walk :: "nat \<Rightarrow> bool list \<Rightarrow> int option" where
  "walk n [] = (if n = 1 then Some 0 else None)"
| "walk n (d # ds) =
     (if n < 2 then None
      else let k = largest_pow2_below n in
        if d then map_option (\<lambda>i. i + int k) (walk (n - k) ds) else walk k ds)"

lemma path_split:
  assumes "2 ^ j < n" "n \<le> 2 ^ Suc j"
  shows "path n m = (if m < 2 ^ j then False # path (2 ^ j) m else True # path (n - 2 ^ j) (m - 2 ^ j))"
proof -
  have "2 \<le> n" using assms(1) by (metis Suc_1 Suc_leI le_less_trans one_le_numeral one_le_power)
  then show ?thesis using assms by (subst path.simps) (simp add: Let_def largest_pow2_below_unique)
qed

lemma path_perfect: "0 \<le> m \<Longrightarrow> m < 2 ^ t \<Longrightarrow> length (path (2 ^ t) m) = t"
proof (induction t arbitrary: m)
  case 0
  then show ?case by (subst path.simps) simp
next
  case (Suc t)
  then show ?case using path_split [of t "2 ^ Suc t" m] by auto
qed

lemma walk_height: "walk n ds = Some i \<Longrightarrow> n \<le> 2 ^ t \<Longrightarrow> length ds \<le> t"
proof (induction ds arbitrary: n i t)
  case (Cons d ds)
  then have "2 \<le> n" by (auto split: if_splits)
  then obtain j where j: "largest_pow2_below n = 2 ^ j" "2 ^ j < n" "n \<le> 2 ^ Suc j" by (rule largest_pow2_below_power)
  have "(2::nat) ^ j < 2 ^ t" using j(2) Cons.prems(2) by (rule less_le_trans)
  then obtain t' where t: "t = Suc t'" "j \<le> t'"
    by (metis less_Suc_eq_le less_natE nat_power_less_imp_less old.nat.exhaust zero_less_numeral gr_implies_not0)
  then have "(2::nat) ^ j \<le> 2 ^ t'" by simp
  then have "n - 2 ^ j \<le> 2 ^ t'" using j(3) unfolding power_Suc by linarith
  then have "length ds \<le> t'"
    using Cons j \<open>2 ^ j \<le> 2 ^ t'\<close> \<open>2 \<le> n\<close> by (auto simp: Let_def split: if_splits)
  then show ?case using t by simp
qed simp

lemma walk_path: "0 \<le> m \<Longrightarrow> m < int n \<Longrightarrow> walk n (path n m) = Some m"
proof (induction n arbitrary: m rule: less_induct)
  case (less n)
  show ?case
  proof (cases "n < 2")
    case True
    with less.prems have "n = 1" "m = 0" by linarith+
    then show ?thesis by (subst path.simps) simp
  next
    case False
    then obtain j where j: "largest_pow2_below n = 2 ^ j" "2 ^ j < n" "n \<le> 2 ^ Suc j"
      using largest_pow2_below_power [of n] by (metis not_less)
    show ?thesis
      using less.IH [of "2 ^ j" m] less.IH [of "n - 2 ^ j" "m - 2 ^ j"] less.prems j False
      by (auto simp: path_split Let_def of_nat_diff)
  qed
qed

text \<open>The sizes met along the right edge of the tree.\<close>

fun right_edge :: "nat \<Rightarrow> nat \<Rightarrow> nat option" where
  "right_edge 0 n = Some n"
| "right_edge (Suc e) n = (if n < 2 then None else right_edge e (n - largest_pow2_below n))"

lemma right_edge_le: "right_edge e n = Some n' \<Longrightarrow> n' \<le> n"
  by (induction e arbitrary: n) (auto split: if_splits, fastforce)

lemma right_edge_step:
  "right_edge e n = Some n' \<Longrightarrow> 2 \<le> n' \<Longrightarrow> right_edge (Suc e) n = Some (n' - largest_pow2_below n')"
proof (induction e arbitrary: n)
  case (Suc e)
  then have "2 \<le> n" "right_edge e (n - largest_pow2_below n) = Some n'" by (auto split: if_splits)
  with Suc have "right_edge (Suc e) (n - largest_pow2_below n) = Some (n' - largest_pow2_below n')" by blast
  with \<open>2 \<le> n\<close> show ?case by (subst right_edge.simps(2)) (simp del: right_edge.simps)
qed simp

lemma walk_right_edge:
  "walk n (replicate e True @ ds) = Some i \<Longrightarrow> \<exists>n' i'. right_edge e n = Some n' \<and> walk n' ds = Some i'"
  by (induction e arbitrary: n i) (auto simp: Let_def split: if_splits)

text \<open>No leaf lies on the way to \<open>m\<close> continued below a proper right-edge subtree.\<close>

lemma walk_path_below_edge:
  "right_edge (Suc e) n = Some n' \<Longrightarrow> 0 \<le> m \<Longrightarrow> m < int n \<Longrightarrow> walk n' (path n m) = None"
proof (induction n arbitrary: e n' m rule: less_induct)
  case (less n)
  from less.prems(1) have "2 \<le> n" by (auto split: if_splits)
  then obtain j where j: "largest_pow2_below n = 2 ^ j" "2 ^ j < n" "n \<le> 2 ^ Suc j" by (rule largest_pow2_below_power)
  have edge: "right_edge e (n - 2 ^ j) = Some n'" using less.prems(1) j \<open>2 \<le> n\<close> by simp
  have n': "n' \<le> 2 ^ j" using right_edge_le [OF edge] j(3) by simp
  show ?case
  proof (cases "n' < 2")
    case True
    then show ?thesis using path_split [OF j(2,3), of m] by auto
  next
    case False
    then have two: "2 \<le> n'" by simp
    then obtain i where i: "largest_pow2_below n' = 2 ^ i" "2 ^ i < n'" "n' \<le> 2 ^ Suc i" by (rule largest_pow2_below_power)
    have "(2::nat) ^ i < 2 ^ j" using i(2) n' by (rule less_le_trans)
    then have ij: "i < j" by (simp add: nat_power_less_imp_less)
    show ?thesis
    proof (cases "m < 2 ^ j")
      case True
      have "walk (2 ^ i) (path (2 ^ j) m) \<noteq> Some x" for x
        using walk_height [of "2 ^ i" "path (2 ^ j) m" x i] path_perfect [OF less.prems(2) True] ij by auto
      then have "walk (2 ^ i) (path (2 ^ j) m) = None" by (cases "walk (2 ^ i) (path (2 ^ j) m)") auto
      then show ?thesis using path_split [OF j(2,3), of m] True False i by (simp add: Let_def)
    next
      case False
      have "walk (n' - 2 ^ i) (path (n - 2 ^ j) (m - 2 ^ j)) = None"
        by (rule less.IH [where e = e]) (use right_edge_step [OF edge two] i(1) False less.prems j(2) in \<open>auto simp: of_nat_diff\<close>)
      then show ?thesis using path_split [OF j(2,3), of m] False two i by (simp add: Let_def)
    qed
  qed
qed

section \<open>The loop follows the path\<close>

lemma dirs_Suc_left:
  assumes "dirs l fn sn = (ds, 2 * a, b)" "0 \<le> a" "2 * a < b"
  shows "dirs (Suc l) fn sn = (ds @ [False], a, drop_bit (Suc 0) b)"
  using assms dirs_add [of l "Suc 0" fn sn] by (auto simp: halves)

lemma dirs_Suc_right:
  assumes "dirs l fn sn = (ds, 2 * a + 1, b)"
  shows "dirs (Suc l) fn sn = (ds @ [True], a, drop_bit (Suc 0) b)"
  using assms dirs_add [of l "Suc 0" fn sn] by (auto simp: halves strip_even_odd)

lemma dirs_Suc_edge:
  assumes "dirs l fn sn = (ds, (2 * a + 1) * 2 ^ s, (2 * a + 1) * 2 ^ s)"
  shows "dirs (Suc l) fn sn = (ds @ [True], a, a)"
  using assms dirs_add [of l "Suc 0" fn sn] strip_even_pow [of "2 * a + 1" s "(2 * a + 1) * 2 ^ s"]
  by (auto simp: halves drop_bit_eq_div)

lemma dirs_perfect:
  assumes "0 \<le> m" "m < 2 ^ t" "0 \<le> a" "a < b" "0 \<le> r" "r < 2 ^ t"
  shows "dirs t (a * 2 ^ t + m) (b * 2 ^ t + r) = (rev (path (2 ^ t) m), a, b)"
  using assms
proof (induction t arbitrary: m a b r)
  case 0
  then show ?case by (simp add: path.simps)
next
  case (Suc j)
  from Suc.prems(5,6) obtain q r' where
    r: "r = q * 2 ^ j + r'" "q = 0 \<or> q = 1" "0 \<le> r'" "r' < 2 ^ j" by (rule low_bits_split)
  have lt: "2 * a + 1 < 2 * b + q" "drop_bit (Suc 0) (2 * b + q) = b"
    using Suc.prems(4) r(2) by (auto simp: halves)
  have p: "path (2 ^ Suc j) m = (if m < 2 ^ j then False # path (2 ^ j) m else True # path (2 ^ j) (m - 2 ^ j))"
    using path_split [of j "2 ^ Suc j" m] by simp
  have sn: "b * 2 ^ Suc j + r = (2 * b + q) * 2 ^ j + r'" using r(1) by (simp add: algebra_simps)
  show ?case
  proof (cases "m < 2 ^ j")
    case True
    have "dirs j ((2 * a) * 2 ^ j + m) ((2 * b + q) * 2 ^ j + r') = (rev (path (2 ^ j) m), 2 * a, 2 * b + q)"
      by (rule Suc.IH) (use Suc.prems True lt r in auto)
    from dirs_Suc_left [OF this Suc.prems(3)] lt True show ?thesis
      unfolding sn p by (simp add: algebra_simps)
  next
    case False
    have fn: "a * 2 ^ Suc j + m = (2 * a + 1) * 2 ^ j + (m - 2 ^ j)" by (simp add: algebra_simps)
    have "dirs j ((2 * a + 1) * 2 ^ j + (m - 2 ^ j)) ((2 * b + q) * 2 ^ j + r') = (rev (path (2 ^ j) (m - 2 ^ j)), 2 * a + 1, 2 * b + q)"
      by (rule Suc.IH) (use Suc.prems False lt r in auto)
    from dirs_Suc_right [OF this] lt False show ?thesis
      unfolding sn fn p by simp
  qed
qed

text \<open>Once the second counter is zero it stays zero; at the root every further direction is to the right.\<close>

lemma strip_even_zero: "\<exists>fn'. strip_even fn 0 = (fn', 0)"
proof (induction fn "0::int" rule: strip_even.induct)
  case (1 fn)
  show ?case
  proof (cases "even fn \<and> fn \<noteq> 0")
    case True
    then show ?thesis using 1 by (subst strip_even.simps) simp
  next
    case False
    then have "strip_even fn 0 = (fn, 0)" by (subst strip_even.simps) auto
    then show ?thesis by blast
  qed
qed

lemma dirs_zero: "snd (snd (dirs l fn 0)) = 0"
proof (induction l arbitrary: fn)
  case (Suc l)
  obtain fn' where "strip_even fn 0 = (fn', 0)" using strip_even_zero by blast
  with Suc [of "drop_bit (Suc 0) fn'"] Suc [of "drop_bit (Suc 0) fn"] show ?case
    by (simp add: Let_def case_prod_beta)
qed simp

lemma dirs_root: "dirs e 0 0 = (replicate e True, 0, 0)"
  by (induction e) (simp_all add: strip_even.simps)

lemma dirs_edge:
  assumes "n \<le> 2 ^ t" "0 \<le> m" "m < int n" "0 \<le> a"
  shows "(\<exists>s. dirs (length (path n m)) (a * 2 ^ t + m) (a * 2 ^ t + int n - 1) = (rev (path n m), a * 2 ^ s, a * 2 ^ s)) \<and>
    (path n m \<noteq> [] \<longrightarrow> 0 < snd (snd (dirs (length (path n m) - 1) (a * 2 ^ t + m) (a * 2 ^ t + int n - 1))))"
  using assms
proof (induction n arbitrary: t m a rule: less_induct)
  case (less n)
  show ?case
  proof (cases "n < 2")
    case True
    with less.prems have "n = 1" "m = 0" by linarith+
    then show ?thesis by (auto simp: path.simps)
  next
    case False
    then obtain j where n: "2 ^ j < n" "n \<le> 2 ^ Suc j" using split_power [of n] by (metis not_less)
    have "(2::nat) ^ j < 2 ^ t" using n(1) less.prems(1) by (rule less_le_trans)
    then obtain d where t: "t = Suc (j + d)" by (metis less_iff_Suc_add nat_power_less_imp_less zero_less_numeral)
    define r where "r = int n - 1 - 2 ^ j"
    have r: "0 \<le> r" "r < 2 ^ j" using pow_less_int [OF n(1)] pow_ge_int [OF n(2)] by (auto simp: r_def)
    let ?a = "a * 2 ^ d"
    have a: "0 \<le> ?a" using less.prems(4) by simp
    show ?thesis
    proof (cases "m < 2 ^ j")
      case True
      have ctx: "a * 2 ^ t + m = (2 * ?a) * 2 ^ j + m" "a * 2 ^ t + int n - 1 = (2 * ?a + 1) * 2 ^ j + r"
        using t by (simp_all add: r_def algebra_simps power_add)
      have run: "dirs j ((2 * ?a) * 2 ^ j + m) ((2 * ?a + 1) * 2 ^ j + r) = (rev (path (2 ^ j) m), 2 * ?a, 2 * ?a + 1)"
        by (rule dirs_perfect) (use less.prems True r a in auto)
      have p: "path n m = False # path (2 ^ j) m" "length (path (2 ^ j) m) = j"
        using path_split [OF n, of m] True path_perfect [OF less.prems(2) True] by auto
      show ?thesis
        unfolding ctx using dirs_Suc_left [OF run a] run p a halves(2) [of ?a] by auto
    next
      case False
      have ctx: "a * 2 ^ t + m = (2 * ?a + 1) * 2 ^ j + (m - 2 ^ j)"
          "a * 2 ^ t + int n - 1 = (2 * ?a + 1) * 2 ^ j + int (n - 2 ^ j) - 1"
        using t n by (simp_all add: algebra_simps power_add of_nat_diff)
      let ?p = "path (n - 2 ^ j) (m - 2 ^ j)"
      have "\<exists>s. dirs (length ?p) ((2 * ?a + 1) * 2 ^ j + (m - 2 ^ j)) ((2 * ?a + 1) * 2 ^ j + int (n - 2 ^ j) - 1) =
          (rev ?p, (2 * ?a + 1) * 2 ^ s, (2 * ?a + 1) * 2 ^ s)"
        using less.IH [of "n - 2 ^ j" j "m - 2 ^ j" "2 * ?a + 1"] less.prems False n a by (auto simp: of_nat_diff)
      then obtain s where run:
        "dirs (length ?p) ((2 * ?a + 1) * 2 ^ j + (m - 2 ^ j)) ((2 * ?a + 1) * 2 ^ j + int (n - 2 ^ j) - 1) =
          (rev ?p, (2 * ?a + 1) * 2 ^ s, (2 * ?a + 1) * 2 ^ s)" ..
      have p: "path n m = True # ?p" using path_split [OF n, of m] False by simp
      show ?thesis
        unfolding ctx using dirs_Suc_edge [OF run] run p a by auto
    qed
  qed
qed

lemma accepted_directions:
  assumes "0 \<le> m" "m < int n" "dirs l m (int n - 1) = (ds, fn, 0)"
  shows "\<exists>e. rev ds = replicate e True @ path n m"
proof -
  obtain t where "n \<le> 2 ^ t" using less_exp less_imp_le by blast
  from dirs_edge [OF this assms(1,2), of 0]
  have run: "dirs (length (path n m)) m (int n - 1) = (rev (path n m), 0, 0)"
    and last: "path n m \<noteq> [] \<longrightarrow> 0 < snd (snd (dirs (length (path n m) - 1) m (int n - 1)))" by auto
  show ?thesis
  proof (cases "length (path n m) \<le> l")
    case True
    then obtain e where "l = length (path n m) + e" using le_Suc_ex by blast
    then have "ds = rev (path n m) @ replicate e True"
      using assms(3) run dirs_root [of e] by (simp add: dirs_add)
    then show ?thesis by (intro exI [of _ e]) simp
  next
    case False
    then obtain e where e: "length (path n m) - 1 = l + e" "path n m \<noteq> []"
      using le_Suc_ex [of l "length (path n m) - 1"] by fastforce
    have "snd (snd (dirs (length (path n m) - 1) m (int n - 1))) = 0"
      using assms(3) dirs_zero [of e fn] unfolding e(1) by (simp add: dirs_add case_prod_beta)
    then show ?thesis using last e(2) by simp
  qed
qed

section \<open>Accepted audit paths\<close>

lemma leaf_node_collision:
  assumes "leaf_hash H d = node_hash H a b" "0 # d \<in> S" "1 # a @ b \<in> S"
  shows "collision H S"
  using collisionI [OF assms(2,3), of H] assms(1) by (simp add: leaf_hash_def node_hash_def)

lemma climb_length: "(\<And>x. length (H x) = 32) \<Longrightarrow> length h = 32 \<Longrightarrow> length (climb H h ds cs) = 32"
  by (induction H h ds cs rule: climb.induct) (auto simp: node_hash_def)

lemma node_mth_cases:
  assumes h: "\<And>x. length (H x) = 32" and len: "2 ^ j < length D" "length D \<le> 2 ^ Suc j"
    and "node_hash H a b = mth H D" "length a = 32 \<or> length b = 32" "1 # a @ b \<in> S" "mth_inputs H D \<subseteq> S"
  shows "a = mth H (take (2 ^ j) D) \<and> b = mth H (drop (2 ^ j) D) \<or> collision H S"
proof (cases "a @ b = mth H (take (2 ^ j) D) @ mth H (drop (2 ^ j) D)")
  case True
  have "length (a @ b) = 64" unfolding True using length_mth [of H, OF h] by simp
  then have "length a + length b = 64" by simp
  then have "length a = length (mth H (take (2 ^ j) D))" using assms(5) length_mth [of H, OF h] by auto
  then show ?thesis using True by simp
next
  case False
  then have "collision H S"
    using collisionI [of "1 # a @ b" S "1 # mth H (take (2 ^ j) D) @ mth H (drop (2 ^ j) D)" H]
      assms(4,6,7) mth_inputs_parts(3) [OF len, of H] mth_split_at [OF len, of H]
    by (auto simp: node_hash_def)
  then show ?thesis ..
qed

lemma walk_step:
  assumes "2 ^ j < n" "n \<le> 2 ^ Suc j"
  shows "walk n (b # ds) = (if b then map_option (\<lambda>i. i + 2 ^ j) (walk (n - 2 ^ j) ds) else walk (2 ^ j) ds)"
proof -
  have "2 \<le> n" using assms(1) by (metis Suc_1 Suc_leI le_less_trans one_le_numeral one_le_power)
  then show ?thesis using assms by (simp add: Let_def largest_pow2_below_unique)
qed

text \<open>A climb from a leaf hash to a tree hash ends at the leaf its directions lead to.\<close>

lemma climb_walk:
  assumes h: "\<And>x. length (H x) = 32"
    and "length ds = length cs" "D \<noteq> []" "climb H (leaf_hash H d) ds cs = mth H D"
  shows "(\<exists>i. walk (length D) (rev ds) = Some i \<and> 0 \<le> i \<and> i < int (length D) \<and> d = D ! nat i) \<or>
    collision H (mth_inputs H D \<union> insert (0 # d) (set (climb_inputs H (leaf_hash H d) ds cs)))"
  using assms(2-)
proof (induction ds arbitrary: cs D rule: rev_induct)
  case Nil
  show ?case
  proof (cases "length D = 1")
    case True
    then obtain x where "D = [x]" by (auto simp: length_Suc_conv)
    with Nil show ?thesis
      by (cases "d = x") (auto simp: mth_single leaf_hash_def mth_inputs.simps [of H "[x]"] collision_def)
  next
    case False
    then have "2 \<le> length D" using Nil.prems(2) by (intro length_ge_2) auto
    then obtain j where len: "2 ^ j < length D" "length D \<le> 2 ^ Suc j" by (rule split_power)
    have "collision H (mth_inputs H D \<union> insert (0 # d) {})"
      by (rule leaf_node_collision)
        (use Nil.prems mth_split_at [OF len, of H] mth_inputs_parts(3) [OF len, of H] in auto)
    then show ?thesis by (auto elim!: collision_mono)
  qed
next
  case (snoc b ds)
  from snoc.prems(1) obtain cs' c where cs: "cs = cs' @ [c]" "length ds = length cs'"
    by (cases cs rule: rev_cases) auto
  let ?h = "climb H (leaf_hash H d) ds cs'"
  let ?S = "mth_inputs H D \<union> insert (0 # d) (set (climb_inputs H (leaf_hash H d) (ds @ [b]) (cs' @ [c])))"
  have root: "mth H D = (if b then node_hash H c ?h else node_hash H ?h c)"
    using snoc.prems(3) cs by (simp add: climb_snoc)
  have last: "(if b then 1 # c @ ?h else 1 # ?h @ c) \<in> ?S" using cs(2) by (simp add: climb_inputs_snoc)
  have sub: "set (climb_inputs H (leaf_hash H d) ds cs') \<subseteq> set (climb_inputs H (leaf_hash H d) (ds @ [b]) (cs' @ [c]))"
    using cs(2) by (auto simp: climb_inputs_snoc)
  show ?case
  proof (cases "length D = 1")
    case True
    then obtain x where "D = [x]" by (auto simp: length_Suc_conv)
    then have "collision H ?S"
      using leaf_node_collision [of H x "if b then c else ?h" "if b then ?h else c" ?S] root last
      by (auto simp: mth_single mth_inputs.simps [of H "[x]"] split: if_splits)
    then show ?thesis using cs by simp
  next
    case False
    then have two: "2 \<le> length D" using snoc.prems(2) by (intro length_ge_2) auto
    then obtain j where len: "2 ^ j < length D" "length D \<le> 2 ^ Suc j" by (rule split_power)
    have lh: "length ?h = 32" by (simp add: climb_length h leaf_hash_def)
    let ?E = "if b then drop (2 ^ j) D else take (2 ^ j) D"
    have E: "?E \<noteq> []" "mth_inputs H ?E \<subseteq> mth_inputs H D" using len mth_inputs_parts [OF len, of H] by auto
    have "?h = mth H ?E \<or> collision H ?S"
      using node_mth_cases [of H, OF h len, of "if b then c else ?h" "if b then ?h else c" ?S] root lh last by (cases b) auto
    then show ?thesis
    proof
      assume "?h = mth H ?E"
      from snoc.IH [OF cs(2) E(1) this] have
        "(\<exists>i. walk (length ?E) (rev ds) = Some i \<and> 0 \<le> i \<and> i < int (length ?E) \<and> d = ?E ! nat i) \<or> collision H ?S"
        by (rule or_collision_mono) (use E(2) sub in auto)
      moreover have "\<exists>k. walk (length D) (rev (ds @ [b])) = Some k \<and> 0 \<le> k \<and> k < int (length D) \<and> d = D ! nat k"
        if "walk (length ?E) (rev ds) = Some i" "0 \<le> i" "i < int (length ?E)" "d = ?E ! nat i" for i
        using that len walk_step [OF len, of b "rev ds"] less_trans [OF _ pow_less_int [OF len(1)], of i]
        by (cases b) (auto simp: nat_add_distrib nat_power_eq add.commute of_nat_diff)
      ultimately show ?thesis unfolding cs(1) by blast
    qed (simp add: cs(1))
  qed
qed

lemma inclusion_binds:
  assumes h: "\<And>x. length (H x) = 32" and m: "0 \<le> m"
    and ok: "verify_inclusion H m (int (length leaves)) d proof (mth H leaves)"
  shows "d = leaves ! nat m \<or> collision H (mth_inputs H leaves \<union> inclusion_inputs H m (int (length leaves)) d proof)"
proof -
  let ?n = "length leaves"
  obtain ds fn sn where run: "dirs (length proof) m (int ?n - 1) = (ds, fn, sn)" by (metis prod_cases3)
  have acc: "m < int ?n" "sn = 0" "climb H (leaf_hash H d) ds proof = mth H leaves"
    using ok run by (auto simp: verify_inclusion_def foldl_inclusion_step split: if_splits)
  have len: "length ds = length proof" using length_dirs [of "length proof" m "int ?n - 1"] run by simp
  from run acc(2) have "dirs (length proof) m (int ?n - 1) = (ds, fn, 0)" by simp
  from accepted_directions [OF m acc(1) this] obtain e where e: "rev ds = replicate e True @ path ?n m" ..
  have idx: "i = m" if "walk ?n (rev ds) = Some i" for i
  proof (cases e)
    case 0
    then show ?thesis using that e walk_path [OF m acc(1)] by simp
  next
    case (Suc e')
    have "walk ?n (replicate (Suc e') True @ path ?n m) = Some i" using that unfolding e Suc .
    from walk_right_edge [OF this] obtain n' i' where
      edge: "right_edge (Suc e') ?n = Some n'" "walk n' (path ?n m) = Some i'" by blast
    from walk_path_below_edge [OF edge(1) m acc(1)] edge(2) show ?thesis by simp
  qed
  have "leaves \<noteq> []" using m acc(1) by auto
  have ins: "insert (0 # d) (set (climb_inputs H (leaf_hash H d) ds proof)) = inclusion_inputs H m (int ?n) d proof"
    using run by (simp add: inclusion_inputs_def inclusion_trace_climb)
  from climb_walk [OF h len \<open>leaves \<noteq> []\<close> acc(3)] idx show ?thesis unfolding ins by blast
qed

text \<open>
  C9. Soundness of inclusion proofs: if \<^verbatim>\<open>verify_inclusion\<close> accepts a path of any length and any contents for
  index \<open>m\<close> against the tree hash of a list of leaves, then the claimed data are the \<open>m\<close>-th leaf, or two
  different octet strings hashed by the tree or by the verifier collide. Leaf data are unrestricted: the
  \<^verbatim>\<open>0x00\<close>/\<^verbatim>\<open>0x01\<close> prefixes keep a node from being passed off as a leaf, and the extra path elements the loop
  would consume after \<^verbatim>\<open>sn == 0\<close> never lead to an accepted path.
\<close>

theorem inclusion_sound:
  assumes h: "\<And>x. length (H x) = 32" and m: "0 \<le> m"
    and ok: "verify_inclusion H m (int (length leaves)) d proof (mth H leaves)"
  shows "d = leaves ! nat m \<or> collision H (mth_inputs H leaves \<union> inclusion_inputs H m (int (length leaves)) d proof)"
  by (rule inclusion_binds [OF assms])

theorem inclusion_sound_witness:
  "verify_inclusion example_hash 1 3 [2] [leaf_hash example_hash [1], leaf_hash example_hash [3]] (mth example_hash [[1], [2], [3]]) \<and>
   ([2] = [[1], [2], [3]] ! 1 \<or>
    collision example_hash (mth_inputs example_hash [[1], [2], [3]] \<union>
      inclusion_inputs example_hash 1 3 [2] [leaf_hash example_hash [1], leaf_hash example_hash [3]]))"
proof -
  let ?new = "[[1], [2], [3]]" and ?p = "[leaf_hash example_hash [1], leaf_hash example_hash [3]]"
  have "verify_inclusion example_hash 1 3 [2] ?p (mth example_hash ?new)"
    by code_simp
  with inclusion_sound [of example_hash 1 ?new "[2]" ?p] show ?thesis by simp
qed

text \<open>
  C15. The bound of \<^verbatim>\<open>verify_inclusion\<close> on its index is one-sided: every negative index is accepted for the only leaf
  of a one-leaf tree, and in a tree of two leaves the index \<open>-1\<close> is accepted for the last leaf. An
  accepted index is an index of the tree only under the caller's \<open>0 \<le> m\<close>.
\<close>

theorem inclusion_negative_index:
  "verify_inclusion H (- int k) 1 d [] (mth H [d]) \<and>
   verify_inclusion H (- 1) 2 d [leaf_hash H c] (mth H [c, d])"
proof
  show "verify_inclusion H (- int k) 1 d [] (mth H [d])"
    by (simp add: verify_inclusion_def mth_single)
  have "mth H [c, d] = node_hash H (leaf_hash H c) (leaf_hash H d)"
    using mth_split_at [of 0 "[c, d]" H] by (simp add: mth_single)
  then show "verify_inclusion H (- 1) 2 d [leaf_hash H c] (mth H [c, d])"
    by (simp add: verify_inclusion_def strip_even_odd)
qed

end
