(* ===== verification/Checkpoint.thy ===== *)
theory Checkpoint
  imports Verifier Py_Bytes Merkle_Inclusion
begin

text \<open>
  Transparency-log checkpoints and signed notes (\<^verbatim>\<open>src/cryptovalid_checkpoint.py\<close>): verifier keys, the checkpoint text,
  notes with their signature lines, cosignatures, the verification of a note against trusted keys, and the
  base64 forms of the append-only proofs.
\<close>

section \<open>Cryptography the notes use\<close>

text \<open>
  Besides hashing and Ed25519 (\<open>crypto\<close>): whether Ed25519 is available at all, the curve of an ECDSA key in DER and its
  verification, and ML-DSA-44 (\<open>None\<close> where the package has none).
\<close>

record note_crypto = crypto +
  ed_present :: bool
  ec_curve :: "bytes \<Rightarrow> string option"
  ec_verify :: "bytes \<Rightarrow> bytes \<Rightarrow> bytes \<Rightarrow> bool"
  mldsa44_verify :: "(bytes \<Rightarrow> bytes \<Rightarrow> bytes \<Rightarrow> bool) option"

definition TYPE_ED25519 :: nat where "TYPE_ED25519 = 1"

definition TYPE_ECDSA :: nat where "TYPE_ECDSA = 2"

definition TYPE_COSIG_V1 :: nat where "TYPE_COSIG_V1 = 4"

definition TYPE_MLDSA44 :: nat where "TYPE_MLDSA44 = 6"

definition MLDSA44_PUB :: nat where "MLDSA44_PUB = 1312"

definition MLDSA44_SIG :: nat where "MLDSA44_SIG = 2420"

definition SUPPORTED_TYPES :: "nat list" where
  "SUPPORTED_TYPES = [TYPE_ED25519, TYPE_ECDSA, TYPE_COSIG_V1, TYPE_MLDSA44]"

lemmas type_defs = TYPE_ED25519_def TYPE_ECDSA_def TYPE_COSIG_V1_def TYPE_MLDSA44_def SUPPORTED_TYPES_def MLDSA44_PUB_def MLDSA44_SIG_def

definition EM_DASH :: nat where "EM_DASH = 8212"

definition MAX_SIGS :: nat where "MAX_SIGS = 100"

definition MAX_NAME_BYTES :: nat where "MAX_NAME_BYTES = 255"

definition MAX_SIG_BYTES :: nat where "MAX_SIG_BYTES = 8192"

text \<open>\<^verbatim>\<open>[^\s+\x00-\x1f]+\<close>: \<^verbatim>\<open>\s\<close> is the white space of Unicode, whose ASCII part lies below 33.\<close>

definition name_ok :: "pystr \<Rightarrow> bool" where
  "name_ok n \<longleftrightarrow> n \<noteq> [] \<and> list_all (\<lambda>c. 32 < c \<and> c \<notin> set unicode_spaces \<and> c \<noteq> 43) n"

definition has_control :: "pystr \<Rightarrow> bool" where
  "has_control s \<longleftrightarrow> list_ex (\<lambda>c. c < 32) s"

datatype note_error =
    Bad_Key_Name
  | Key_Name_Too_Long
  | Bad_Key_Length
  | Key_Type_Not_Emitted
  | Bad_Vkey
  | Bad_Vkey_Id
  | Bad_Vkey_Encoding
  | Vkey_Too_Short
  | Vkey_Id_Mismatch
  | Unsupported_Vkey_Type nat
  | Bad_Origin
  | Bad_Size
  | Bad_Root
  | Bad_Extension
  | No_Final_Newline
  | Too_Few_Lines
  | Control_Characters
  | Not_Utf8
  | No_Blank_Line
  | Too_Many_Signatures
  | Malformed_Signature_Line
  | Signature_Too_Long
  | Signature_Not_Base64
  | Signature_Too_Short
  | Bad_Cosign_Time
  | No_Signing_Backend
  | Bad_Cosigned_Names
  | Subtree_With_Time
  | Ambiguous_Key
  | Bad_Old_Size
  | Not_Encodable

text \<open>The strict base64 of Go: full quanta, padding only inside the last one.\<close>

fun b64_quanta :: "pystr \<Rightarrow> bool" where
  "b64_quanta [] = True"
| "b64_quanta (w # x # y # z # r) =
     (b64_val w \<noteq> None \<and> b64_val x \<noteq> None \<and>
      (if r = [] \<and> z = 61 then y = 61 \<or> b64_val y \<noteq> None
       else b64_val y \<noteq> None \<and> b64_val z \<noteq> None \<and> b64_quanta r))"
| "b64_quanta _ = False"

definition b64decode_strict :: "pystr \<Rightarrow> bytes option" where
  "b64decode_strict s = (if b64_quanta s then b64decode s else None)"

section \<open>Keys\<close>

definition key_id :: "('x crypto_scheme) \<Rightarrow> pystr \<Rightarrow> nat \<Rightarrow> bytes \<Rightarrow> bytes" where
  "key_id C name typ pub = take 4 (sha256 C (utf8 name @ [10] @ [of_nat typ] @ pub))"

definition vkey_string :: "pystr \<Rightarrow> bytes \<Rightarrow> nat \<Rightarrow> bytes \<Rightarrow> pystr" where
  "vkey_string name kid typ pub = name @ [43] @ hex_of kid @ [43] @ b64encode (of_nat typ # pub)"

definition vkey :: "('x crypto_scheme) \<Rightarrow> pystr \<Rightarrow> nat \<Rightarrow> bytes \<Rightarrow> note_error + pystr" where
  "vkey C name typ pub =
     (if \<not> name_ok name then Inl Bad_Key_Name
      else if \<not> encodable name then Inl Not_Encodable
      else if length (utf8 name) > MAX_NAME_BYTES then Inl Key_Name_Too_Long
      else if typ \<in> {TYPE_ED25519, TYPE_COSIG_V1} then
        (if length pub \<noteq> 32 then Inl Bad_Key_Length else Inr (vkey_string name (key_id C name typ pub) typ pub))
      else if typ = TYPE_MLDSA44 then
        (if length pub \<noteq> MLDSA44_PUB then Inl Bad_Key_Length else Inr (vkey_string name (key_id C name typ pub) typ pub))
      else Inl Key_Type_Not_Emitted)"

definition vkey_ecdsa :: "('x crypto_scheme) \<Rightarrow> pystr \<Rightarrow> bytes \<Rightarrow> note_error + pystr" where
  "vkey_ecdsa C name der =
     (if \<not> name_ok name then Inl Bad_Key_Name
      else Inr (vkey_string name (take 4 (sha256 C der)) TYPE_ECDSA der))"

text \<open>\<^verbatim>\<open>s.split("+", 2)\<close>: at most two cuts; \<open>None\<close> unless there are three parts.\<close>

definition split_plus2 :: "pystr \<Rightarrow> (pystr \<times> pystr \<times> pystr) option" where
  "split_plus2 s =
     (let a = takeWhile (\<lambda>c. c \<noteq> 43) s; r = dropWhile (\<lambda>c. c \<noteq> 43) s in
      case r of
        [] \<Rightarrow> None
      | _ # r1 \<Rightarrow>
          (let b = takeWhile (\<lambda>c. c \<noteq> 43) r1 in
           case dropWhile (\<lambda>c. c \<noteq> 43) r1 of [] \<Rightarrow> None | _ # r2 \<Rightarrow> Some (a, b, r2)))"

definition hex_id :: "pystr \<Rightarrow> bool" where
  "hex_id s \<longleftrightarrow> length s = 8 \<and> list_all (\<lambda>c. hexval c \<noteq> None) s"

type_synonym key = "pystr \<times> bytes \<times> nat \<times> bytes"

definition parse_vkey :: "('x crypto_scheme) \<Rightarrow> bool \<Rightarrow> pystr \<Rightarrow> note_error + key" where
  "parse_vkey C strict s =
     (case split_plus2 s of
        None \<Rightarrow> Inl Bad_Vkey
      | Some (name, id_s, mat_s) \<Rightarrow>
          if \<not> name_ok name then Inl Bad_Vkey
          else if \<not> hex_id id_s then Inl Bad_Vkey_Id
          else (case (fromhex id_s, b64decode_strict mat_s) of
              (Some kid, Some mat) \<Rightarrow>
                if length mat < 2 then Inl Vkey_Too_Short
                else
                  let typ = unat (hd mat); pub = tl mat in
                  if typ \<in> {TYPE_COSIG_V1, TYPE_MLDSA44} \<and> \<not> encodable name then Inl Not_Encodable
                  else if typ \<in> {TYPE_COSIG_V1, TYPE_MLDSA44} \<and> length (utf8 name) > MAX_NAME_BYTES then Inl Key_Name_Too_Long
                  else if typ = TYPE_ECDSA then
                    (if take 4 (sha256 C pub) \<noteq> kid then Inl Vkey_Id_Mismatch else Inr (name, kid, typ, pub))
                  else if typ \<notin> set SUPPORTED_TYPES then
                    (if strict then Inl (Unsupported_Vkey_Type typ) else Inr (name, kid, typ, pub))
                  else if length pub \<noteq> (if typ = TYPE_MLDSA44 then MLDSA44_PUB else 32) then Inl Bad_Key_Length
                  else if \<not> encodable name then Inl Not_Encodable
                  else if key_id C name typ pub \<noteq> kid then Inl Vkey_Id_Mismatch
                  else Inr (name, kid, typ, pub)
            | _ \<Rightarrow> Inl Bad_Vkey_Encoding))"

section \<open>Checkpoint text\<close>

record checkpoint =
  origin :: pystr
  tree_size :: int
  root :: bytes
  extensions :: "pystr list"

text \<open>The size is a Python integer (a boolean is refused by the code and is not a value here).\<close>

definition checkpoint_text :: "pystr \<Rightarrow> int \<Rightarrow> bytes \<Rightarrow> pystr list \<Rightarrow> note_error + pystr" where
  "checkpoint_text orig sz rt exts =
     (if orig = [] \<or> has_control orig then Inl Bad_Origin
      else if \<not> (0 \<le> sz \<and> sz \<le> 2 ^ 64 - 1) then Inl Bad_Size
      else if length rt \<noteq> 32 then Inl Bad_Root
      else if list_ex (\<lambda>e. e = [] \<or> has_control e) exts then Inl Bad_Extension
      else Inr (join [10] ([orig, int_str sz, b64encode rt] @ exts) @ [10]))"

text \<open>\<^verbatim>\<open>0|[1-9][0-9]{0,19}\<close>.\<close>

definition size_match :: "pystr \<Rightarrow> bool" where
  "size_match s \<longleftrightarrow> s = [48] \<or> (s \<noteq> [] \<and> length s \<le> 20 \<and> list_all is_digit s \<and> hd s \<noteq> 48)"

definition parse_checkpoint :: "pystr \<Rightarrow> note_error + checkpoint" where
  "parse_checkpoint txt =
     (if txt = [] \<or> last txt \<noteq> 10 then Inl No_Final_Newline
      else
        let ls = split_on 10 (butlast txt) in
        if length ls < 3 \<or> list_ex (\<lambda>l. l = []) ls then Inl Too_Few_Lines
        else if has_control (filter (\<lambda>c. c \<noteq> 10) (butlast txt)) then Inl Control_Characters
        else
          let orig = ls ! 0; size_s = ls ! 1; root_s = ls ! 2 in
          if \<not> size_match size_s \<or> int (digits_val size_s) > 2 ^ 64 - 1 then Inl Bad_Size
          else (case b64decode_strict root_s of
              None \<Rightarrow> Inl Bad_Root
            | Some rt \<Rightarrow>
                if length rt \<noteq> 32 \<or> b64encode rt \<noteq> root_s then Inl Bad_Root
                else Inr \<lparr>origin = orig, tree_size = int (digits_val size_s), root = rt, extensions = drop 3 ls\<rparr>))"

section \<open>Notes\<close>

definition check_note_bytes :: "bytes \<Rightarrow> note_error + pystr" where
  "check_note_bytes b =
     (case utf8_decode b of
        None \<Rightarrow> Inl Not_Utf8
      | Some s \<Rightarrow> if list_ex (\<lambda>c. c < 32 \<and> c \<noteq> 10) s then Inl Control_Characters else Inr s)"

text \<open>One signature line, and the loop over the lines with its bound on their number.\<close>

definition parse_sig_line :: "pystr \<Rightarrow> note_error + pystr \<times> bytes" where
  "parse_sig_line line =
     (case split_on 32 line of
        [dash, name, b64] \<Rightarrow>
          if dash \<noteq> [EM_DASH] \<or> \<not> name_ok name then Inl Malformed_Signature_Line
          else if length b64 > (MAX_SIG_BYTES * 4 + 2) div 3 + 3 then Inl Signature_Too_Long
          else (case b64decode_strict b64 of
              None \<Rightarrow> Inl Signature_Not_Base64
            | Some raw \<Rightarrow>
                if length raw < 5 then Inl Signature_Too_Short
                else if length raw > MAX_SIG_BYTES then Inl Signature_Too_Long
                else Inr (name, raw))
      | _ \<Rightarrow> Inl Malformed_Signature_Line)"

fun parse_sig_lines :: "nat \<Rightarrow> pystr list \<Rightarrow> note_error + (pystr \<times> bytes) list" where
  "parse_sig_lines n [] = Inr []"
| "parse_sig_lines n (l # ls) =
     (if n \<ge> MAX_SIGS then Inl Too_Many_Signatures
      else bindE (parse_sig_line l) (\<lambda>x. bindE (parse_sig_lines (Suc n) ls) (\<lambda>xs. Inr (x # xs))))"

definition split_note :: "bytes \<Rightarrow> note_error + pystr \<times> (pystr \<times> bytes) list" where
  "split_note b =
     bindE (check_note_bytes b) (\<lambda>s.
       if s = [] \<or> last s \<noteq> 10 then Inl No_Final_Newline
       else (case rfind_pair 10 s of
           None \<Rightarrow> Inl No_Blank_Line
         | Some i \<Rightarrow>
             bindE (parse_sig_lines 0 (split_on 10 (butlast (drop (i + 2) s)))) (\<lambda>sigs. Inr (take (i + 1) s, sigs))))"

definition sig_line :: "pystr \<Rightarrow> bytes \<Rightarrow> bytes \<Rightarrow> note_error + pystr" where
  "sig_line name kid sig =
     (if \<not> name_ok name then Inl Bad_Key_Name
      else if \<not> encodable name then Inl Not_Encodable
      else if length (utf8 name) > MAX_NAME_BYTES then Inl Key_Name_Too_Long
      else Inr ([EM_DASH, 32] @ name @ [32] @ b64encode (kid @ sig) @ [10]))"

text \<open>A private key is its public key and its signing function, arguments of the model.\<close>

record signing_key =
  sk_public :: bytes
  sk_sign :: "bytes \<Rightarrow> bytes"

definition sign_note :: "('x note_crypto_scheme) \<Rightarrow> pystr \<Rightarrow> pystr \<Rightarrow> signing_key \<Rightarrow> note_error + bytes" where
  "sign_note C txt name sk =
     (if txt = [] \<or> last txt \<noteq> 10 then Inl No_Final_Newline
      else if \<not> encodable txt then Inl Not_Encodable
      else bindE (check_note_bytes (utf8 txt)) (\<lambda>_.
        if \<not> ed_present C then Inl No_Signing_Backend
        else bindE (sig_line name (key_id C name TYPE_ED25519 (sk_public sk)) (sk_sign sk (utf8 txt))) (\<lambda>line.
          Inr (utf8 (txt @ [10] @ line)))))"

definition cosign_message :: "int \<Rightarrow> pystr \<Rightarrow> bytes" where
  "cosign_message ts txt = utf8 (lit ''cosignature/v1'' @ [10] @ lit ''time '' @ int_str ts @ [10]) @ utf8 txt"

definition cosign_v1 :: "('x note_crypto_scheme) \<Rightarrow> bytes \<Rightarrow> pystr \<Rightarrow> signing_key \<Rightarrow> int \<Rightarrow> note_error + bytes" where
  "cosign_v1 C note name sk ts =
     bindE (split_note note) (\<lambda>(txt, sigs). bindE (parse_checkpoint txt) (\<lambda>_.
       if length sigs \<ge> MAX_SIGS then Inl Too_Many_Signatures
       else if \<not> (1 \<le> ts \<and> ts \<le> 2 ^ 63 - 1) then Inl Bad_Cosign_Time
       else if \<not> ed_present C then Inl No_Signing_Backend
       else bindE (sig_line name (key_id C name TYPE_COSIG_V1 (sk_public sk)) (be_bytes 8 (nat ts) @ sk_sign sk (cosign_message ts txt))) (\<lambda>line.
         Inr (note @ utf8 line))))"

definition mldsa44_message :: "pystr \<Rightarrow> int \<Rightarrow> pystr \<Rightarrow> int \<Rightarrow> int \<Rightarrow> bytes \<Rightarrow> note_error + bytes" where
  "mldsa44_message cosigner ts orig start stop rt =
     (let cn = utf8 cosigner; og = utf8 orig in
      if \<not> (1 \<le> length cn \<and> length cn \<le> 255 \<and> 1 \<le> length og \<and> length og \<le> 255) then Inl Bad_Cosigned_Names
      else if start \<noteq> 0 \<and> ts \<noteq> 0 then Inl Subtree_With_Time
      else if length rt \<noteq> 32 then Inl Bad_Root
      else Inr (ascii_bytes (lit ''subtree/v1'') @ [10, 0] @ [of_nat (length cn)] @ cn @ be_bytes 8 (nat ts) @ [of_nat (length og)] @ og @
        be_bytes 8 (nat start) @ be_bytes 8 (nat stop) @ rt))"

definition cosign_v1_mldsa44 :: "('x note_crypto_scheme) \<Rightarrow> bytes \<Rightarrow> pystr \<Rightarrow> signing_key \<Rightarrow> int \<Rightarrow> note_error + bytes" where
  "cosign_v1_mldsa44 C note name sk ts =
     bindE (split_note note) (\<lambda>(txt, sigs). bindE (parse_checkpoint txt) (\<lambda>cp.
       if length sigs \<ge> MAX_SIGS then Inl Too_Many_Signatures
       else if \<not> (1 \<le> ts \<and> ts \<le> 2 ^ 63 - 1) then Inl Bad_Cosign_Time
       else if mldsa44_verify C = None then Inl No_Signing_Backend
       else bindE (mldsa44_message name ts (origin cp) 0 (tree_size cp) (root cp)) (\<lambda>m.
         bindE (sig_line name (key_id C name TYPE_MLDSA44 (sk_public sk)) (be_bytes 8 (nat ts) @ sk_sign sk m)) (\<lambda>line.
           Inr (note @ utf8 line)))))"

section \<open>Verifying a note\<close>

type_synonym key_table = "((pystr \<times> bytes) \<times> (nat \<times> bytes)) list"

fun known_keys :: "('x crypto_scheme) \<Rightarrow> pystr list \<Rightarrow> key_table \<Rightarrow> nat \<Rightarrow> note_error + key_table \<times> nat" where
  "known_keys C [] known ignored = Inr (known, ignored)"
| "known_keys C (v # vs) known ignored =
     bindE (parse_vkey C False v) (\<lambda>(name, kid, typ, pub).
       if typ \<notin> set SUPPORTED_TYPES then known_keys C vs known (Suc ignored)
       else (case map_of known (name, kid) of
           Some k \<Rightarrow> if k \<noteq> (typ, pub) then Inl Ambiguous_Key else known_keys C vs known ignored
         | None \<Rightarrow> known_keys C vs (((name, kid), (typ, pub)) # known) ignored))"

datatype line_check = Verified "int option" | Invalid | Uncheckable

definition stamp_ok :: "int \<Rightarrow> bool" where
  "stamp_ok ts \<longleftrightarrow> 1 \<le> ts \<and> ts \<le> 2 ^ 63 - 1"

definition check_line :: "('x note_crypto_scheme) \<Rightarrow> pystr \<Rightarrow> pystr \<Rightarrow> nat \<times> bytes \<Rightarrow> bytes \<Rightarrow> line_check" where
  "check_line C txt name key body =
     (case key of (typ, pub) \<Rightarrow>
        if typ = TYPE_ED25519 then
          (if length body = 64 \<and> ed_verify C pub body (utf8 txt) then Verified None else Invalid)
        else if typ = TYPE_ECDSA then
          (if (case ec_curve C pub of Some cv \<Rightarrow> cv \<in> {''secp256r1'', ''secp384r1'', ''secp521r1''} | None \<Rightarrow> False) \<and> ec_verify C pub body (utf8 txt)
           then Verified None else Invalid)
        else if typ = TYPE_MLDSA44 then
          (case mldsa44_verify C of
             None \<Rightarrow> Uncheckable
           | Some ver \<Rightarrow>
               if length body \<noteq> 8 + MLDSA44_SIG then Invalid
               else
                 let ts = int (be_val (take 8 body)) in
                 if \<not> stamp_ok ts then Invalid
                 else (case parse_checkpoint txt of
                     Inl _ \<Rightarrow> Invalid
                   | Inr cp \<Rightarrow>
                       (case mldsa44_message name ts (origin cp) 0 (tree_size cp) (root cp) of
                          Inl _ \<Rightarrow> Invalid
                        | Inr m \<Rightarrow> if ver pub (drop 8 body) m then Verified (Some ts) else Invalid)))
        else
          (if length body \<noteq> 72 \<or> length (filter (\<lambda>c. c = 10) txt) < 2 then Invalid
           else
             let ts = int (be_val (take 8 body)) in
             if stamp_ok ts \<and> ed_verify C pub (drop 8 body) (cosign_message ts txt) then Verified (Some ts) else Invalid))"

datatype note_state = OK | NON_VALIDA | NON_VERIFICATA

record verified_line =
  vl_name :: pystr
  vl_type :: nat
  vl_time :: "int option"

record note_verdict =
  stato :: note_state
  note_text :: "pystr option"
  verified_lines :: "verified_line list"
  ignored_lines :: nat
  ignored_vkeys :: nat

text \<open>The loop over the lines: \<open>Inl\<close> when a known key does not verify, with the lines ignored so far.\<close>

fun note_loop ::
  "('x note_crypto_scheme) \<Rightarrow> key_table \<Rightarrow> pystr \<Rightarrow> (pystr \<times> bytes) list \<Rightarrow> (pystr \<times> bytes) list \<Rightarrow> nat \<Rightarrow> nat \<Rightarrow>
    verified_line list \<Rightarrow> nat + verified_line list \<times> nat \<times> nat" where
  "note_loop C known txt seen [] ign unv acc = Inr (acc, ign, unv)"
| "note_loop C known txt seen ((name, raw) # sigs) ign unv acc =
     (case map_of known (name, take 4 raw) of
        None \<Rightarrow> note_loop C known txt seen sigs (Suc ign) unv acc
      | Some key \<Rightarrow>
          if (name, raw) \<in> set seen then note_loop C known txt seen sigs ign unv acc
          else (case check_line C txt name key (drop 4 raw) of
              Invalid \<Rightarrow> Inl ign
            | Uncheckable \<Rightarrow> note_loop C known txt ((name, raw) # seen) sigs ign (Suc unv) acc
            | Verified ts \<Rightarrow>
                note_loop C known txt ((name, raw) # seen) sigs ign unv (acc @ [\<lparr>vl_name = name, vl_type = fst key, vl_time = ts\<rparr>])))"

definition verify_note :: "('x note_crypto_scheme) \<Rightarrow> bytes \<Rightarrow> pystr list \<Rightarrow> note_error + note_verdict" where
  "verify_note C note vkeys =
     bindE (known_keys C vkeys [] 0) (\<lambda>(known, ikeys).
       let out = (\<lambda>st txt vl ign. \<lparr>stato = st, note_text = txt, verified_lines = vl, ignored_lines = ign, ignored_vkeys = ikeys\<rparr>) in
       case split_note note of
         Inl _ \<Rightarrow> Inr (out NON_VALIDA None [] 0)
       | Inr (txt, sigs) \<Rightarrow>
           if \<not> ed_present C then Inr (out NON_VERIFICATA (Some txt) [] 0)
           else (case note_loop C known txt [] sigs 0 0 [] of
               Inl ign \<Rightarrow> Inr (out NON_VALIDA (Some txt) [] ign)
             | Inr (vl, ign, unv) \<Rightarrow>
                 if unv > 0 then Inr (out NON_VERIFICATA (Some txt) vl ign)
                 else if vl = [] then Inr (out NON_VALIDA (Some txt) [] ign)
                 else Inr (out OK (Some txt) vl ign)))"

section \<open>Ledgers and proofs\<close>

definition ledger_checkpoint :: "('x crypto_scheme) \<Rightarrow> entry list \<Rightarrow> pystr \<Rightarrow> note_error + pystr \<times> bytes list" where
  "ledger_checkpoint C es orig =
     (let leaves = map canonical_payload es in
      bindE (checkpoint_text orig (int (length leaves)) (mth (sha256 C) leaves) []) (\<lambda>txt. Inr (txt, leaves)))"

definition consistency_proof_b64 :: "('x crypto_scheme) \<Rightarrow> bytes list \<Rightarrow> int \<Rightarrow> note_error + pystr list" where
  "consistency_proof_b64 C leaves old_size =
     (if \<not> (0 < old_size \<and> old_size \<le> int (length leaves)) then Inl Bad_Old_Size
      else (case consistency_proof (sha256 C) old_size leaves of
          Some p \<Rightarrow> Inr (map b64encode p)
        | None \<Rightarrow> Inl Bad_Old_Size))"

fun decode_proof :: "pystr list \<Rightarrow> bytes list option" where
  "decode_proof [] = Some []"
| "decode_proof (p # ps) =
     (case (b64decode_strict p, decode_proof ps) of (Some h, Some hs) \<Rightarrow> Some (h # hs) | _ \<Rightarrow> None)"

definition verify_consistency_b64 :: "('x crypto_scheme) \<Rightarrow> int \<Rightarrow> bytes \<Rightarrow> int \<Rightarrow> bytes \<Rightarrow> pystr list \<Rightarrow> bool" where
  "verify_consistency_b64 C old_size old_root new_size new_root proof_b64 =
     (case decode_proof proof_b64 of
        None \<Rightarrow> False
      | Some proof \<Rightarrow>
          if list_ex (\<lambda>h. length h \<noteq> 32) proof then False
          else if old_size = new_size then old_root = new_root \<and> proof = []
          else if \<not> (0 < old_size \<and> old_size < new_size) then False
          else verify_consistency (sha256 C) old_size new_size proof old_root new_root)"

section \<open>Encodings\<close>

lemma b64_val_alphabet: "b64_val c \<noteq> None \<longleftrightarrow> (65 \<le> c \<and> c \<le> 90) \<or> (97 \<le> c \<and> c \<le> 122) \<or> (48 \<le> c \<and> c \<le> 57) \<or> c = 43 \<or> c = 47"
  by (auto simp: b64_val_def)

lemma b64_char_val: "n < 64 \<Longrightarrow> \<exists>v. b64_val (b64_char n) = Some v"
  by simp

lemma b64_group_bounds:
  fixes a b c :: byte and n :: nat
  shows "(unat a * 65536 + unat b * 256 + unat c) div 262144 < 64" "n div 4096 mod 64 < 64" "n div 64 mod 64 < 64" "n mod 64 < 64"
  using unat_byte [of a] unat_byte [of b] unat_byte [of c] by auto

lemma b64_quanta_encode: "b64_quanta (b64encode bs)"
proof (induction bs rule: b64encode.induct)
  case (1 a b c r)
  then show ?case using b64_group_bounds(1) [of a b c] b64_char_not_pad by (simp add: Let_def)
next
  case (2 a b)
  then show ?case using b64_group_bounds(1) [of a b 0] by (simp add: Let_def)
next
  case (3 a)
  then show ?case using b64_group_bounds(1) [of a 0 0] by (simp add: Let_def)
qed simp

interpretation b64s: codec b64encode b64decode_strict "\<lambda>_. True"
  by unfold_locales (simp add: b64decode_strict_def b64_quanta_encode b64decode_encode)

lemma b64encode_chars: "c \<in> set (b64encode bs) \<Longrightarrow> b64_val c \<noteq> None \<or> c = 61"
proof (induction bs rule: b64encode.induct)
  case (1 x y z r)
  then show ?case using b64_group_bounds(1) [of x y z] b64_group_bounds(2-4) b64_char_val by (auto simp: Let_def simp del: b64_val_char)
next
  case (2 x y)
  then show ?case using b64_group_bounds(1) [of x y 0] b64_group_bounds(2-4) b64_char_val by (auto simp: Let_def simp del: b64_val_char)
next
  case (3 x)
  then show ?case using b64_group_bounds(1) [of x 0 0] b64_group_bounds(2-4) b64_char_val by (auto simp: Let_def simp del: b64_val_char)
qed simp

lemma b64encode_plain: "c \<in> set (b64encode bs) \<Longrightarrow> 32 < c \<and> c < 128"
  using b64encode_chars [of c bs] b64_val_alphabet [of c] by auto

lemma hex_of_plain: "c \<in> set (hex_of bs) \<Longrightarrow> 32 < c \<and> c < 128 \<and> c \<noteq> 43"
  using hex_of_fullmatch [OF refl, of bs] by (auto simp: hex_fullmatch_def list_all_iff lower_hex_def)

lemma nat_str_canonical:
  assumes "s \<noteq> []" "list_all is_digit s" "hd s \<noteq> 48 \<or> s = [48]"
  shows "nat_str (digits_val s) = s"
  using assms
proof (induction s rule: rev_induct)
  case (snoc d s)
  have d: "is_digit d" using snoc.prems(2) by simp
  then obtain e where d': "d = 48 + e" "e < 10" by (auto simp: is_digit_def dest: le_Suc_ex)
  show ?case
  proof (cases "s = []")
    case True
    then show ?thesis using d' by (subst nat_str.simps) (simp add: digits_val_def)
  next
    case False
    then have hd: "hd s \<noteq> 48" using snoc.prems(3) by auto
    have IH: "nat_str (digits_val s) = s" using snoc False hd by simp
    have "digits_val s \<noteq> 0"
    proof
      assume "digits_val s = 0"
      then have "s = nat_str 0" using IH by simp
      then show False using hd by (simp add: nat_str.simps)
    qed
    then show ?thesis using IH d' by (subst nat_str.simps) (simp add: digits_val_snoc)
  qed
qed simp

lemma size_match_nat_str: "n < 2 ^ 64 \<Longrightarrow> size_match (nat_str n)"
proof -
  assume "n < 2 ^ 64"
  then have "n < 10 ^ Suc 19" by simp
  then have "length (nat_str n) \<le> 20" using length_nat_str by fastforce
  then show ?thesis using nat_str_Cons [of n] nat_str_digits [of _ n] by (auto simp: size_match_def list_all_iff)
qed

lemma size_match_canonical: "size_match s \<Longrightarrow> nat_str (digits_val s) = s"
  by (rule nat_str_canonical) (auto simp: size_match_def is_digit_def)

section \<open>The checkpoint text determines the checkpoint\<close>

definition checkpoint_valid :: "checkpoint \<Rightarrow> bool" where
  "checkpoint_valid cp \<longleftrightarrow>
     origin cp \<noteq> [] \<and> \<not> has_control (origin cp) \<and> 0 \<le> tree_size cp \<and> tree_size cp \<le> 2 ^ 64 - 1 \<and> length (root cp) = 32 \<and>
     list_all (\<lambda>e. e \<noteq> [] \<and> \<not> has_control e) (extensions cp)"

definition text_of_checkpoint :: "checkpoint \<Rightarrow> pystr" where
  "text_of_checkpoint cp =
     join [10] ([origin cp, int_str (tree_size cp), b64encode (root cp)] @ extensions cp) @ [10]"

lemma checkpoint_text_iff:
  "checkpoint_text (origin cp) (tree_size cp) (root cp) (extensions cp) = Inr t \<longleftrightarrow> checkpoint_valid cp \<and> t = text_of_checkpoint cp"
  by (auto simp: checkpoint_text_def checkpoint_valid_def text_of_checkpoint_def list_ex_iff list_all_iff)

lemma no_control_newline: "\<not> has_control s \<Longrightarrow> 10 \<notin> set s"
  by (auto simp: has_control_def list_ex_iff)

lemma parse_checkpoint_text:
  assumes "checkpoint_valid cp"
  shows "parse_checkpoint (text_of_checkpoint cp) = Inr cp"
proof -
  let ?ls = "[origin cp, int_str (tree_size cp), b64encode (root cp)] @ extensions cp"
  obtain n where n: "tree_size cp = int n" "n < 2 ^ 64" using assms by (auto simp: checkpoint_valid_def intro: nonneg_int_cases)
  have sz: "int_str (tree_size cp) = nat_str n" using n by (simp add: int_str_def)
  have plain: "\<not> has_control l \<and> l \<noteq> []" if "l \<in> set ?ls" for l
  proof -
    have "\<not> has_control (nat_str n) \<and> nat_str n \<noteq> []"
      using nat_str_digits [of _ n] nat_str_Cons [of n] by (fastforce simp: has_control_def list_ex_iff is_digit_def)
    moreover have "\<not> has_control (b64encode (root cp))"
      using b64encode_plain [of _ "root cp"] by (fastforce simp: has_control_def list_ex_iff)
    moreover have "length (b64encode (root cp)) = 44" using assms by (simp add: checkpoint_valid_def length_b64encode)
    then have "b64encode (root cp) \<noteq> []" by auto
    ultimately show ?thesis using assms that by (auto simp: checkpoint_valid_def sz list_all_iff)
  qed
  have split: "split_on 10 (join [10] ?ls) = ?ls" by (rule split_on_join) (use plain no_control_newline in auto)
  have "\<not> has_control (filter (\<lambda>c. c \<noteq> 10) (join [10] ls))" if "\<forall>l\<in>set ls. \<not> has_control l" for ls
    using that by (induction ls) (auto simp: join_Cons has_control_def list_ex_iff)
  from this [of ?ls] have ctl: "\<not> has_control (filter (\<lambda>c. c \<noteq> 10) (join [10] ?ls))" using plain by blast
  have "\<not> list_ex (\<lambda>l. l = []) ?ls" using plain by (auto simp: list_ex_iff)
  moreover have "size_match (nat_str n)" using n size_match_nat_str by blast
  moreover have "b64decode_strict (b64encode (root cp)) = Some (root cp)" by (simp add: b64s.dec_enc)
  moreover have "length (root cp) = 32" using assms by (simp add: checkpoint_valid_def)
  moreover have "int n \<le> 2 ^ 64 - 1" using n assms by (simp add: checkpoint_valid_def)
  ultimately show ?thesis
    unfolding parse_checkpoint_def text_of_checkpoint_def Let_def
    using split ctl sz n(1) by (simp del: join.simps)
qed

interpretation checkpoint: codec text_of_checkpoint "\<lambda>t. case parse_checkpoint t of Inr cp \<Rightarrow> Some cp | Inl _ \<Rightarrow> None" checkpoint_valid
  by unfold_locales (simp add: parse_checkpoint_text)

lemma parse_checkpoint_sound:
  assumes "parse_checkpoint t = Inr cp"
  shows "checkpoint_valid cp \<and> text_of_checkpoint cp = t"
proof -
  let ?ls = "split_on 10 (butlast t)"
  have t: "t \<noteq> []" "last t = 10" "length ?ls \<ge> 3" "\<not> list_ex (\<lambda>l. l = []) ?ls" "\<not> has_control (filter (\<lambda>c. c \<noteq> 10) (butlast t))"
    "size_match (?ls ! 1)" "int (digits_val (?ls ! 1)) \<le> 2 ^ 64 - 1" "length (root cp) = 32" "b64encode (root cp) = ?ls ! 2"
    "origin cp = ?ls ! 0" "tree_size cp = int (digits_val (?ls ! 1))" "extensions cp = drop 3 ?ls"
    using assms unfolding parse_checkpoint_def Let_def by (auto split: if_splits option.splits)
  have "?ls = [?ls ! 0, ?ls ! 1, ?ls ! 2] @ drop 3 ?ls"
    using t(3) by (metis One_nat_def Suc_1 append_Cons append_Nil Cons_nth_drop_Suc drop0 eval_nat_numeral(3) less_le_trans lessI zero_less_Suc less_SucI)
  moreover have "int_str (tree_size cp) = ?ls ! 1" using t(6,11) size_match_canonical by (simp add: int_str_def)
  ultimately have ls: "[origin cp, int_str (tree_size cp), b64encode (root cp)] @ extensions cp = ?ls" using t(9,10,12) by simp
  have "text_of_checkpoint cp = butlast t @ [10]" unfolding text_of_checkpoint_def ls join_split_on ..
  then have eq: "text_of_checkpoint cp = t" using t(1,2) by (metis append_butlast_last_id)
  have lines: "\<not> has_control l \<and> l \<noteq> []" if "l \<in> set ?ls" for l
    using split_on_parts [OF that] t(4,5) that by (fastforce simp: has_control_def list_ex_iff)
  then have "origin cp \<noteq> []" "\<not> has_control (origin cp)" "list_all (\<lambda>e. e \<noteq> [] \<and> \<not> has_control e) (extensions cp)"
    unfolding ls [symmetric] by (simp_all add: list_all_iff)
  then show ?thesis using eq t(7,8,11) by (simp add: checkpoint_valid_def)
qed

text \<open>
  C18. The checkpoint text is a canonical encoding: \<^verbatim>\<open>parse_checkpoint\<close> reads a text as a checkpoint exactly when
  \<^verbatim>\<open>checkpoint_text\<close> writes that checkpoint as this text. No other text of the same checkpoint is accepted, no field is
  lost, and every text that is written is read back.
\<close>

theorem checkpoint_canonical:
  "parse_checkpoint t = Inr cp \<longleftrightarrow> checkpoint_text (origin cp) (tree_size cp) (root cp) (extensions cp) = Inr t"
  unfolding checkpoint_text_iff using parse_checkpoint_sound parse_checkpoint_text by blast

section \<open>Verifier keys\<close>

lemma split_plus2_string: "43 \<notin> set a \<Longrightarrow> 43 \<notin> set b \<Longrightarrow> split_plus2 (a @ [43] @ b @ [43] @ r) = Some (a, b, r)"
proof -
  assume "43 \<notin> set a" "43 \<notin> set b"
  then have "\<forall>c\<in>set a. c \<noteq> 43" "\<forall>c\<in>set b. c \<noteq> 43" by auto
  then show ?thesis by (simp add: split_plus2_def takeWhile_append dropWhile_append Let_def)
qed

lemma hex_id_hex_of: "length bs = 4 \<Longrightarrow> hex_id (hex_of bs)"
  using hex_of_fullmatch [OF refl, of bs] lower_hex_digit by (fastforce simp: hex_id_def hex_fullmatch_def list_all_iff)

lemma parse_vkey_vkey:
  assumes "vkey C name typ pub = Inr s" "\<And>x. length (sha256 C x) = 32"
  shows "parse_vkey C strict s = Inr (name, key_id C name typ pub, typ, pub)"
proof -
  have v: "name_ok name" "encodable name" "length (utf8 name) \<le> MAX_NAME_BYTES"
    "s = vkey_string name (key_id C name typ pub) typ pub" "typ \<in> {TYPE_ED25519, TYPE_COSIG_V1, TYPE_MLDSA44}"
    "length pub = (if typ = TYPE_MLDSA44 then MLDSA44_PUB else 32)"
    using assms(1) unfolding vkey_def by (auto split: if_splits simp: type_defs)
  have kid: "length (key_id C name typ pub) = 4" using assms(2) by (simp add: key_id_def)
  have "43 \<notin> set name" using v(1) by (auto simp: name_ok_def list_all_iff)
  moreover have "43 \<notin> set (hex_of (key_id C name typ pub))" using hex_of_plain by blast
  ultimately have sp: "split_plus2 s = Some (name, hex_of (key_id C name typ pub), b64encode (of_nat typ # pub))"
    unfolding v(4) vkey_string_def using split_plus2_string by simp
  have ty: "unat (of_nat typ :: byte) = typ" using v(5) by (auto simp: type_defs)
  have pub: "Suc (length pub) \<ge> 2" using v(6) by (simp add: MLDSA44_PUB_def)
  show ?thesis
    using v hex_id_hex_of [OF kid] ty pub unfolding parse_vkey_def sp
    by (auto simp: fromhex_hex_of b64s.dec_enc Let_def type_defs)
qed

section \<open>Building and splitting notes\<close>

definition note_line :: "pystr \<times> bytes \<Rightarrow> pystr" where
  "note_line x = [EM_DASH, 32] @ fst x @ [32] @ b64encode (snd x)"

definition line_fits :: "pystr \<times> bytes \<Rightarrow> bool" where
  "line_fits x \<longleftrightarrow> name_ok (fst x) \<and> encodable (fst x) \<and> 5 \<le> length (snd x) \<and> length (snd x) \<le> MAX_SIG_BYTES"

lemma name_ok_chars: "name_ok n \<Longrightarrow> c \<in> set n \<Longrightarrow> 32 < c"
  by (auto simp: name_ok_def list_all_iff)

lemma parse_note_line: "line_fits x \<Longrightarrow> parse_sig_line (note_line x) = Inr x"
proof -
  assume f: "line_fits x"
  obtain name raw where x: "x = (name, raw)" by fastforce
  have "32 \<notin> set name" using f x name_ok_chars [of name 32] by (auto simp: line_fits_def)
  moreover have "32 \<notin> set (b64encode raw)" using b64encode_plain [of 32 raw] by auto
  ultimately have sp: "split_on 32 (note_line x) = [[EM_DASH], name, b64encode raw]"
    by (simp add: note_line_def x EM_DASH_def split_on_append split_on_no_sep)
  have "(length raw + 2) div 3 \<le> 2731" using f x by (auto simp: line_fits_def MAX_SIG_BYTES_def)
  then have "length (b64encode raw) \<le> (MAX_SIG_BYTES * 4 + 2) div 3 + 3" by (simp add: length_b64encode MAX_SIG_BYTES_def)
  then show ?thesis using f unfolding parse_sig_line_def sp by (simp add: b64s.dec_enc line_fits_def x)
qed

lemma parse_note_lines:
  "\<forall>x\<in>set xs. line_fits x \<Longrightarrow> n + length xs \<le> MAX_SIGS \<Longrightarrow> parse_sig_lines n (map note_line xs) = Inr xs"
  by (induction xs arbitrary: n) (auto simp: parse_note_line)

lemma note_line_plain: "line_fits x \<Longrightarrow> c \<in> set (note_line x) \<Longrightarrow> 32 \<le> c"
  using name_ok_chars [of "fst x" c] b64encode_plain [of c "snd x"] by (auto simp: note_line_def line_fits_def EM_DASH_def)

lemma note_line_encodable: "line_fits x \<Longrightarrow> encodable (note_line x)"
proof -
  assume f: "line_fits x"
  have "encodable (b64encode (snd x))" using utf8_ascii_eq b64encode_plain by blast
  moreover have "encodable [EM_DASH, 32]" "encodable [32]" by (simp_all add: encodable_scalar EM_DASH_def scalar_def)
  ultimately show ?thesis using f by (simp only: note_line_def encodable_append line_fits_def)
qed

text \<open>A text that a note can carry: it ends with a newline and holds no other control character.\<close>

definition note_text_ok :: "pystr \<Rightarrow> bool" where
  "note_text_ok t \<longleftrightarrow> t \<noteq> [] \<and> last t = 10 \<and> encodable t \<and> list_all (\<lambda>c. 32 \<le> c \<or> c = 10) t"

definition note_of :: "pystr \<Rightarrow> (pystr \<times> bytes) list \<Rightarrow> pystr" where
  "note_of t sigs = t @ [10] @ ended 10 (map note_line sigs)"

lemma note_of_encodable: "note_text_ok t \<Longrightarrow> \<forall>x\<in>set sigs. line_fits x \<Longrightarrow> encodable (note_of t sigs)"
proof -
  assume t: "note_text_ok t" and f: "\<forall>x\<in>set sigs. line_fits x"
  have nl: "encodable [10]" by (simp add: encodable_scalar scalar_def)
  have "encodable (l @ [10])" if "encodable l" for l using that nl by simp
  moreover have "encodable (concat ls)" if "\<forall>l\<in>set ls. encodable l" for ls using that by (induction ls) auto
  ultimately have "encodable (ended 10 (map note_line sigs))"
    using f note_line_encodable unfolding ended_def by (metis (mono_tags, lifting) image_iff list.set_map)
  then show ?thesis using t nl by (simp add: note_of_def note_text_ok_def del: append_Cons append_Nil)
qed

lemma split_note_of:
  assumes "note_text_ok t" "\<forall>x\<in>set sigs. line_fits x" "sigs \<noteq> []" "length sigs \<le> MAX_SIGS"
  shows "split_note (utf8 (note_of t sigs)) = Inr (t, sigs)"
proof -
  obtain t' where t': "t = t' @ [10]" using assms(1) by (metis note_text_ok_def append_butlast_last_id)
  let ?b = "ended 10 (map note_line sigs)"
  have plain: "\<forall>l\<in>set (map note_line sigs). l \<noteq> [] \<and> 10 \<notin> set l"
    using assms(2) note_line_plain by (fastforce simp: note_line_def)
  have "rfind_pair 10 (10 # ?b) = None" using rfind_pair_ended [OF plain] .
  then have rf: "rfind_pair 10 (note_of t sigs) = Some (length t')"
    using rfind_pair_last [of 10 ?b t'] by (simp add: note_of_def t')
  have cut: "take (length t' + 1) (note_of t sigs) = t" "drop (length t' + 2) (note_of t sigs) = ?b"
    by (simp_all add: note_of_def t')
  have "split_on 10 (butlast ?b) = map note_line sigs" by (rule split_on_ended) (use plain assms(3) in auto)
  then have lines: "parse_sig_lines 0 (split_on 10 (butlast ?b)) = Inr sigs" using parse_note_lines [OF assms(2), of 0] assms(4) by simp
  have "c = 10 \<or> (\<exists>x\<in>set sigs. c \<in> set (note_line x))" if "c \<in> set ?b" for c using that by (auto simp: ended_def split: if_splits)
  then have "set ?b \<subseteq> {c. 32 \<le> c \<or> c = 10}" using assms(2) note_line_plain by blast
  then have "\<not> list_ex (\<lambda>c. c < 32 \<and> c \<noteq> 10) (note_of t sigs)"
    using assms(1) by (fastforce simp: note_of_def note_text_ok_def list_all_iff list_ex_iff)
  moreover have "utf8_decode (utf8 (note_of t sigs)) = Some (note_of t sigs)"
    using utf8.dec_enc note_of_encodable assms(1,2) by blast
  ultimately have chk: "check_note_bytes (utf8 (note_of t sigs)) = Inr (note_of t sigs)" by (simp add: check_note_bytes_def)
  have "?b \<noteq> []" "last ?b = 10"
    using assms(3) by (cases sigs rule: rev_cases; simp add: ended_def)+
  then have "note_of t sigs \<noteq> []" "last (note_of t sigs) = 10" by (simp_all add: note_of_def)
  then show ?thesis unfolding split_note_def chk using rf cut lines by simp
qed

section \<open>What the verdict on a note means\<close>

definition known_line :: "key_table \<Rightarrow> pystr \<times> bytes \<Rightarrow> bool" where
  "known_line known x \<longleftrightarrow> map_of known (fst x, take 4 (snd x)) \<noteq> None"

text \<open>A line of a key that is not known is ignored; a known key must verify.\<close>

definition line_ok :: "('x note_crypto_scheme) \<Rightarrow> key_table \<Rightarrow> pystr \<Rightarrow> pystr \<times> bytes \<Rightarrow> bool" where
  "line_ok C known t x \<longleftrightarrow>
     (case map_of known (fst x, take 4 (snd x)) of
        None \<Rightarrow> True
      | Some key \<Rightarrow> \<exists>ts. check_line C t (fst x) key (drop 4 (snd x)) = Verified ts)"

lemma note_loop_unverifiable: "note_loop C known t seen sigs ign unv acc = Inr (vl, i, u) \<Longrightarrow> unv \<le> u"
  by (induction C known t seen sigs ign unv acc rule: note_loop.induct) (fastforce split: option.splits if_splits line_check.splits)+

lemma note_loop_ok:
  assumes "\<forall>x\<in>set seen. line_ok C known t x" "seen \<noteq> [] \<longrightarrow> acc \<noteq> []"
  shows "(\<exists>vl i. note_loop C known t seen sigs ign 0 acc = Inr (vl, i, 0)) \<longleftrightarrow> list_all (line_ok C known t) sigs"
    and "note_loop C known t seen sigs ign 0 acc = Inr (vl, i, 0) \<Longrightarrow> vl \<noteq> [] \<longleftrightarrow> acc \<noteq> [] \<or> list_ex (known_line known) sigs"
  using assms
proof (induction sigs arbitrary: seen ign acc)
  case (Cons x sigs)
  obtain name raw where x: "x = (name, raw)" by fastforce
  {
    case 1
    show ?case
    proof (cases "map_of known (name, take 4 raw)")
      case None
      then show ?thesis using Cons.IH(1) [OF 1] by (simp add: x line_ok_def)
    next
      case (Some key)
      show ?thesis
      proof (cases "check_line C t name key (drop 4 raw)")
        case (Verified ts)
        have "line_ok C known t x" using Some Verified by (simp add: x line_ok_def)
        then show ?thesis
          using Some Verified 1 Cons.IH(1) [of seen acc] Cons.IH(1) [of "x # seen" "acc @ [\<lparr>vl_name = name, vl_type = fst key, vl_time = ts\<rparr>]"] by (simp add: x)
      next
        case Invalid
        then have "\<not> line_ok C known t x" using Some by (simp add: x line_ok_def)
        moreover from this have "x \<notin> set seen" using 1 by blast
        ultimately show ?thesis using Some Invalid by (simp add: x)
      next
        case Uncheckable
        then have "\<not> line_ok C known t x" using Some by (simp add: x line_ok_def)
        moreover from this have "x \<notin> set seen" using 1 by blast
        ultimately show ?thesis using Some Uncheckable note_loop_unverifiable [of C known t "x # seen" sigs ign 1 acc _ _ 0] by (auto simp: x)
      qed
    qed
  next
    case 2
    show ?case
    proof (cases "map_of known (name, take 4 raw)")
      case None
      then show ?thesis using Cons.IH(2) [where ign = ign and seen = seen and acc = acc] Cons.IH(2) [where ign = "Suc ign" and seen = seen and acc = acc] 2 by (simp add: x known_line_def)
    next
      case (Some key)
      show ?thesis
      proof (cases "x \<in> set seen")
        case True
        then show ?thesis using Some Cons.IH(2) [where ign = ign and seen = seen and acc = acc] 2 by (auto simp: x known_line_def)
      next
        case False
        show ?thesis
        proof (cases "check_line C t name key (drop 4 raw)")
          case (Verified ts)
          have "line_ok C known t x" using Some Verified by (simp add: x line_ok_def)
          then show ?thesis
            using False Some Verified 2 Cons.IH(2) [where ign = ign and seen = "x # seen" and acc = "acc @ [\<lparr>vl_name = name, vl_type = fst key, vl_time = ts\<rparr>]"]
            by (simp add: x known_line_def)
        next
          case Invalid
          then show ?thesis using False Some 2 by (simp add: x)
        next
          case Uncheckable
          then show ?thesis using False Some 2 note_loop_unverifiable [of C known t "x # seen" sigs ign 1 acc _ _ 0] by (auto simp: x)
        qed
      qed
    qed
  }
qed simp_all

text \<open>Every reported line is one of the note, of a known key, and verified.\<close>

lemma note_loop_reported:
  assumes "note_loop C known t seen sigs ign unv acc = Inr (vl, i, u)" "l \<in> set vl" "l \<notin> set acc"
  shows "\<exists>(name, raw)\<in>set sigs. \<exists>key. map_of known (name, take 4 raw) = Some key \<and>
    check_line C t name key (drop 4 raw) = Verified (vl_time l) \<and> vl_name l = name \<and> vl_type l = fst key"
  using assms
proof (induction C known t seen sigs ign unv acc rule: note_loop.induct)
  case (2 C known t seen name raw sigs ign unv acc)
  show ?case
  proof (cases "map_of known (name, take 4 raw)")
    case None
    then show ?thesis using 2 by fastforce
  next
    case (Some key)
    show ?thesis
    proof (cases "(name, raw) \<in> set seen")
      case True
      then show ?thesis using Some 2 by fastforce
    next
      case False
      show ?thesis
      proof (cases "check_line C t name key (drop 4 raw)")
        case (Verified ts)
        show ?thesis
        proof (cases "l = \<lparr>vl_name = name, vl_type = fst key, vl_time = ts\<rparr>")
          case True
          then show ?thesis using Some Verified by (cases key) (auto intro!: bexI [of _ "(name, raw)"])
        next
          case neq: False
          then have "l \<notin> set (acc @ [\<lparr>vl_name = name, vl_type = fst key, vl_time = ts\<rparr>])" using "2.prems"(3) by simp
          with "2.IH"(3) [OF Some False Verified] "2.prems" Some False Verified show ?thesis by fastforce
        qed
      next
        case Invalid
        then show ?thesis using Some False "2.prems" by simp
      next
        case Uncheckable
        then show ?thesis using "2.IH"(4) [OF Some False Uncheckable] "2.prems" Some False by fastforce
      qed
    qed
  qed
qed simp

lemma verify_note_ok_iff:
  "(case verify_note C note vkeys of Inr r \<Rightarrow> stato r = OK | Inl _ \<Rightarrow> False) \<longleftrightarrow>
     (case (known_keys C vkeys [] 0, split_note note) of
        (Inr (known, _), Inr (t, sigs)) \<Rightarrow> ed_present C \<and> list_all (line_ok C known t) sigs \<and> list_ex (known_line known) sigs
      | _ \<Rightarrow> False)"
proof (cases "\<exists>known ik t sigs. known_keys C vkeys [] 0 = Inr (known, ik) \<and> split_note note = Inr (t, sigs) \<and> ed_present C")
  case True
  then obtain known ik t sigs where k: "known_keys C vkeys [] 0 = Inr (known, ik)" "split_note note = Inr (t, sigs)" "ed_present C" by blast
  note loop = note_loop_ok [of "[]" C known t "[]" sigs 0, simplified]
  have "(case verify_note C note vkeys of Inr r \<Rightarrow> stato r = OK | Inl _ \<Rightarrow> False) \<longleftrightarrow>
      (\<exists>vl i. note_loop C known t [] sigs 0 0 [] = Inr (vl, i, 0) \<and> vl \<noteq> [])"
    unfolding verify_note_def k by (auto simp: k split: sum.splits prod.splits)
  also have "\<dots> \<longleftrightarrow> list_all (line_ok C known t) sigs \<and> list_ex (known_line known) sigs" using loop by blast
  finally show ?thesis using k by simp
next
  case False
  then show ?thesis unfolding verify_note_def by (auto simp: Let_def split: sum.splits prod.splits if_splits)
qed

text \<open>
  The verdict OK on a note: \<^verbatim>\<open>verify_note\<close> says OK exactly when the trusted keys parse without ambiguity, the note has the
  signed-note form, every line whose key name and id belong to a trusted key verifies under that key (an invalid
  line of a trusted key is never outvoted), and at least one such line is there.
\<close>

theorem note_ok_iff:
  "(case verify_note C note vkeys of Inr r \<Rightarrow> stato r = OK | Inl _ \<Rightarrow> False) \<longleftrightarrow>
     (case (known_keys C vkeys [] 0, split_note note) of
        (Inr (known, _), Inr (t, sigs)) \<Rightarrow> ed_present C \<and> list_all (line_ok C known t) sigs \<and> list_ex (known_line known) sigs
      | _ \<Rightarrow> False)"
  by (rule verify_note_ok_iff)

section \<open>Signing and cosigning\<close>

text \<open>A key whose signatures verify, with the lengths of Ed25519.\<close>

definition honest_key :: "('x crypto_scheme) \<Rightarrow> signing_key \<Rightarrow> bool" where
  "honest_key C sk \<longleftrightarrow> length (sk_public sk) = 32 \<and> (\<forall>m. length (sk_sign sk m) = 64 \<and> ed_verify C (sk_public sk) (sk_sign sk m) m)"

definition key_name_fits :: "pystr \<Rightarrow> bool" where
  "key_name_fits n \<longleftrightarrow> name_ok n \<and> encodable n \<and> length (utf8 n) \<le> MAX_NAME_BYTES"

lemma sig_line_note_line: "key_name_fits n \<Longrightarrow> sig_line n kid sig = Inr (note_line (n, kid @ sig) @ [10])"
  by (auto simp: sig_line_def note_line_def key_name_fits_def)

lemma checkpoint_note_text:
  assumes "checkpoint_valid cp" "encodable (text_of_checkpoint cp)"
  shows "note_text_ok (text_of_checkpoint cp)" "length (filter (\<lambda>c. c = 10) (text_of_checkpoint cp)) \<ge> 2"
proof -
  have p: "parse_checkpoint (text_of_checkpoint cp) = Inr cp" by (rule parse_checkpoint_text [OF assms(1)])
  then have "\<not> has_control (filter (\<lambda>c. c \<noteq> 10) (butlast (text_of_checkpoint cp)))" "text_of_checkpoint cp \<noteq> []" "last (text_of_checkpoint cp) = 10"
    unfolding parse_checkpoint_def Let_def by (auto split: if_splits)
  moreover have "set (text_of_checkpoint cp) \<subseteq> insert 10 (set (butlast (text_of_checkpoint cp)))"
    by (simp only: text_of_checkpoint_def butlast_snoc) auto
  ultimately show "note_text_ok (text_of_checkpoint cp)"
    using assms(2) by (fastforce simp: note_text_ok_def has_control_def list_ex_iff list_all_iff)
  have "text_of_checkpoint cp = origin cp @ 10 # int_str (tree_size cp) @ 10 # join [10] (b64encode (root cp) # extensions cp) @ [10]"
    by (simp add: text_of_checkpoint_def join_Cons)
  then show "length (filter (\<lambda>c. c = 10) (text_of_checkpoint cp)) \<ge> 2" by simp
qed

lemma utf8_note_snoc:
  assumes "note_text_ok t" "\<forall>x\<in>set sigs. line_fits x" "line_fits x"
  shows "utf8 (note_of t sigs) @ utf8 (note_line x @ [10]) = utf8 (note_of t (sigs @ [x]))"
proof -
  have "encodable (note_line x @ [10])" using note_line_encodable [OF assms(3)] by (simp add: encodable_scalar scalar_def)
  then have "utf8 (note_of t sigs) @ utf8 (note_line x @ [10]) = utf8 (note_of t sigs @ note_line x @ [10])"
    using utf8_append note_of_encodable [OF assms(1,2)] by metis
  also have "note_of t sigs @ note_line x @ [10] = note_of t (sigs @ [x])" by (simp add: note_of_def ended_def)
  finally show ?thesis .
qed

text \<open>The lines that honest keys add.\<close>

definition log_line :: "('x crypto_scheme) \<Rightarrow> pystr \<Rightarrow> pystr \<Rightarrow> signing_key \<Rightarrow> pystr \<times> bytes" where
  "log_line C t name lk = (name, key_id C name TYPE_ED25519 (sk_public lk) @ sk_sign lk (utf8 t))"

definition wit_line :: "('x crypto_scheme) \<Rightarrow> pystr \<Rightarrow> pystr \<Rightarrow> signing_key \<Rightarrow> int \<Rightarrow> pystr \<times> bytes" where
  "wit_line C t name wk ts =
     (name, key_id C name TYPE_COSIG_V1 (sk_public wk) @ be_bytes 8 (nat ts) @ sk_sign wk (cosign_message ts t))"

lemma honest_line_fits:
  assumes "\<And>x. length (sha256 C x) = 32" "key_name_fits name" "honest_key C sk"
  shows "line_fits (log_line C t name sk)" "line_fits (wit_line C t name sk ts)"
  using assms by (simp_all add: line_fits_def log_line_def wit_line_def key_id_def key_name_fits_def honest_key_def MAX_SIG_BYTES_def)

lemma honest_sign:
  assumes "note_text_ok t" "ed_present C" "key_name_fits name"
  shows "sign_note C t name lk = Inr (utf8 (note_of t [log_line C t name lk]))"
proof -
  have "check_note_bytes (utf8 t) = Inr t"
    using assms(1) by (auto simp: check_note_bytes_def utf8.dec_enc note_text_ok_def list_all_iff list_ex_iff)
  then show ?thesis
    using assms sig_line_note_line [OF assms(3)] by (simp add: sign_note_def note_text_ok_def note_of_def log_line_def)
qed

lemma honest_cosign:
  assumes hash32: "\<And>x. length (sha256 C x) = 32" and t: "note_text_ok t" "parse_checkpoint t = Inr cp"
    and sigs: "\<forall>x\<in>set sigs. line_fits x" "sigs \<noteq> []" "length sigs < MAX_SIGS"
    and k: "ed_present C" "key_name_fits name" "honest_key C wk" "stamp_ok ts"
  shows "cosign_v1 C (utf8 (note_of t sigs)) name wk ts = Inr (utf8 (note_of t (sigs @ [wit_line C t name wk ts])))"
proof -
  have "split_note (utf8 (note_of t sigs)) = Inr (t, sigs)" by (rule split_note_of) (use t sigs in auto)
  then show ?thesis
    using t sigs k sig_line_note_line [OF k(2)] utf8_note_snoc [OF t(1) sigs(1) honest_line_fits(2) [OF hash32 k(2,3), of t ts]]
    by (simp add: cosign_v1_def stamp_ok_def wit_line_def)
qed

text \<open>
  C19. Sign, cosign, verify: the checkpoint of a log signed by its key and cosigned by a witness is accepted by
  \<^verbatim>\<open>verify_note\<close> with the two verifier keys, with exactly the two lines reported, the second with the witness's time.
\<close>

theorem cosigned_note_verifies:
  assumes hash32: "\<And>x. length (sha256 C x) = 32" and C: "ed_present C"
    and cp: "checkpoint_valid cp" "encodable (text_of_checkpoint cp)"
    and names: "key_name_fits log_name" "key_name_fits wit_name" and keys: "honest_key C lk" "honest_key C wk"
    and distinct: "(log_name, key_id C log_name TYPE_ED25519 (sk_public lk)) \<noteq> (wit_name, key_id C wit_name TYPE_COSIG_V1 (sk_public wk))"
    and ts: "stamp_ok ts"
  shows "\<exists>note note' v w. sign_note C (text_of_checkpoint cp) log_name lk = Inr note \<and> cosign_v1 C note wit_name wk ts = Inr note' \<and>
    vkey C log_name TYPE_ED25519 (sk_public lk) = Inr v \<and> vkey C wit_name TYPE_COSIG_V1 (sk_public wk) = Inr w \<and>
    verify_note C note' [v, w] = Inr \<lparr>stato = OK, note_text = Some (text_of_checkpoint cp),
      verified_lines = [\<lparr>vl_name = log_name, vl_type = TYPE_ED25519, vl_time = None\<rparr>, \<lparr>vl_name = wit_name, vl_type = TYPE_COSIG_V1, vl_time = Some ts\<rparr>],
      ignored_lines = 0, ignored_vkeys = 0\<rparr>"
proof -
  let ?t = "text_of_checkpoint cp"
  let ?kl = "key_id C log_name TYPE_ED25519 (sk_public lk)" and ?kw = "key_id C wit_name TYPE_COSIG_V1 (sk_public wk)"
  let ?l = "log_line C ?t log_name lk" and ?w = "wit_line C ?t wit_name wk ts"
  have kid: "length ?kl = 4" "length ?kw = 4" using hash32 by (simp_all add: key_id_def)
  have lens: "length (sk_public lk) = 32" "length (sk_public wk) = 32" using keys by (simp_all add: honest_key_def)
  have fits: "line_fits ?l" "line_fits ?w" using honest_line_fits hash32 names keys by blast+
  note t = checkpoint_note_text [OF cp]
  note sign = honest_sign [OF t(1) C names(1), of lk]
  have cosign: "cosign_v1 C (utf8 (note_of ?t [?l])) wit_name wk ts = Inr (utf8 (note_of ?t [?l, ?w]))"
    using honest_cosign [OF hash32 t(1) parse_checkpoint_text [OF cp(1)], of "[?l]" wit_name wk ts] fits C names(2) keys(2) ts by (simp add: MAX_SIGS_def)
  have split2: "split_note (utf8 (note_of ?t [?l, ?w])) = Inr (?t, [?l, ?w])" by (rule split_note_of) (use t fits in \<open>auto simp: MAX_SIGS_def\<close>)
  obtain v w where vw: "vkey C log_name TYPE_ED25519 (sk_public lk) = Inr v" "vkey C wit_name TYPE_COSIG_V1 (sk_public wk) = Inr w"
    using names lens by (simp add: vkey_def key_name_fits_def type_defs)
  have table: "known_keys C [v, w] [] 0 =
      Inr ([((wit_name, ?kw), (TYPE_COSIG_V1, sk_public wk)), ((log_name, ?kl), (TYPE_ED25519, sk_public lk))], 0)"
    using parse_vkey_vkey [OF vw(1) hash32, of False] parse_vkey_vkey [OF vw(2) hash32, of False] distinct by (auto simp: type_defs)
  have "nat ts < 256 ^ 8" using ts by (simp add: stamp_ok_def nat_less_iff)
  then have time: "int (be_val (be_bytes 8 (nat ts))) = ts" using ts be_val_bytes [of "nat ts" 8] by (simp add: stamp_ok_def)
  have c1: "check_line C ?t log_name (TYPE_ED25519, sk_public lk) (sk_sign lk (utf8 ?t)) = Verified None"
    using keys(1) by (simp add: check_line_def honest_key_def)
  have c2: "check_line C ?t wit_name (TYPE_COSIG_V1, sk_public wk) (be_bytes 8 (nat ts) @ sk_sign wk (cosign_message ts ?t)) = Verified (Some ts)"
    using keys(2) ts time t(2) by (simp add: check_line_def honest_key_def type_defs)
  have "verify_note C (utf8 (note_of ?t [?l, ?w])) [v, w] = Inr \<lparr>stato = OK, note_text = Some ?t,
      verified_lines = [\<lparr>vl_name = log_name, vl_type = TYPE_ED25519, vl_time = None\<rparr>, \<lparr>vl_name = wit_name, vl_type = TYPE_COSIG_V1, vl_time = Some ts\<rparr>],
      ignored_lines = 0, ignored_vkeys = 0\<rparr>"
    unfolding verify_note_def table split2 using kid c1 c2 C distinct by (auto simp: log_line_def wit_line_def)
  with sign cosign vw show ?thesis by blast
qed

text \<open>The example functions extended to notes, a log key and a witness key.\<close>

definition example_note_crypto :: note_crypto where
  "example_note_crypto = crypto.extend example_crypto
     \<lparr>ed_present = True, ec_curve = (\<lambda>_. None), ec_verify = (\<lambda>_ _ _. False), mldsa44_verify = None\<rparr>"

lemma example_note_crypto_simps [simp]:
  "sha256 example_note_crypto = example_hash" "ed_present example_note_crypto"
  "ed_verify example_note_crypto pk sig m \<longleftrightarrow> sig = example_sign pk m" "mldsa44_verify example_note_crypto = None"
  by (simp_all add: example_note_crypto_def crypto.defs example_crypto_def)

definition example_key :: "byte \<Rightarrow> signing_key" where
  "example_key b = \<lparr>sk_public = replicate 32 b, sk_sign = example_sign (replicate 32 b)\<rparr>"

lemma example_key_honest: "honest_key example_note_crypto (example_key b)"
  by (simp add: honest_key_def example_key_def example_sign_def)

lemma ascii_name: "n \<noteq> [] \<Longrightarrow> \<forall>c\<in>set n. 44 \<le> c \<and> c < 127 \<Longrightarrow> length n \<le> 255 \<Longrightarrow> key_name_fits n"
proof -
  assume n: "n \<noteq> []" "\<forall>c\<in>set n. 44 \<le> c \<and> c < 127" "length n \<le> 255"
  then have "encodable n \<and> utf8 n = ascii_bytes n" using utf8_ascii_eq [of n] by fastforce
  moreover have "c \<notin> set unicode_spaces" if "c < 127" for c using that by (auto simp: unicode_spaces_def)
  ultimately show ?thesis using n by (auto simp: key_name_fits_def name_ok_def list_all_iff MAX_NAME_BYTES_def ascii_bytes_def)
qed

lemma example_names: "key_name_fits (lit ''log'')" "key_name_fits (lit ''wit'')"
  by (rule ascii_name; simp)+

definition example_checkpoint :: checkpoint where
  "example_checkpoint = \<lparr>origin = lit ''log'', tree_size = 2, root = mth example_hash [[1], [2]], extensions = []\<rparr>"

lemma example_checkpoint_valid: "checkpoint_valid example_checkpoint" "encodable (text_of_checkpoint example_checkpoint)"
proof -
  show "checkpoint_valid example_checkpoint"
    by (simp add: checkpoint_valid_def example_checkpoint_def has_control_def length_mth)
  have "encodable (b64encode r)" for r using utf8_ascii_eq b64encode_plain by blast
  moreover have "encodable (lit ''log'')" using example_names by (simp add: key_name_fits_def del: lit_Cons)
  moreover have "encodable (nat_str 2)" "encodable [10]" by (simp_all add: nat_str.simps encodable_scalar scalar_def)
  ultimately show "encodable (text_of_checkpoint example_checkpoint)"
    unfolding encodable_scalar by (simp add: text_of_checkpoint_def example_checkpoint_def join_Cons int_str_def)
qed

theorem cosigned_note_verifies_witness:
  "\<exists>note note' v w. sign_note example_note_crypto (text_of_checkpoint example_checkpoint) (lit ''log'') (example_key 1) = Inr note \<and>
    cosign_v1 example_note_crypto note (lit ''wit'') (example_key 2) 1700000000 = Inr note' \<and>
    vkey example_note_crypto (lit ''log'') TYPE_ED25519 (sk_public (example_key 1)) = Inr v \<and>
    vkey example_note_crypto (lit ''wit'') TYPE_COSIG_V1 (sk_public (example_key 2)) = Inr w \<and>
    verify_note example_note_crypto note' [v, w] = Inr \<lparr>stato = OK, note_text = Some (text_of_checkpoint example_checkpoint),
      verified_lines = [\<lparr>vl_name = lit ''log'', vl_type = TYPE_ED25519, vl_time = None\<rparr>, \<lparr>vl_name = lit ''wit'', vl_type = TYPE_COSIG_V1, vl_time = Some 1700000000\<rparr>],
      ignored_lines = 0, ignored_vkeys = 0\<rparr>"
  by (rule cosigned_note_verifies [OF _ _ example_checkpoint_valid example_names example_key_honest example_key_honest])
    (simp_all add: stamp_ok_def)

end
