(* ===== verification/Tree_History.thy ===== *)
theory Tree_History
  imports Merkle_Inclusion
begin

text \<open>
  What a party that only follows accepted steps between tree heads knows, whatever the form of its proofs: the
  witness, the monitor and the holder of consistency receipts all keep a head and move to a new one only with an
  accepted proof.
\<close>

type_synonym head = "int \<times> bytes"

text \<open>A history: the first head, then the heads with the proofs they were accepted with.\<close>

fun follows :: "(head \<Rightarrow> head \<Rightarrow> 'p \<Rightarrow> bool) \<Rightarrow> head \<Rightarrow> (head \<times> 'p) list \<Rightarrow> bool" where
  "follows acc h [] = True"
| "follows acc h ((h', p) # hs) = (acc h h' p \<and> follows acc h' hs)"

lemma follows_snoc: "follows acc h (hs @ [(h', p)]) \<longleftrightarrow> follows acc h hs \<and> acc (last (h # map fst hs)) h' p"
  by (induction hs arbitrary: h) auto

lemma follows_append: "follows acc h (xs @ ys) \<longleftrightarrow> follows acc h xs \<and> follows acc (last (h # map fst xs)) ys"
  by (induction xs arbitrary: h) auto

text \<open>All that was hashed: the prefixes of the last tree, and what the proofs made the verifier hash.\<close>

fun history_inputs :: "(head \<Rightarrow> head \<Rightarrow> 'p \<Rightarrow> bytes set) \<Rightarrow> head \<Rightarrow> (head \<times> 'p) list \<Rightarrow> bytes set" where
  "history_inputs inputs h [] = {}"
| "history_inputs inputs h ((h', p) # hs) = inputs h h' p \<union> history_inputs inputs h' hs"

definition prefix_inputs :: "hashf \<Rightarrow> bytes list \<Rightarrow> bytes set" where
  "prefix_inputs H D = (\<Union>k. mth_inputs H (take k D))"

lemma prefix_inputs_self: "mth_inputs H D \<subseteq> prefix_inputs H D"
  unfolding prefix_inputs_def by (metis UN_upper iso_tuple_UNIV_I order_refl take_all_iff)

lemma prefix_inputs_take: "prefix_inputs H (take k D) \<subseteq> prefix_inputs H D"
  by (auto simp: prefix_inputs_def)

locale tree_history =
  fixes H :: hashf and accepts :: "head \<Rightarrow> head \<Rightarrow> 'p \<Rightarrow> bool" and inputs :: "head \<Rightarrow> head \<Rightarrow> 'p \<Rightarrow> bytes set"
  assumes grows: "accepts (m, r) (n, r') p \<Longrightarrow> m \<le> n"
    and head_extract: "\<forall>x. length (H x) = 32 \<Longrightarrow> accepts (m, r) (n, r') p \<Longrightarrow> 0 < m \<Longrightarrow> n = int (length D) \<Longrightarrow> r' = mth H D \<Longrightarrow>
      r = mth H (take (nat m) D) \<or> collision H (mth_inputs H D \<union> inputs (m, r) (n, r') p)"
begin

lemma follows_grows: "follows accepts (m, r) hs \<Longrightarrow> m \<le> fst (last ((m, r) # map fst hs))"
proof (induction hs arbitrary: m r)
  case (Cons x hs)
  obtain n r' p where x: "x = ((n, r'), p)" by (metis prod.collapse)
  with Cons.prems have "m \<le> n" "n \<le> fst (last ((n, r') # map fst hs))" using grows Cons.IH by auto
  then show ?case using x by simp
qed simp

lemma follows_extract:
  assumes h: "\<forall>x. length (H x) = 32" and "follows accepts (m, r) hs" "0 < m" "last ((m, r) # map fst hs) = (int (length D), mth H D)"
  shows "r = mth H (take (nat m) D) \<or> collision H (prefix_inputs H D \<union> history_inputs inputs (m, r) hs)"
  using assms(2-)
proof (induction hs arbitrary: m r)
  case (Cons x hs)
  obtain n r' p where x: "x = ((n, r'), p)" by (metis prod.collapse)
  have acc: "accepts (m, r) (n, r') p" "follows accepts (n, r') hs" "last ((n, r') # map fst hs) = (int (length D), mth H D)"
    using Cons.prems x by auto
  have n: "m \<le> n" "0 < n" "n \<le> int (length D)"
    using grows [OF acc(1)] Cons.prems(2) follows_grows [OF acc(2)] acc(3) by auto
  let ?S = "prefix_inputs H D \<union> history_inputs inputs (m, r) (x # hs)"
  from Cons.IH [OF acc(2) n(2) acc(3)] have "r' = mth H (take (nat n) D) \<or> collision H ?S"
    by (rule or_collision_mono) (auto simp: x)
  moreover have "r = mth H (take (nat m) (take (nat n) D)) \<or> collision H ?S" if "r' = mth H (take (nat n) D)"
  proof -
    have "n = int (length (take (nat n) D))" using n by simp
    from head_extract [OF h acc(1) Cons.prems(2) this that] show ?thesis
      using prefix_inputs_self [of H "take (nat n) D"] prefix_inputs_take [of H "nat n" D] by (elim or_collision_mono) (auto simp: x)
  qed
  moreover have "take (nat m) (take (nat n) D) = take (nat m) D" using n by (simp add: min_def)
  ultimately show ?case by auto
qed (auto simp: prefix_inputs_def)

end

text \<open>The proofs of \<^verbatim>\<open>cryptovalid_merkle\<close> are such steps: octet strings of 32 octets, an old head of at least one leaf or any head before growth from nothing.\<close>

definition merkle_step :: "hashf \<Rightarrow> head \<Rightarrow> head \<Rightarrow> bytes list \<Rightarrow> bool" where
  "merkle_step H h h' p \<longleftrightarrow>
     length (snd h) = 32 \<and> (\<forall>c\<in>set p. length c = 32) \<and> 0 \<le> fst h \<and> fst h \<le> fst h' \<and>
     (fst h = 0 \<or> verify_consistency H (fst h) (fst h') p (snd h) (snd h'))"

definition merkle_inputs :: "hashf \<Rightarrow> head \<Rightarrow> head \<Rightarrow> bytes list \<Rightarrow> bytes set" where
  "merkle_inputs H h h' p = consistency_inputs H (fst h) (fst h') p (snd h)"

interpretation merkle: tree_history H "merkle_step H" "merkle_inputs H" for H
proof
  fix m n :: int and r r' p D
  assume a: "merkle_step H (m, r) (n, r') p"
  then show "m \<le> n" by (simp add: merkle_step_def)
  assume "\<forall>x. length (H x) = 32" "0 < m" "n = int (length D)" "r' = mth H D"
  then show "r = mth H (take (nat m) D) \<or> collision H (mth_inputs H D \<union> merkle_inputs H (m, r) (n, r') p)"
    using a consistency_extracts [of H p r m D] by (simp add: merkle_step_def merkle_inputs_def)
qed

end
