(* ===== verification/Witness.thy ===== *)
theory Witness
  imports Checkpoint Tree_History
begin

text \<open>
  The witness (\<^verbatim>\<open>src/cryptovalid_witness.py\<close>): a party that keeps the last checkpoint it cosigned for every log and cosigns
  a new one only with a proof that the tree has grown. Its state file, the evidence of two log-signed roots at one
  size, the history of cosigned checkpoints, the rings that bound what a client can make it remember, the relying
  party's check, and the HTTP request body.
\<close>

section \<open>State\<close>

record origin_entry =
  oe_size :: int
  oe_root :: pystr
  oe_note :: pystr
  oe_at :: int

datatype ev_kind = Rollback | Unproven_Extension | Split_View | Split_View_Unkept

record refusal =
  rf_kind :: ev_kind
  rf_size :: int
  rf_root :: pystr
  rf_when :: int

record ring =
  ring_count :: int
  ring_last :: "refusal list"

text \<open>Pending roots of an origin: size (a decimal string) to root to the note, if it was small enough to keep.\<close>

type_synonym roots = "(pystr \<times> pystr option) list"
type_synonym pending = "(pystr \<times> roots) list"

record wit_state =
  origins :: "(pystr \<times> origin_entry) list"
  pendings :: "(pystr \<times> pending) list"
  refusals :: "(pystr \<times> ring) list"
  proofs_seen :: "pystr list"

record evidence =
  ev_kind :: ev_kind
  ev_proof :: bool
  ev_origin :: pystr
  ev_size_before :: int
  ev_size_shown :: int
  ev_before :: "pystr option"
  ev_shown :: pystr
  ev_when :: int
  ev_before_root :: "pystr option"

record cosigned_rec =
  cr_origin :: pystr
  cr_size :: int
  cr_root :: pystr
  cr_note :: pystr
  cr_at :: int

text \<open>The three files of a witness, and whether the writes of this request succeed (a failed one leaves its file as it was).\<close>

record wit_files =
  wf_state :: wit_state
  wf_evidence :: "evidence list"
  wf_history :: "cosigned_rec list"

record wit_io =
  io_evidence :: bool
  io_history :: bool
  io_save :: bool

datatype wit_error =
    Note_Error note_error
  | State_Malformed
  | No_Log_Key
  | Not_A_Log_Key
  | Ambiguous_Origin
  | Stale_Time
  | Bad_Time
  | Write_Failed
  | Stop_Iteration
  | Not_A_Witness_Key
  | Bad_Argument

definition empty_state :: wit_state where
  "empty_state = \<lparr>origins = [], pendings = [], refusals = [], proofs_seen = []\<rparr>"

text \<open>\<^verbatim>\<open>_load_state\<close>: the checks that remain once the JSON types are right.\<close>

definition entry_ok :: "origin_entry \<Rightarrow> bool" where
  "entry_ok e \<longleftrightarrow> 0 \<le> oe_size e \<and> (case b64decode_strict (oe_root e) of Some r \<Rightarrow> length r = 32 | None \<Rightarrow> False)"

definition load_state :: "wit_state \<Rightarrow> wit_error + wit_state" where
  "load_state st =
     (if list_all (\<lambda>(orig, p). list_all (\<lambda>(sz, _). size_match sz) p) (pendings st) \<and> list_all (\<lambda>(orig, e). entry_ok e) (origins st)
      then Inr st else Inl State_Malformed)"

definition EMPTY_ROOT :: "('x crypto_scheme) \<Rightarrow> bytes" where
  "EMPTY_ROOT C = sha256 C []"

definition RING :: nat where "RING = 100"

definition PENDING_BYTES :: nat where "PENDING_BYTES = 256 * 1024"

definition PENDING_NOTE :: nat where "PENDING_NOTE = 16 * 1024"

definition HISTORY_SCAN :: nat where "HISTORY_SCAN = 4 * 1024 * 1024"

definition PROOFS_SEEN :: nat where "PROOFS_SEEN = 10000"

definition MAX_PROOF :: nat where "MAX_PROOF = 63"

definition LOG_KEY_TYPES :: "nat list" where
  "LOG_KEY_TYPES = [TYPE_ED25519, TYPE_ECDSA]"

definition keep_last :: "nat \<Rightarrow> 'a list \<Rightarrow> 'a list" where
  "keep_last n xs = drop (length xs - n) xs"

section \<open>One request under the lock\<close>

record ctx =
  cx_cp :: checkpoint
  cx_root :: pystr
  cx_text :: pystr
  cx_shown :: pystr
  cx_when :: int
  cx_prev :: "origin_entry option"
  cx_stored :: int

text \<open>The variables of the request: the state in memory, whether it differs from the file, the evidence of the answer, the files.\<close>

record work =
  w_state :: wit_state
  w_dirty :: bool
  w_ev :: "evidence option"
  w_files :: wit_files

definition make_ev :: "ctx \<Rightarrow> ev_kind \<Rightarrow> bool \<Rightarrow> pystr option \<Rightarrow> int \<Rightarrow> pystr option \<Rightarrow> evidence" where
  "make_ev cx kind proven note sz rt =
     \<lparr>ev_kind = kind, ev_proof = proven, ev_origin = origin (cx_cp cx), ev_size_before = sz, ev_size_shown = tree_size (cx_cp cx),
      ev_before = note, ev_shown = cx_shown cx, ev_when = cx_when cx, ev_before_root = rt\<rparr>"

text \<open>The pair as evidence: full when the other note was kept, else with its root only.\<close>

definition pair_ev :: "ctx \<Rightarrow> pystr option \<Rightarrow> pystr \<Rightarrow> evidence" where
  "pair_ev cx other_note other_root =
     (case other_note of
        Some n \<Rightarrow> make_ev cx Split_View True (Some n) (tree_size (cx_cp cx)) None
      | None \<Rightarrow> make_ev cx Split_View_Unkept False None (tree_size (cx_cp cx)) (Some other_root))"

definition flush_state :: "wit_io \<Rightarrow> work \<Rightarrow> (wit_error \<times> work) + work" where
  "flush_state io w =
     (if \<not> w_dirty w then Inr w
      else if io_save io then Inr (w\<lparr>w_dirty := False, w_files := (w_files w)\<lparr>wf_state := w_state w\<rparr>\<rparr>)
      else Inl (Write_Failed, w))"

definition proof_key :: "('x crypto_scheme) \<Rightarrow> ctx \<Rightarrow> pystr option \<Rightarrow> pystr \<Rightarrow> pystr" where
  "proof_key C cx other_note other_root =
     hex_of (sha256 C (utf8 (origin (cx_cp cx) @ [0] @ int_str (tree_size (cx_cp cx)) @ [0] @ join [0] (sort [other_root, cx_root cx])))) @
     lit (if other_note \<noteq> None then ''|full'' else ''|half'')"

text \<open>\<^verbatim>\<open>_proof\<close>: a split-view pair, written once per pair.\<close>

definition record_proof :: "('x crypto_scheme) \<Rightarrow> wit_io \<Rightarrow> ctx \<Rightarrow> pystr option \<Rightarrow> pystr \<Rightarrow> work \<Rightarrow> (wit_error \<times> work) + work" where
  "record_proof C io cx other_note other_root w =
     (let key = proof_key C cx other_note other_root; seen = proofs_seen (w_state w) in
      if key \<in> set seen then Inr w
      else
        let w1 = w\<lparr>w_dirty := True, w_state := (w_state w)\<lparr>proofs_seen := keep_last PROOFS_SEEN (seen @ [key])\<rparr>\<rparr> in
        if io_evidence io
        then Inr (w1\<lparr>w_files := (w_files w1)\<lparr>wf_evidence := wf_evidence (w_files w1) @ [pair_ev cx other_note other_root]\<rparr>\<rparr>)
        else Inl (Write_Failed, w1))"

text \<open>\<^verbatim>\<open>_cosigned_at\<close>: the records of the history whose lines lie in its last \<open>HISTORY_SCAN\<close> octets. A line is the record in JSON.\<close>

definition esc_raw :: "nat \<Rightarrow> pystr" where
  "esc_raw c = (if c < 127 then esc_char c else [c])"

definition raw_str :: "pystr \<Rightarrow> pystr" where
  "raw_str s = 34 # concat (map esc_raw s) @ [34]"

definition history_line :: "cosigned_rec \<Rightarrow> bytes" where
  "history_line r =
     utf8 (lit ''{'' @ raw_str (lit ''origin'') @ lit '': '' @ raw_str (cr_origin r) @ lit '', '' @ raw_str (lit ''size'') @ lit '': '' @ int_str (cr_size r) @
       lit '', '' @ raw_str (lit ''root_b64'') @ lit '': '' @ raw_str (cr_root r) @ lit '', '' @ raw_str (lit ''note'') @ lit '': '' @ raw_str (cr_note r) @
       lit '', '' @ raw_str (lit ''cosigned_at'') @ lit '': '' @ int_str (cr_at r) @ lit ''}'' @ [10])"

fun newest_within :: "nat \<Rightarrow> cosigned_rec list \<Rightarrow> cosigned_rec list" where
  "newest_within budget [] = []"
| "newest_within budget (r # rs) =
     (let n = length (history_line r) in if n \<le> budget then r # newest_within (budget - n) rs else [])"

fun set_defaults :: "cosigned_rec list \<Rightarrow> roots \<Rightarrow> roots" where
  "set_defaults [] found = found"
| "set_defaults (r # rs) found =
     set_defaults rs (if map_of found (cr_root r) = None then found @ [(cr_root r, Some (cr_note r))] else found)"

definition cosigned_at :: "cosigned_rec list \<Rightarrow> ctx \<Rightarrow> roots" where
  "cosigned_at hist cx =
     set_defaults (filter (\<lambda>r. cr_origin r = origin (cx_cp cx) \<and> cr_size r = tree_size (cx_cp cx) \<and> cr_note r \<noteq> [])
       (rev (newest_within HISTORY_SCAN (rev hist)))) []"

definition size_key :: "int \<Rightarrow> pystr" where
  "size_key n = int_str n"

definition pending_of :: "wit_state \<Rightarrow> pystr \<Rightarrow> pending" where
  "pending_of st orig = (case map_of (pendings st) orig of Some p \<Rightarrow> p | None \<Rightarrow> [])"

definition roots_at :: "pending \<Rightarrow> int \<Rightarrow> roots" where
  "roots_at p n = (case map_of p (size_key n) of Some r \<Rightarrow> r | None \<Rightarrow> [])"

definition update_all :: "roots \<Rightarrow> roots \<Rightarrow> roots" where
  "update_all new base = fold (\<lambda>(k, v). AList.update k v) new base"

definition ring_of :: "wit_state \<Rightarrow> pystr \<Rightarrow> ring" where
  "ring_of st orig = (case map_of (refusals st) orig of Some r \<Rightarrow> r | None \<Rightarrow> \<lparr>ring_count = 0, ring_last = []\<rparr>)"

text \<open>The candidates a rolled-back checkpoint is compared with, those with a note first.\<close>

definition candidates :: "ctx \<Rightarrow> wit_state \<Rightarrow> ring \<Rightarrow> cosigned_rec list \<Rightarrow> roots" where
  "candidates cx st rg hist =
     (let n = tree_size (cx_cp cx);
          refused = map (\<lambda>e. (rf_root e, None)) (filter (\<lambda>e. rf_size e = n \<and> rf_root e \<noteq> cx_root cx) (ring_last rg));
          all_roots = update_all (cosigned_at hist cx) (update_all (roots_at (pending_of st (origin (cx_cp cx))) n) (update_all refused []))
      in filter (\<lambda>(_, n). n \<noteq> None) all_roots @ filter (\<lambda>(_, n). n = None) all_roots)"

text \<open>\<^verbatim>\<open>_refused\<close>: a refusal that is not proof; any proof hidden in a rollback is extracted. The caller has a previous entry.\<close>

definition refused :: "('x crypto_scheme) \<Rightarrow> wit_io \<Rightarrow> ctx \<Rightarrow> origin_entry \<Rightarrow> ev_kind \<Rightarrow> work \<Rightarrow> (wit_error \<times> work) + evidence \<times> work" where
  "refused C io cx prev kind w =
     (let ev0 = (case w_ev w of Some e \<Rightarrow> e | None \<Rightarrow> make_ev cx kind False (Some (oe_note prev)) (oe_size prev) None);
          n = tree_size (cx_cp cx); orig = origin (cx_cp cx); rg = ring_of (w_state w) orig;
          known = list_ex (\<lambda>e. rf_kind e = kind \<and> rf_size e = n \<and> rf_root e = cx_root cx) (ring_last rg);
          rg' = (if known then rg
                 else \<lparr>ring_count = ring_count rg + 1,
                       ring_last = keep_last RING (ring_last rg @ [\<lparr>rf_kind = kind, rf_size = n, rf_root = cx_root cx, rf_when = cx_when cx\<rparr>])\<rparr>);
          w1 = w\<lparr>w_state := (w_state w)\<lparr>refusals := AList.update orig rg' (refusals (w_state w))\<rparr>, w_dirty := (w_dirty w \<or> \<not> known)\<rparr>;
          other = (if n < cx_stored cx then find (\<lambda>(r, _). r \<noteq> cx_root cx) (candidates cx (w_state w1) rg' (wf_history (w_files w1))) else None)
      in (case other of
            None \<Rightarrow> bindE (flush_state io w1) (\<lambda>w2. Inr (ev0, w2))
          | Some (r, note) \<Rightarrow>
              bindE (record_proof C io cx note r w1) (\<lambda>w2. bindE (flush_state io w2) (\<lambda>w3. Inr (pair_ev cx note r, w3)))))"

text \<open>The bound on the pending notes: the smallest sizes are dropped first. \<open>None\<close>: an empty inner table, where the code raises.\<close>

definition pending_count :: "pending \<Rightarrow> nat" where
  "pending_count p = sum_list (map (\<lambda>(_, r). length r) p)"

definition pending_bytes :: "pending \<Rightarrow> nat" where
  "pending_bytes p = sum_list (map (\<lambda>(_, r). sum_list (map (\<lambda>(_, n). case n of Some t \<Rightarrow> length (utf8 t) | None \<Rightarrow> 0) r)) p)"

definition over_budget :: "pending \<Rightarrow> bool" where
  "over_budget p \<longleftrightarrow> p \<noteq> [] \<and> (pending_count p > RING \<or> pending_bytes p > PENDING_BYTES)"

fun smallest_size :: "pending \<Rightarrow> pystr" where
  "smallest_size [] = []"
| "smallest_size [(k, _)] = k"
| "smallest_size ((k, r) # p) = (let j = smallest_size p in if digits_val k \<le> digits_val j then k else j)"

definition drop_one :: "pending \<Rightarrow> pending option" where
  "drop_one p =
     (let k = smallest_size p in
      case map_of p k of
        Some (_ # rs) \<Rightarrow> Some (if rs = [] then AList.delete k p else AList.update k rs p)
      | _ \<Rightarrow> None)"

lemma pending_count_update: "map_of p k = Some r \<Longrightarrow> pending_count (AList.update k rs p) + length r = pending_count p + length rs"
  by (induction p) (auto simp: pending_count_def split: if_splits)

lemma pending_count_delete: "map_of p k = Some r \<Longrightarrow> pending_count (AList.delete k p) + length r \<le> pending_count p"
proof (induction p)
  case (Cons x p)
  have "pending_count (AList.delete k q) \<le> pending_count q" for q
    by (induction q) (auto simp: pending_count_def AList.delete_eq)
  from this [of p] Cons show ?case by (auto simp: pending_count_def AList.delete_eq split: if_splits)
qed simp

lemma drop_one_smaller: "drop_one p = Some q \<Longrightarrow> pending_count q < pending_count p"
proof -
  assume d: "drop_one p = Some q"
  then obtain x rs where r: "map_of p (smallest_size p) = Some (x # rs)"
    "q = (if rs = [] then AList.delete (smallest_size p) p else AList.update (smallest_size p) rs p)"
    by (auto simp: drop_one_def Let_def split: option.splits list.splits)
  then show ?thesis using pending_count_update [OF r(1), of rs] pending_count_delete [OF r(1)] by auto
qed

function trim_pending :: "pending \<Rightarrow> (pending \<times> bool) option" where
  "trim_pending p =
     (if \<not> over_budget p then Some (p, False)
      else case drop_one p of None \<Rightarrow> None | Some q \<Rightarrow> map_option (\<lambda>(r, _). (r, True)) (trim_pending q))"
  by pat_completeness auto
termination by (relation "measure pending_count") (auto dest: drop_one_smaller)

declare trim_pending.simps [simp del]

text \<open>\<^verbatim>\<open>_note_future\<close>: a log-signed root beyond the stored size, compared with the pending ones and kept.\<close>

definition partner_of :: "ctx \<Rightarrow> roots \<Rightarrow> (pystr \<times> pystr option) option" where
  "partner_of cx pend =
     (case find (\<lambda>(r, n). r \<noteq> cx_root cx \<and> n \<noteq> None) pend of
        Some x \<Rightarrow> Some x
      | None \<Rightarrow> find (\<lambda>(r, _). r \<noteq> cx_root cx) pend)"

definition keep_root :: "ctx \<Rightarrow> pending \<Rightarrow> (pending \<times> bool) option" where
  "keep_root cx pend_o =
     (let n = tree_size (cx_cp cx); pend = roots_at pend_o n;
          small = (if length (utf8 (cx_shown cx)) \<le> PENDING_NOTE then Some (cx_shown cx) else None);
          news = (case map_of pend (cx_root cx) of None \<Rightarrow> True | Some None \<Rightarrow> small \<noteq> None | Some (Some _) \<Rightarrow> False);
          pend' = (if news then AList.update (cx_root cx) small pend else pend)
      in map_option (\<lambda>(p, trimmed). (p, news \<or> trimmed)) (trim_pending (AList.update (size_key n) pend' pend_o)))"

definition note_future :: "('x crypto_scheme) \<Rightarrow> wit_io \<Rightarrow> ctx \<Rightarrow> work \<Rightarrow> (wit_error \<times> work) + work" where
  "note_future C io cx w =
     (let orig = origin (cx_cp cx); pend_o = pending_of (w_state w) orig in
      bindE (case partner_of cx (roots_at pend_o (tree_size (cx_cp cx))) of
          None \<Rightarrow> Inr w
        | Some (r, note) \<Rightarrow> bindE (record_proof C io cx note r w) (\<lambda>w1. Inr (w1\<lparr>w_ev := Some (pair_ev cx note r)\<rparr>))) (\<lambda>w2.
        case keep_root cx pend_o of
          None \<Rightarrow> Inl (Stop_Iteration, w2)
        | Some (p, changed) \<Rightarrow>
            Inr (w2\<lparr>w_state := (w_state w2)\<lparr>pendings := AList.update orig p (pendings (w_state w2))\<rparr>, w_dirty := (w_dirty w2 \<or> changed)\<rparr>)))"

datatype wit_reason =
    Malformed_Note note_error
  | Log_Signature note_state
  | No_Log_Signature
  | Checkpoint_Text note_error
  | Wrong_Origin
  | Too_Many_Proof_Lines
  | Origin_Too_Long
  | No_Room
  | Old_Size_Invalid
  | Old_Size_Differs
  | Bad_Empty_Root
  | Rolled_Back
  | Equivocation
  | Needless_Proof
  | No_Consistency_Proof

record wit_out =
  wo_cosigned :: bool
  wo_reason :: "wit_reason option"
  wo_note :: "bytes option"
  wo_line :: "bytes option"
  wo_ev :: "evidence option"
  wo_origin :: "pystr option"
  wo_size :: "int option"
  wo_status :: int
  wo_stored :: "int option"

definition refusal_out :: "wit_reason \<Rightarrow> int \<Rightarrow> wit_out" where
  "refusal_out reason status =
     \<lparr>wo_cosigned = False, wo_reason = Some reason, wo_note = None, wo_line = None, wo_ev = None, wo_origin = None, wo_size = None,
      wo_status = status, wo_stored = None\<rparr>"

record wit_key =
  wk_name :: pystr
  wk_key :: signing_key
  wk_pq :: "signing_key option"

text \<open>The look at the checkpoint before the old-size rule.\<close>

definition look_first :: "('x crypto_scheme) \<Rightarrow> wit_io \<Rightarrow> ctx \<Rightarrow> work \<Rightarrow> (wit_error \<times> work) + work" where
  "look_first C io cx w =
     (let n = tree_size (cx_cp cx) in
      if n = 0 \<and> root (cx_cp cx) \<noteq> EMPTY_ROOT C then Inr w
      else (case cx_prev cx of
          Some prev \<Rightarrow>
            if n < oe_size prev then bindE (refused C io cx prev Rollback w) (\<lambda>(ev, w1). Inr (w1\<lparr>w_ev := Some ev\<rparr>))
            else if n = oe_size prev \<and> cx_root cx \<noteq> oe_root prev then
              bindE (record_proof C io cx (Some (oe_note prev)) (oe_root prev) w) (\<lambda>w1.
                flush_state io (w1\<lparr>w_ev := Some (make_ev cx Split_View True (Some (oe_note prev)) (oe_size prev) None)\<rparr>))
            else if n > cx_stored cx \<and> n \<noteq> 0 then note_future C io cx w
            else Inr w
        | None \<Rightarrow> if n > cx_stored cx \<and> n \<noteq> 0 then note_future C io cx w else Inr w))"

text \<open>The rules after it: \<open>Inr None\<close> when the checkpoint may be cosigned, \<open>Some\<close> the refusal.\<close>

definition rules :: "('x crypto_scheme) \<Rightarrow> wit_io \<Rightarrow> ctx \<Rightarrow> int option \<Rightarrow> pystr list \<Rightarrow> work \<Rightarrow> (wit_error \<times> work) + (wit_reason \<times> int) option \<times> work" where
  "rules C io cx old_size proof w =
     (let n = tree_size (cx_cp cx); stop = (\<lambda>r s. bindE (flush_state io w) (\<lambda>w1. Inr (Some (r, s), w1))) in
      if (case old_size of Some k \<Rightarrow> k < 0 \<or> k > n | None \<Rightarrow> False) then stop Old_Size_Invalid 400
      else if (case old_size of Some k \<Rightarrow> k \<noteq> cx_stored cx | None \<Rightarrow> False) then stop Old_Size_Differs 409
      else if n = 0 \<and> root (cx_cp cx) \<noteq> EMPTY_ROOT C then stop Bad_Empty_Root 422
      else (case cx_prev cx of
          None \<Rightarrow> if proof \<noteq> [] then stop Needless_Proof 422 else Inr (None, w)
        | Some prev \<Rightarrow>
            let prev_root = (case b64decode (oe_root prev) of Some r \<Rightarrow> r | None \<Rightarrow> []) in
            if n < oe_size prev then stop Rolled_Back 400
            else if n = oe_size prev \<and> root (cx_cp cx) \<noteq> prev_root then stop Equivocation 422
            else if oe_size prev = 0 \<or> n = oe_size prev then (if proof \<noteq> [] then stop Needless_Proof 422 else Inr (None, w))
            else if \<not> verify_consistency_b64 C (oe_size prev) prev_root n (root (cx_cp cx)) proof then
              bindE (refused C io cx prev Unproven_Extension w) (\<lambda>(ev, w1). Inr (Some (No_Consistency_Proof, 422), w1\<lparr>w_ev := Some ev\<rparr>))
            else Inr (None, w)))"

text \<open>A root pending at the size that is about to be cosigned is now contradicted: proof.\<close>

definition settle_pending :: "('x crypto_scheme) \<Rightarrow> wit_io \<Rightarrow> ctx \<Rightarrow> work \<Rightarrow> (wit_error \<times> work) + work" where
  "settle_pending C io cx w =
     (let orig = origin (cx_cp cx); p = pending_of (w_state w) orig in
      bindE (if w_ev w \<noteq> None then Inr w
             else (case find (\<lambda>(r, _). r \<noteq> cx_root cx) (roots_at p (tree_size (cx_cp cx))) of
                 None \<Rightarrow> Inr w
               | Some (r, note) \<Rightarrow> record_proof C io cx note r w)) (\<lambda>w1.
        Inr (if map_of (pendings (w_state w1)) orig = None then w1
             else w1\<lparr>w_state := (w_state w1)\<lparr>pendings := AList.update orig (AList.delete (size_key (tree_size (cx_cp cx))) p) (pendings (w_state w1))\<rparr>\<rparr>)))"

definition lift_note :: "work \<Rightarrow> note_error + 'a \<Rightarrow> (wit_error \<times> work) + 'a" where
  "lift_note w r = (case r of Inl e \<Rightarrow> Inl (Note_Error e, w) | Inr x \<Rightarrow> Inr x)"

text \<open>The cosignature, the history record, and the state with the new checkpoint, in this order.\<close>

definition sign_and_save ::
  "('x note_crypto_scheme) \<Rightarrow> wit_io \<Rightarrow> ctx \<Rightarrow> wit_key \<Rightarrow> pystr list \<Rightarrow> int \<Rightarrow> work \<Rightarrow> (wit_error \<times> work) + bytes \<times> bytes \<times> work" where
  "sign_and_save C io cx wk kept ts w =
     (let base = utf8 (cx_text cx @ [10] @ ended 10 kept); orig = origin (cx_cp cx); n = tree_size (cx_cp cx) in
      bindE (lift_note w (cosign_v1 C base (wk_name wk) (wk_key wk) ts)) (\<lambda>c1.
      bindE (case wk_pq wk of None \<Rightarrow> Inr c1 | Some k \<Rightarrow> lift_note w (cosign_v1_mldsa44 C c1 (wk_name wk) k ts)) (\<lambda>cosigned.
        let line = drop (length base) cosigned;
            stored = cx_shown cx @ (case utf8_decode line of Some s \<Rightarrow> s | None \<Rightarrow> []);
            new_cp = (case cx_prev cx of None \<Rightarrow> True | Some prev \<Rightarrow> oe_root prev \<noteq> cx_root cx \<or> oe_size prev \<noteq> n);
            w1 = (if new_cp then w\<lparr>w_files := (w_files w)\<lparr>wf_history := wf_history (w_files w) @
                     [\<lparr>cr_origin = orig, cr_size = n, cr_root = cx_root cx, cr_note = stored, cr_at = ts\<rparr>]\<rparr>\<rparr> else w);
            st' = (w_state w1)\<lparr>origins := AList.update orig \<lparr>oe_size = n, oe_root = cx_root cx, oe_note = stored, oe_at = ts\<rparr> (origins (w_state w1))\<rparr> in
        if new_cp \<and> \<not> io_history io then Inl (Write_Failed, w)
        else if \<not> io_save io then Inl (Write_Failed, w1)
        else Inr (cosigned, line, w1\<lparr>w_state := st', w_files := (w_files w1)\<lparr>wf_state := st'\<rparr>\<rparr>))))"

text \<open>The answer with the fields of the request filled in.\<close>

definition out_fields :: "ctx \<Rightarrow> work \<Rightarrow> wit_out \<Rightarrow> wit_out" where
  "out_fields cx w out =
     out\<lparr>wo_ev := w_ev w, wo_origin := Some (origin (cx_cp cx)), wo_size := Some (tree_size (cx_cp cx)), wo_stored := Some (cx_stored cx)\<rparr>"

definition cosigned_out :: "bytes \<Rightarrow> bytes \<Rightarrow> wit_out" where
  "cosigned_out cosigned line =
     \<lparr>wo_cosigned = True, wo_reason = None, wo_note = Some cosigned, wo_line = Some line, wo_ev = None, wo_origin = None, wo_size = None,
      wo_status = 200, wo_stored = None\<rparr>"

text \<open>The body of \<^verbatim>\<open>_cosign_locked\<close> once the time is accepted: look, rules, pending roots, cosignature.\<close>

definition decide ::
  "('x note_crypto_scheme) \<Rightarrow> wit_io \<Rightarrow> ctx \<Rightarrow> wit_key \<Rightarrow> pystr list \<Rightarrow> pystr list \<Rightarrow> int option \<Rightarrow> int \<Rightarrow> work \<Rightarrow> (wit_error \<times> work) + wit_out \<times> work" where
  "decide C io cx wk kept proof old_size ts w =
     bindE (look_first C io cx w) (\<lambda>w1. bindE (rules C io cx old_size proof w1) (\<lambda>(verdict, w2).
       (case verdict of
          Some (reason, status) \<Rightarrow> Inr (out_fields cx w2 (refusal_out reason status), w2)
        | None \<Rightarrow>
            bindE (settle_pending C io cx w2) (\<lambda>w3.
            bindE (sign_and_save C io cx wk kept ts w3) (\<lambda>(cosigned, line, w4).
              Inr (out_fields cx w4 (cosigned_out cosigned line), w4))))))"

text \<open>\<^verbatim>\<open>_cosign_locked\<close>. The clock is read twice: \<open>now\<close> for the records, \<open>now'\<close> for the cosignature.\<close>

definition cosign_locked ::
  "('x note_crypto_scheme) \<Rightarrow> wit_io \<Rightarrow> wit_key \<Rightarrow> checkpoint \<Rightarrow> pystr \<Rightarrow> pystr list \<Rightarrow> pystr list \<Rightarrow> pystr list \<Rightarrow> int option \<Rightarrow> int option \<Rightarrow>
    int \<Rightarrow> int \<Rightarrow> wit_files \<Rightarrow> (wit_error + wit_out) \<times> wit_files" where
  "cosign_locked C io wk cp txt trusted_lines kept proof time old_size now now' fs =
     (case load_state (wf_state fs) of
        Inl e \<Rightarrow> (Inl e, fs)
      | Inr st \<Rightarrow>
          let prev = map_of (origins st) (origin cp); stored = (case prev of Some p \<Rightarrow> oe_size p | None \<Rightarrow> 0) in
          if (case (time, prev) of (Some t, Some p) \<Rightarrow> t < oe_at p | _ \<Rightarrow> False) then (Inl Stale_Time, fs)
          else if (case time of Some t \<Rightarrow> \<not> stamp_ok t | None \<Rightarrow> False) then (Inl Bad_Time, fs)
          else
            let cx = \<lparr>cx_cp = cp, cx_root = b64encode (root cp), cx_text = txt, cx_shown = txt @ [10] @ concat trusted_lines,
                      cx_when = (case time of Some t \<Rightarrow> t | None \<Rightarrow> now), cx_prev = prev, cx_stored = stored\<rparr>;
                w = \<lparr>w_state = st, w_dirty = False, w_ev = None, w_files = fs\<rparr> in
            (case decide C io cx wk kept proof old_size (case time of Some t \<Rightarrow> t | None \<Rightarrow> now') w of
               Inl (e, w') \<Rightarrow> (Inl e, w_files w')
             | Inr (out, w') \<Rightarrow> (Inr out, w_files w')))"

section \<open>A request\<close>

record wit_req =
  rq_note :: bytes
  rq_vkeys :: "pystr list"
  rq_proof :: "pystr list"
  rq_time :: "int option"
  rq_old :: "int option"
  rq_origin :: "pystr option"

fun parse_keys :: "('x crypto_scheme) \<Rightarrow> bool \<Rightarrow> pystr list \<Rightarrow> note_error + key list" where
  "parse_keys C strict [] = Inr []"
| "parse_keys C strict (v # vs) = bindE (parse_vkey C strict v) (\<lambda>k. bindE (parse_keys C strict vs) (\<lambda>ks. Inr (k # ks)))"

definition key_type :: "key \<Rightarrow> nat" where
  "key_type k = fst (snd (snd k))"

definition key_ident :: "key \<Rightarrow> pystr \<times> bytes" where
  "key_ident k = (fst k, fst (snd k))"

text \<open>The trusted log keys of an origin: at least one, all of a log type.\<close>

definition log_keys :: "('x crypto_scheme) \<Rightarrow> pystr list \<Rightarrow> wit_error + key list" where
  "log_keys C vkeys =
     (if vkeys = [] then Inl No_Log_Key
      else (case parse_keys C True vkeys of
          Inl e \<Rightarrow> Inl (Note_Error e)
        | Inr ks \<Rightarrow> if list_ex (\<lambda>k. key_type k \<notin> set LOG_KEY_TYPES) ks then Inl Not_A_Log_Key else Inr ks))"

definition signed_by_log :: "key list \<Rightarrow> verified_line list \<Rightarrow> bool" where
  "signed_by_log ks vl \<longleftrightarrow> list_ex (\<lambda>l. vl_name l \<in> set (map fst ks) \<and> vl_type l \<in> set LOG_KEY_TYPES) vl"

text \<open>The signature lines of a note as they stand, and those of given keys.\<close>

definition note_lines :: "bytes \<Rightarrow> pystr \<Rightarrow> pystr list" where
  "note_lines note txt =
     (case utf8_decode note of Some s \<Rightarrow> butlast (split_on 10 (drop (length txt + 1) s)) | None \<Rightarrow> [])"

definition lines_of :: "(pystr \<times> bytes \<Rightarrow> bool) \<Rightarrow> pystr list \<Rightarrow> (pystr \<times> bytes) list \<Rightarrow> pystr list" where
  "lines_of P ls sigs = map fst (filter (\<lambda>(_, x). P x) (zip ls sigs))"

definition own_key_ids :: "('x crypto_scheme) \<Rightarrow> wit_key \<Rightarrow> bytes list" where
  "own_key_ids C wk =
     key_id C (wk_name wk) TYPE_COSIG_V1 (sk_public (wk_key wk)) #
     (case wk_pq wk of Some k \<Rightarrow> [key_id C (wk_name wk) TYPE_MLDSA44 (sk_public k)] | None \<Rightarrow> [])"

text \<open>\<^verbatim>\<open>dict.fromkeys\<close>: the first of equal lines.\<close>

definition first_of_each :: "'a list \<Rightarrow> 'a list" where
  "first_of_each xs = rev (remdups (rev xs))"

definition witness_cosign ::
  "('x note_crypto_scheme) \<Rightarrow> wit_io \<Rightarrow> wit_key \<Rightarrow> wit_req \<Rightarrow> int \<Rightarrow> int \<Rightarrow> wit_files \<Rightarrow> (wit_error + wit_out) \<times> wit_files" where
  "witness_cosign C io wk req now now' fs =
     (case split_note (rq_note req) of
        Inl e \<Rightarrow> (Inr (refusal_out (Malformed_Note e) 400), fs)
      | Inr (_, sigs) \<Rightarrow>
     (case log_keys C (rq_vkeys req) of
        Inl e \<Rightarrow> (Inl e, fs)
      | Inr ks \<Rightarrow>
     (case verify_note C (rq_note req) (rq_vkeys req) of
        Inl e \<Rightarrow> (Inl (Note_Error e), fs)
      | Inr v \<Rightarrow>
          if stato v \<noteq> OK then (Inr (refusal_out (Log_Signature (stato v)) (if stato v = NON_VALIDA then 403 else 500)), fs)
          else if \<not> signed_by_log ks (verified_lines v) then (Inr (refusal_out No_Log_Signature 403), fs)
          else if rq_origin req = None \<and> length (remdups (map fst ks)) \<noteq> 1 then (Inl Ambiguous_Origin, fs)
          else
            let txt = the (note_text v) in
            (case parse_checkpoint txt of
               Inl e \<Rightarrow> (Inr (refusal_out (Checkpoint_Text e) 400), fs)
             | Inr cp \<Rightarrow>
                 let here = (\<lambda>r s. (Inr ((refusal_out r s)\<lparr>wo_origin := Some (origin cp), wo_size := Some (tree_size cp)\<rparr>), fs)) in
                 if origin cp \<noteq> (case rq_origin req of None \<Rightarrow> fst (hd ks) | Some orig \<Rightarrow> orig) then here Wrong_Origin 400
                 else if length (rq_proof req) > MAX_PROOF then here Too_Many_Proof_Lines 400
                 else
                   let ls = note_lines (rq_note req) txt;
                       trusted = lines_of (\<lambda>(name, raw). (name, take 4 raw) \<in> set (map key_ident ks)) ls sigs;
                       kept = lines_of (\<lambda>(name, raw). \<not> (name = wk_name wk \<and> take 4 raw \<in> set (own_key_ids C wk))) ls sigs in
                   if wk_pq wk \<noteq> None \<and> mldsa44_verify C = None then (Inl (Note_Error No_Signing_Backend), fs)
                   else if wk_pq wk \<noteq> None \<and> length (utf8 (origin cp)) > 255 then here Origin_Too_Long 400
                   else if length kept + (if wk_pq wk \<noteq> None then 2 else 1) > MAX_SIGS then here No_Room 400
                   else cosign_locked C io wk cp txt (first_of_each (map (\<lambda>l. l @ [10]) trusted)) kept (rq_proof req) (rq_time req) (rq_old req) now now' fs))))"

section \<open>The relying party\<close>

record witnessed =
  ws_state :: note_state
  ws_witnesses :: "pystr list"
  ws_fresh :: "pystr list option"
  ws_future :: "pystr list option"
  ws_age :: "int option"
  ws_checkpoint :: "checkpoint option"

definition witnessed_start :: witnessed where
  "witnessed_start = \<lparr>ws_state = NON_VALIDA, ws_witnesses = [], ws_fresh = None, ws_future = None, ws_age = None, ws_checkpoint = None\<rparr>"

text \<open>The newest cosignature of each witness, by name.\<close>

fun newest_times :: "verified_line list \<Rightarrow> (pystr \<times> int) list \<Rightarrow> (pystr \<times> int) list" where
  "newest_times [] wits = wits"
| "newest_times (l # ls) wits =
     newest_times ls
       (if vl_type l \<in> {TYPE_COSIG_V1, TYPE_MLDSA44}
        then AList.update (vl_name l)
          (max (case map_of wits (vl_name l) of Some t \<Rightarrow> t | None \<Rightarrow> 0) (case vl_time l of Some t \<Rightarrow> t | None \<Rightarrow> 0)) wits
        else wits)"

definition verify_witnessed ::
  "('x note_crypto_scheme) \<Rightarrow> bytes \<Rightarrow> pystr list \<Rightarrow> pystr list \<Rightarrow> int \<Rightarrow> int option \<Rightarrow> int \<Rightarrow> int \<Rightarrow> pystr option \<Rightarrow> wit_error + witnessed" where
  "verify_witnessed C note log_vkeys wit_vkeys min_witnesses max_age now skew expected =
     (if min_witnesses < 1 then Inl Bad_Argument
      else if skew < 0 then Inl Bad_Argument
      else bindE (log_keys C log_vkeys) (\<lambda>ks.
        if expected = None \<and> length (remdups (map fst ks)) \<noteq> 1 then Inl Ambiguous_Origin
        else
          let orig = (case expected of None \<Rightarrow> fst (hd ks) | Some o' \<Rightarrow> o') in
          case parse_keys C False wit_vkeys of
            Inl e \<Rightarrow> Inl (Note_Error e)
          | Inr wks \<Rightarrow>
              if list_ex (\<lambda>k. key_type k \<in> set LOG_KEY_TYPES) wks then Inl Not_A_Witness_Key
              else
                let usable = map fst (filter (\<lambda>(_, k). key_type k \<in> {TYPE_COSIG_V1, TYPE_MLDSA44}) (zip wit_vkeys wks)) in
                case verify_note C note (log_vkeys @ usable) of
                  Inl e \<Rightarrow> Inl (Note_Error e)
                | Inr v \<Rightarrow>
                    if stato v = NON_VERIFICATA then Inr (witnessed_start\<lparr>ws_state := NON_VERIFICATA\<rparr>)
                    else if stato v \<noteq> OK then Inr witnessed_start
                    else if \<not> signed_by_log ks (verified_lines v) then Inr witnessed_start
                    else (case parse_checkpoint (the (note_text v)) of
                        Inl _ \<Rightarrow> Inr witnessed_start
                      | Inr cp \<Rightarrow>
                          let out = witnessed_start\<lparr>ws_checkpoint := Some cp\<rparr> in
                          if origin cp \<noteq> orig then Inr out
                          else
                            let wits = newest_times (verified_lines v) []; out1 = out\<lparr>ws_witnesses := sort (map fst wits)\<rparr> in
                            if int (length wits) < min_witnesses then Inr out1
                            else (case max_age of
                                None \<Rightarrow> Inr (out1\<lparr>ws_state := OK\<rparr>)
                              | Some age \<Rightarrow>
                                  let future = filter (\<lambda>(_, t). t > now + skew) wits; present = filter (\<lambda>(_, t). \<not> t > now + skew) wits;
                                      fresh = filter (\<lambda>(_, t). now - t \<le> age) present;
                                      out2 = out1\<lparr>ws_future := Some (sort (map fst future)),
                                        ws_age := (if present = [] then None else Some (now - Max (set (map snd present)))),
                                        ws_fresh := Some (sort (map fst fresh))\<rparr> in
                                  if int (length fresh) < min_witnesses then Inr out2 else Inr (out2\<lparr>ws_state := OK\<rparr>)))))"

section \<open>The HTTP request\<close>

datatype body_error = Body_Not_Utf8 | No_Empty_Line | Missing_Checkpoint | Empty_Proof_Line | Bad_First_Line | Too_Many_Lines | Bad_Proof_Hash

text \<open>\<^verbatim>\<open>s.partition(c + c)\<close>.\<close>

fun find_pair :: "nat \<Rightarrow> pystr \<Rightarrow> (pystr \<times> pystr) option" where
  "find_pair c (x # y # s) =
     (if x = c \<and> y = c then Some ([], s) else map_option (\<lambda>(a, b). (x # a, b)) (find_pair c (y # s)))"
| "find_pair c _ = None"

definition parse_add_checkpoint_body :: "bytes \<Rightarrow> body_error + int \<times> pystr list \<times> bytes" where
  "parse_add_checkpoint_body body =
     (case utf8_decode body of
        None \<Rightarrow> Inl Body_Not_Utf8
      | Some s \<Rightarrow>
          (case find_pair 10 s of
             None \<Rightarrow> Inl No_Empty_Line
           | Some (head, note) \<Rightarrow>
               if note = [] then Inl Missing_Checkpoint
               else if hd note = 10 then Inl Empty_Proof_Line
               else
                 let ls = split_on 10 head; first = hd ls; proof = tl ls in
                 if take 4 first \<noteq> lit ''old '' \<or> \<not> size_match (drop 4 first) then Inl Bad_First_Line
                 else if length proof > MAX_PROOF then Inl Too_Many_Lines
                 else if list_ex (\<lambda>p. case b64decode_strict p of Some h \<Rightarrow> length h \<noteq> 32 | None \<Rightarrow> True) proof then Inl Bad_Proof_Hash
                 else Inr (int (digits_val (drop 4 first)), proof, utf8 note)))"

definition format_add_checkpoint_body :: "int \<Rightarrow> pystr list \<Rightarrow> bytes \<Rightarrow> bytes" where
  "format_add_checkpoint_body old_size proof note = utf8 (lit ''old '' @ int_str old_size @ [10] @ ended 10 proof @ [10]) @ note"

text \<open>\<^verbatim>\<open>WitnessService.add_checkpoint\<close>: the status and what the body of the answer carries.\<close>

datatype answer = Sig_Lines bytes | Stored_Size int | Refusal_Text "wit_reason option" | Body_Refused body_error | Unknown_Origin | Witness_Error

definition first_line :: "bytes \<Rightarrow> pystr" where
  "first_line note = (case utf8_decode note of Some s \<Rightarrow> hd (split_on 10 s) | None \<Rightarrow> [])"

definition add_checkpoint ::
  "('x note_crypto_scheme) \<Rightarrow> wit_io \<Rightarrow> wit_key \<Rightarrow> (pystr \<times> pystr list) list \<Rightarrow> bytes \<Rightarrow> int option \<Rightarrow> int \<Rightarrow> int \<Rightarrow> wit_files \<Rightarrow> (int \<times> answer) \<times> wit_files" where
  "add_checkpoint C io wk logs body time now now' fs =
     (case parse_add_checkpoint_body body of
        Inl e \<Rightarrow> ((400, Body_Refused e), fs)
      | Inr (old_size, proof, note) \<Rightarrow>
          (case map_of logs (first_line note) of
             None \<Rightarrow> ((404, Unknown_Origin), fs)
           | Some vks \<Rightarrow>
               (case witness_cosign C io wk \<lparr>rq_note = note, rq_vkeys = vks, rq_proof = proof, rq_time = time, rq_old = Some old_size,
                       rq_origin = Some (first_line note)\<rparr> now now' fs of
                  (Inl e, fs') \<Rightarrow> ((500, Witness_Error), fs')
                | (Inr out, fs') \<Rightarrow>
                    (if wo_status out = 409 then (409, Stored_Size (the (wo_stored out)))
                     else if \<not> wo_cosigned out then (wo_status out, Refusal_Text (wo_reason out))
                     else (200, Sig_Lines (the (wo_line out))), fs'))))"

section \<open>What a request leaves alone\<close>

text \<open>
  Well-formed tables: decimal sizes and no empty inner table among the pending roots, and the bounds: per origin at most
  \<open>RING\<close> pending roots of at most \<open>PENDING_BYTES\<close> octets of notes and \<open>RING\<close> refusals, and \<open>PROOFS_SEEN\<close> pair keys in all.
\<close>

definition pending_wf :: "pending \<Rightarrow> bool" where
  "pending_wf p \<longleftrightarrow> (\<forall>(k, r)\<in>set p. size_match k \<and> r \<noteq> [])"

definition rings_ok :: "wit_state \<Rightarrow> bool" where
  "rings_ok st \<longleftrightarrow> (\<forall>(_, rg)\<in>set (refusals st). length (ring_last rg) \<le> RING) \<and> length (proofs_seen st) \<le> PROOFS_SEEN"

definition tables_ok :: "wit_state \<Rightarrow> bool" where
  "tables_ok st \<longleftrightarrow> (\<forall>(_, p)\<in>set (pendings st). pending_wf p \<and> \<not> over_budget p) \<and> rings_ok st"

text \<open>The part of the files that only a cosignature changes: the entries of the origins and the history.\<close>

definition work_ok :: "(pystr \<times> origin_entry) list \<Rightarrow> cosigned_rec list \<Rightarrow> work \<Rightarrow> bool" where
  "work_ok os hist w \<longleftrightarrow>
     origins (w_state w) = os \<and> origins (wf_state (w_files w)) = os \<and> wf_history (w_files w) = hist \<and>
     tables_ok (w_state w) \<and> tables_ok (wf_state (w_files w))"

definition keeps :: "(work \<Rightarrow> bool) \<Rightarrow> ('b \<Rightarrow> work) \<Rightarrow> (wit_error \<times> work) + 'b \<Rightarrow> bool" where
  "keeps P f r \<longleftrightarrow> (case r of Inl (_, w) \<Rightarrow> P w | Inr x \<Rightarrow> P (f x))"

lemma keeps_bind: "keeps P f m \<Longrightarrow> (\<And>x. m = Inr x \<Longrightarrow> P (f x) \<Longrightarrow> keeps P g (k x)) \<Longrightarrow> keeps P g (bindE m k)"
  by (cases m) (auto simp: keeps_def)

lemma keeps_Inr [simp]: "keeps P f (Inr x) \<longleftrightarrow> P (f x)"
  by (simp add: keeps_def)

lemma keeps_Inl [simp]: "keeps P f (Inl (e, w)) \<longleftrightarrow> P w"
  by (simp add: keeps_def)

lemma work_ok_dirty [simp]: "work_ok os hist (w\<lparr>w_dirty := b\<rparr>) = work_ok os hist w" "work_ok os hist (w\<lparr>w_ev := e\<rparr>) = work_ok os hist w"
  by (simp_all add: work_ok_def)

lemma flush_keeps: "work_ok os hist w \<Longrightarrow> keeps (work_ok os hist) id (flush_state io w)"
  by (auto simp: flush_state_def work_ok_def)

lemma set_update: "set (AList.update k v xs) \<subseteq> insert (k, v) (set xs)"
  by (induction xs) auto

lemma set_delete: "set (AList.delete k xs) \<subseteq> set xs"
  by (auto simp: AList.delete_eq)

lemma pending_wf_update: "pending_wf p \<Longrightarrow> size_match k \<Longrightarrow> r \<noteq> [] \<Longrightarrow> pending_wf (AList.update k r p)"
  using set_update [of k r p] by (auto simp: pending_wf_def)

lemma pending_wf_delete: "pending_wf p \<Longrightarrow> pending_wf (AList.delete k p)"
  using set_delete [of k p] by (auto simp: pending_wf_def)

lemma tables_ok_update: "tables_ok st \<Longrightarrow> pending_wf p \<Longrightarrow> \<not> over_budget p \<Longrightarrow> tables_ok (st\<lparr>pendings := AList.update orig p (pendings st)\<rparr>)"
  using set_update [of orig p "pendings st"] by (fastforce simp: tables_ok_def rings_ok_def)

lemma pending_of_ok: "tables_ok st \<Longrightarrow> pending_wf (pending_of st orig) \<and> \<not> over_budget (pending_of st orig)"
proof (cases "map_of (pendings st) orig")
  case (Some p)
  then have "(orig, p) \<in> set (pendings st)" by (rule map_of_SomeD)
  then show "tables_ok st \<Longrightarrow> ?thesis" using Some by (auto simp: tables_ok_def pending_of_def)
qed (simp add: pending_of_def pending_wf_def over_budget_def)

lemmas pending_of_wf = pending_of_ok [THEN conjunct1]

lemma length_keep_last [simp]: "length (keep_last n xs) \<le> n"
  by (simp add: keep_last_def)

lemma record_proof_keeps: "work_ok os hist w \<Longrightarrow> keeps (work_ok os hist) id (record_proof C io cx note r w)"
  by (auto simp: record_proof_def work_ok_def tables_ok_def rings_ok_def Let_def)

lemma ring_of_bound: "rings_ok st \<Longrightarrow> length (ring_last (ring_of st orig)) \<le> RING"
  using map_of_SomeD [of "refusals st" orig] by (fastforce simp: rings_ok_def ring_of_def split: option.splits)

lemma work_ok_ring:
  assumes "work_ok os hist w" "length (ring_last rg) \<le> RING"
  shows "work_ok os hist (w\<lparr>w_state := (w_state w)\<lparr>refusals := AList.update orig rg (refusals (w_state w))\<rparr>, w_dirty := b\<rparr>)"
  using assms set_update [of orig rg "refusals (w_state w)"] by (fastforce simp: work_ok_def tables_ok_def rings_ok_def)

lemma refused_keeps:
  assumes w: "work_ok os hist w"
  shows "keeps (work_ok os hist) snd (refused C io cx prev kind w)"
proof -
  let ?rg = "ring_of (w_state w) (origin (cx_cp cx))"
  define rg' where "rg' = (if list_ex (\<lambda>e. rf_kind e = kind \<and> rf_size e = tree_size (cx_cp cx) \<and> rf_root e = cx_root cx) (ring_last ?rg) then ?rg
    else \<lparr>ring_count = ring_count ?rg + 1,
      ring_last = keep_last RING (ring_last ?rg @ [\<lparr>rf_kind = kind, rf_size = tree_size (cx_cp cx), rf_root = cx_root cx, rf_when = cx_when cx\<rparr>])\<rparr>)"
  have "length (ring_last rg') \<le> RING" using w ring_of_bound by (auto simp: rg'_def work_ok_def tables_ok_def)
  from work_ok_ring [OF w this] show ?thesis
    unfolding refused_def Let_def rg'_def [symmetric]
    by (auto split: option.splits intro!: keeps_bind [OF record_proof_keeps] keeps_bind [OF flush_keeps])
qed

lemma smallest_size_in: "p \<noteq> [] \<Longrightarrow> smallest_size p \<in> set (map fst p)"
  by (induction p rule: smallest_size.induct) (auto simp: Let_def)

lemma drop_one_wf:
  assumes "pending_wf p" "p \<noteq> []"
  shows "\<exists>q. drop_one p = Some q \<and> pending_wf q"
proof -
  let ?k = "smallest_size p"
  obtain r where r: "map_of p ?k = Some r" using smallest_size_in [OF assms(2)] by (metis map_of_eq_None_iff not_None_eq set_map)
  then have "(?k, r) \<in> set p" by (rule map_of_SomeD)
  then have "size_match ?k" "r \<noteq> []" using assms(1) by (auto simp: pending_wf_def)
  then show ?thesis
    using r assms(1) pending_wf_update [of p ?k] pending_wf_delete [of p ?k] by (cases r) (auto simp: drop_one_def Let_def)
qed

lemma trim_pending_wf: "pending_wf p \<Longrightarrow> \<exists>q b. trim_pending p = Some (q, b) \<and> pending_wf q \<and> \<not> over_budget q"
proof (induction p rule: trim_pending.induct)
  case (1 p)
  show ?case
  proof (cases "over_budget p")
    case True
    then have "p \<noteq> []" by (simp add: over_budget_def)
    with 1 obtain q where q: "drop_one p = Some q" "pending_wf q" using drop_one_wf by blast
    with 1 True obtain r b where "trim_pending q = Some (r, b)" "pending_wf r" "\<not> over_budget r" by blast
    then show ?thesis using True q(1) by (subst trim_pending.simps) auto
  next
    case False
    then show ?thesis using 1 by (subst trim_pending.simps) auto
  qed
qed

definition ctx_ok :: "ctx \<Rightarrow> bool" where
  "ctx_ok cx \<longleftrightarrow> checkpoint_valid (cx_cp cx) \<and> cx_root cx = b64encode (root (cx_cp cx))"

lemma size_key_match: "checkpoint_valid cp \<Longrightarrow> size_match (size_key (tree_size cp))"
proof -
  assume v: "checkpoint_valid cp"
  then have "nat (tree_size cp) < 2 ^ 64" by (simp add: checkpoint_valid_def nat_less_iff)
  from size_match_nat_str [OF this] show ?thesis using v by (simp add: size_key_def int_str_def checkpoint_valid_def)
qed

lemma update_nonempty: "AList.update k v xs \<noteq> []"
  by (cases xs) auto

lemma keep_root_wf:
  assumes "pending_wf p" "ctx_ok cx"
  shows "\<exists>q b. keep_root cx p = Some (q, b) \<and> pending_wf q \<and> \<not> over_budget q"
proof -
  define n where "n = tree_size (cx_cp cx)"
  define pend where "pend = roots_at p n"
  define small where "small = (if length (utf8 (cx_shown cx)) \<le> PENDING_NOTE then Some (cx_shown cx) else None)"
  define news where "news = (case map_of pend (cx_root cx) of None \<Rightarrow> True | Some None \<Rightarrow> small \<noteq> None | Some (Some _) \<Rightarrow> False)"
  define pend' where "pend' = (if news then AList.update (cx_root cx) small pend else pend)"
  have "pend' \<noteq> []" using update_nonempty by (cases pend) (auto simp: pend'_def news_def)
  moreover have "size_match (size_key n)" using assms(2) size_key_match by (simp add: ctx_ok_def n_def)
  ultimately obtain q b where "trim_pending (AList.update (size_key n) pend' p) = Some (q, b)" "pending_wf q" "\<not> over_budget q"
    using trim_pending_wf pending_wf_update [OF assms(1)] by blast
  then show ?thesis
    unfolding keep_root_def Let_def n_def [symmetric] pend_def [symmetric] small_def [symmetric] news_def [symmetric] pend'_def [symmetric] by auto
qed

lemma note_future_keeps:
  assumes "work_ok os hist w" "ctx_ok cx"
  shows "keeps (work_ok os hist) id (note_future C io cx w)"
proof -
  obtain q b where q: "keep_root cx (pending_of (w_state w) (origin (cx_cp cx))) = Some (q, b)" "pending_wf q" "\<not> over_budget q"
    using keep_root_wf [OF _ assms(2)] pending_of_wf assms(1) by (metis work_ok_def)
  show ?thesis
    unfolding note_future_def Let_def q(1) option.case prod.case
  proof (rule keeps_bind)
    show "keeps (work_ok os hist) id (case partner_of cx (roots_at (pending_of (w_state w) (origin (cx_cp cx))) (tree_size (cx_cp cx))) of
        None \<Rightarrow> Inr w | Some (r, note) \<Rightarrow> bindE (record_proof C io cx note r w) (\<lambda>w1. Inr (w1\<lparr>w_ev := Some (pair_ev cx note r)\<rparr>)))"
      using assms(1) by (auto split: option.splits intro!: keeps_bind [OF record_proof_keeps])
  next
    fix w2 assume "work_ok os hist (id w2)"
    then show "keeps (work_ok os hist) id (Inr (w2\<lparr>w_state := (w_state w2)\<lparr>pendings := AList.update (origin (cx_cp cx)) q (pendings (w_state w2))\<rparr>,
        w_dirty := w_dirty w2 \<or> b\<rparr>))"
      using tables_ok_update [OF _ q(2,3)] by (simp add: work_ok_def)
  qed
qed

lemma look_first_keeps:
  assumes w: "work_ok os hist w" and cx: "ctx_ok cx"
  shows "keeps (work_ok os hist) id (look_first C io cx w)"
proof -
  have older: "keeps (work_ok os hist) id (bindE (refused C io cx prev Rollback w) (\<lambda>(ev, w1). Inr (w1\<lparr>w_ev := Some ev\<rparr>)))" for prev
    by (rule keeps_bind [OF refused_keeps [OF w]]) auto
  have split: "keeps (work_ok os hist) id (bindE (record_proof C io cx nt r w) (\<lambda>w1. flush_state io (w1\<lparr>w_ev := ev\<rparr>)))" for nt r ev
    by (rule keeps_bind [OF record_proof_keeps [OF w]]) (simp add: flush_keeps)
  have future: "keeps (work_ok os hist) id (note_future C io cx w)"
    by (rule note_future_keeps [OF w cx])
  show ?thesis
    unfolding look_first_def Let_def
    using w older split future by (cases "cx_prev cx") simp_all
qed

lemma rules_keeps:
  assumes w: "work_ok os hist w"
  shows "keeps (work_ok os hist) snd (rules C io cx old_size proof w)"
proof -
  have stop: "keeps (work_ok os hist) snd (bindE (flush_state io w) (\<lambda>w1. Inr (x, w1)))" for x :: "(wit_reason \<times> int) option"
    by (rule keeps_bind [OF flush_keeps [OF w]]) auto
  have unproven: "keeps (work_ok os hist) snd (bindE (refused C io cx prev Unproven_Extension w) (\<lambda>(ev, w1). Inr (x, w1\<lparr>w_ev := Some ev\<rparr>)))"
    for prev and x :: "(wit_reason \<times> int) option"
    by (rule keeps_bind [OF refused_keeps [OF w]]) auto
  show ?thesis
    unfolding rules_def Let_def
    using w stop unproven by (cases "cx_prev cx") simp_all
qed

lemma budget_delete: "\<not> over_budget p \<Longrightarrow> \<not> over_budget (AList.delete k p)"
proof -
  have "sum_list (map f (AList.delete k p)) \<le> sum_list (map f p)" for f :: "pystr \<times> roots \<Rightarrow> nat"
    by (induction p) (auto simp: AList.delete_eq)
  from this [of "\<lambda>(_, r). length r"] this [of "\<lambda>(_, r). sum_list (map (\<lambda>(_, n). case n of Some t \<Rightarrow> length (utf8 t) | None \<Rightarrow> 0) r)"]
  show "\<not> over_budget p \<Longrightarrow> ?thesis" unfolding over_budget_def pending_count_def pending_bytes_def by fastforce
qed

lemma settle_keeps:
  assumes "work_ok os hist w"
  shows "keeps (work_ok os hist) id (settle_pending C io cx w)"
proof -
  let ?p = "AList.delete (size_key (tree_size (cx_cp cx))) (pending_of (w_state w) (origin (cx_cp cx)))"
  have p: "pending_wf ?p" "\<not> over_budget ?p"
    using assms pending_of_ok pending_wf_delete budget_delete by (auto simp: work_ok_def)
  have upd: "work_ok os hist (w1\<lparr>w_state := (w_state w1)\<lparr>pendings := AList.update (origin (cx_cp cx)) ?p (pendings (w_state w1))\<rparr>\<rparr>)"
    if "work_ok os hist w1" for w1
    using that tables_ok_update [OF _ p] by (simp add: work_ok_def)
  show ?thesis
    unfolding settle_pending_def Let_def
    by (rule keeps_bind [where f = id])
      (use assms upd in \<open>auto split: option.splits intro: record_proof_keeps\<close>)
qed

end
