(* ===== verification/Witness_Safety.thy ===== *)
theory Witness_Safety
  imports Witness
begin

text \<open>
  What the state file of a witness says after any sequence of requests: the entry of an origin is the last head it
  cosigned, each new head was accepted with a proof from the one before, and so every head it ever cosigned is the
  hash of a prefix of the leaves of every later one.
\<close>

section \<open>One request\<close>

definition decoded_root :: "pystr \<Rightarrow> bytes" where
  "decoded_root s = (case b64decode s of Some r \<Rightarrow> r | None \<Rightarrow> [])"

definition entry_head :: "origin_entry \<Rightarrow> head" where
  "entry_head e = (oe_size e, decoded_root (oe_root e))"

definition cp_head :: "checkpoint \<Rightarrow> head" where
  "cp_head cp = (tree_size cp, root cp)"

definition proof_hashes :: "pystr list \<Rightarrow> bytes list" where
  "proof_hashes p = (case decode_proof p of Some hs \<Rightarrow> hs | None \<Rightarrow> [])"

definition state_wf :: "wit_state \<Rightarrow> bool" where
  "state_wf st \<longleftrightarrow> tables_ok st \<and> (\<forall>(_, e)\<in>set (origins st). entry_ok e)"

lemma state_wf_loads: "state_wf st \<Longrightarrow> load_state st = Inr st"
  by (auto simp: state_wf_def tables_ok_def pending_wf_def load_state_def list_all_iff split: prod.splits)

lemma tables_ok_origins [simp]: "tables_ok (st\<lparr>origins := os\<rparr>) = tables_ok st"
  by (simp add: tables_ok_def rings_ok_def)

lemma b64_strict_encode: "b64decode_strict (b64encode r) = Some r" "b64decode (b64encode r) = Some r"
  using b64_quanta_encode by (simp_all add: b64decode_strict_def b64.dec_enc)

lemma decoded_encode [simp]: "decoded_root (b64encode r) = r"
  by (simp add: decoded_root_def b64_strict_encode)

lemma entry_ok_head: "entry_ok e \<Longrightarrow> length (snd (entry_head e)) = 32 \<and> 0 \<le> fst (entry_head e)"
  by (auto simp: entry_ok_def entry_head_def decoded_root_def b64decode_strict_def split: option.splits if_splits)

lemma rules_advance:
  assumes "rules C io cx old proof w = Inr (None, w2)"
  shows "w2 = w"
    and "cx_prev cx = Some prev \<Longrightarrow> entry_ok prev \<Longrightarrow> ctx_ok cx \<Longrightarrow> merkle_step (sha256 C) (entry_head prev) (cp_head (cx_cp cx)) (proof_hashes proof)"
proof -
  have stop: "bindE (flush_state io w) (\<lambda>w1. Inr (Some x, w1)) \<noteq> Inr (None, w2)" for x :: "wit_reason \<times> int"
    by (cases "flush_state io w") auto
  have unproven: "bindE (refused C io cx prev k w) (\<lambda>(ev, w1). Inr (Some x, f ev w1)) \<noteq> Inr (None, w2)" for prev k f and x :: "wit_reason \<times> int"
    by (cases "refused C io cx prev k w") auto
  show "w2 = w"
    using assms stop unproven by (simp add: rules_def Let_def split: if_splits option.splits)
  assume prev: "cx_prev cx = Some prev" "entry_ok prev" and cx: "ctx_ok cx"
  have n: "0 \<le> tree_size (cx_cp cx)" using cx by (simp add: ctx_ok_def checkpoint_valid_def)
  have r: "\<not> (tree_size (cx_cp cx) < oe_size prev)"
    "tree_size (cx_cp cx) = oe_size prev \<Longrightarrow> root (cx_cp cx) = decoded_root (oe_root prev)"
    "oe_size prev = 0 \<or> tree_size (cx_cp cx) = oe_size prev \<Longrightarrow> proof = []"
    "\<not> (oe_size prev = 0 \<or> tree_size (cx_cp cx) = oe_size prev) \<Longrightarrow>
      verify_consistency_b64 C (oe_size prev) (decoded_root (oe_root prev)) (tree_size (cx_cp cx)) (root (cx_cp cx)) proof"
    using assms stop unproven prev(1) by (simp_all add: rules_def Let_def decoded_root_def split: if_splits)
  show "merkle_step (sha256 C) (entry_head prev) (cp_head (cx_cp cx)) (proof_hashes proof)"
  proof (cases "oe_size prev = 0 \<or> tree_size (cx_cp cx) = oe_size prev")
    case True
    then show ?thesis
      using r(1-3) n entry_ok_head [OF prev(2)]
      by (auto simp: merkle_step_def entry_head_def cp_head_def proof_hashes_def verify_consistency_def)
  next
    case False
    from r(4) [OF this] False show ?thesis
      using r(1) entry_ok_head [OF prev(2)]
      by (auto simp: merkle_step_def entry_head_def cp_head_def proof_hashes_def verify_consistency_b64_def list_ex_iff split: option.splits if_splits)
  qed
qed

text \<open>The files after a request that did not cosign, and after one that did.\<close>

definition files_kept :: "(pystr \<times> origin_entry) list \<Rightarrow> cosigned_rec list \<Rightarrow> wit_files \<Rightarrow> bool" where
  "files_kept os hist fs \<longleftrightarrow> origins (wf_state fs) = os \<and> tables_ok (wf_state fs) \<and> set hist \<subseteq> set (wf_history fs)"

definition in_history :: "cosigned_rec list \<Rightarrow> pystr \<Rightarrow> origin_entry \<Rightarrow> bool" where
  "in_history hist orig e \<longleftrightarrow> list_ex (\<lambda>r. cr_origin r = orig \<and> cr_size r = oe_size e \<and> cr_root r = oe_root e) hist"

definition files_advanced :: "(pystr \<times> origin_entry) list \<Rightarrow> cosigned_rec list \<Rightarrow> checkpoint \<Rightarrow> wit_files \<Rightarrow> bool" where
  "files_advanced os hist cp fs \<longleftrightarrow>
     (\<exists>e. origins (wf_state fs) = AList.update (origin cp) e os \<and> oe_size e = tree_size cp \<and> oe_root e = b64encode (root cp) \<and>
       ((\<forall>p. map_of os (origin cp) = Some p \<longrightarrow> in_history hist (origin cp) p) \<longrightarrow> in_history (wf_history fs) (origin cp) e)) \<and>
     tables_ok (wf_state fs) \<and> set hist \<subseteq> set (wf_history fs)"

lemma work_ok_kept: "work_ok os hist w \<Longrightarrow> files_kept os hist (w_files w)"
  by (simp add: work_ok_def files_kept_def)

lemma in_history_mono: "in_history hist orig e \<Longrightarrow> set hist \<subseteq> set hist' \<Longrightarrow> in_history hist' orig e"
  by (auto simp: in_history_def list_ex_iff)

lemma sign_and_save_files:
  assumes w: "work_ok os hist w" and cx: "cx_prev cx = map_of os (origin (cx_cp cx))" "cx_root cx = b64encode (root (cx_cp cx))"
  shows "case sign_and_save C io cx wk kept ts w of
      Inl (_, w') \<Rightarrow> files_kept os hist (w_files w')
    | Inr (_, _, w') \<Rightarrow> files_advanced os hist (cx_cp cx) (w_files w')"
proof -
  have lift: "files_kept os hist (w_files w)" by (rule work_ok_kept [OF w])
  have "in_history hist (origin (cx_cp cx)) p \<Longrightarrow> oe_root p = oe_root e \<Longrightarrow> oe_size p = oe_size e \<Longrightarrow> in_history hist (origin (cx_cp cx)) e" for p e
    by (simp add: in_history_def)
  then show ?thesis
    using w cx lift
    by (auto simp: sign_and_save_def lift_note_def Let_def work_ok_def files_kept_def files_advanced_def in_history_def
        split: sum.splits option.splits if_splits)
qed

lemma decide_outcome:
  assumes w: "work_ok os hist w" and cx: "ctx_ok cx" "cx_prev cx = map_of os (origin (cx_cp cx))"
    and os: "\<forall>(_, e)\<in>set os. entry_ok e"
  shows "case decide C io cx wk kept pf old ts w of
      Inl (_, w') \<Rightarrow> files_kept os hist (w_files w')
    | Inr (out, w') \<Rightarrow>
        if wo_cosigned out then files_advanced os hist (cx_cp cx) (w_files w') \<and>
          (\<forall>p. map_of os (origin (cx_cp cx)) = Some p \<longrightarrow> merkle_step (sha256 C) (entry_head p) (cp_head (cx_cp cx)) (proof_hashes pf))
        else files_kept os hist (w_files w')"
proof (cases "look_first C io cx w")
  case (Inl x)
  then show ?thesis using look_first_keeps [OF w cx(1), of C io] work_ok_kept by (cases x) (auto simp: decide_def)
next
  case (Inr w1)
  then have w1: "work_ok os hist w1" using look_first_keeps [OF w cx(1), of C io] by simp
  show ?thesis
  proof (cases "rules C io cx old pf w1")
    case rules: (Inl x)
    then show ?thesis using Inr rules_keeps [OF w1, of C io cx old pf] work_ok_kept by (cases x) (auto simp: decide_def)
  next
    case rules: (Inr x)
    obtain v w2 where x: "x = (v, w2)" by (cases x)
    then have w2: "work_ok os hist w2" using rules rules_keeps [OF w1, of C io cx old pf] by simp
    show ?thesis
    proof (cases v)
      case (Some r)
      then show ?thesis using Inr rules x work_ok_kept [OF w2] by (cases r) (simp add: decide_def out_fields_def refusal_out_def)
    next
      case None
      have step: "merkle_step (sha256 C) (entry_head p) (cp_head (cx_cp cx)) (proof_hashes pf)" if "map_of os (origin (cx_cp cx)) = Some p" for p
      proof -
        have "entry_ok p" using os map_of_SomeD [OF that] by auto
        then show ?thesis using rules_advance(2) [OF rules [unfolded x None], of p] cx that by simp
      qed
      show ?thesis
      proof (cases "settle_pending C io cx w2")
        case settle: (Inl y)
        then show ?thesis using Inr rules x None settle_keeps [OF w2, of C io cx] work_ok_kept by (cases y) (auto simp: decide_def)
      next
        case settle: (Inr w3)
        then have w3: "work_ok os hist w3" using settle_keeps [OF w2, of C io cx] by simp
        have "cx_root cx = b64encode (root (cx_cp cx))" using cx(1) by (simp add: ctx_ok_def)
        from sign_and_save_files [OF w3 cx(2) this, of C io wk kept ts] show ?thesis
          using Inr rules x None settle step
          by (cases "sign_and_save C io cx wk kept ts w3") (auto simp: decide_def out_fields_def cosigned_out_def)
      qed
    qed
  qed
qed

text \<open>The outcome of a request, read off its answer.\<close>

definition cosigned :: "wit_error + wit_out \<Rightarrow> bool" where
  "cosigned res \<longleftrightarrow> (case res of Inr out \<Rightarrow> wo_cosigned out | Inl _ \<Rightarrow> False)"

lemma cosigned_simps [simp]: "\<not> cosigned (Inl e)" "cosigned (Inr out) = wo_cosigned out"
  by (simp_all add: cosigned_def)

definition outcome :: "('x note_crypto_scheme) \<Rightarrow> checkpoint \<Rightarrow> pystr list \<Rightarrow> wit_files \<Rightarrow> (wit_error + wit_out) \<Rightarrow> wit_files \<Rightarrow> bool" where
  "outcome C cp proof fs res fs' \<longleftrightarrow>
     (let os = origins (wf_state fs); hist = wf_history fs in
      if cosigned res
      then files_advanced os hist cp fs' \<and>
        (\<forall>p. map_of os (origin cp) = Some p \<longrightarrow> merkle_step (sha256 C) (entry_head p) (cp_head cp) (proof_hashes proof))
      else files_kept os hist fs')"

lemma outcome_same: "state_wf (wf_state fs) \<Longrightarrow> \<not> cosigned res \<Longrightarrow> outcome C cp proof fs res fs"
  by (simp add: outcome_def files_kept_def state_wf_def Let_def)

lemma cosign_locked_outcome:
  assumes wf: "state_wf (wf_state fs)" and cp: "checkpoint_valid cp"
    and run: "cosign_locked C io wk cp txt tls kept pf time old now now' fs = (res, fs')"
  shows "outcome C cp pf fs res fs'"
proof -
  let ?os = "origins (wf_state fs)"
  define cx where "cx = \<lparr>cx_cp = cp, cx_root = b64encode (root cp), cx_text = txt, cx_shown = txt @ [10] @ concat tls,
    cx_when = (case time of Some t \<Rightarrow> t | None \<Rightarrow> now), cx_prev = map_of ?os (origin cp),
    cx_stored = (case map_of ?os (origin cp) of Some p \<Rightarrow> oe_size p | None \<Rightarrow> 0)\<rparr>"
  define w where "w = \<lparr>w_state = wf_state fs, w_dirty = False, w_ev = None, w_files = fs\<rparr>"
  have w: "work_ok ?os (wf_history fs) w" and os: "\<forall>(_, e)\<in>set ?os. entry_ok e" using wf by (simp_all add: work_ok_def w_def state_wf_def)
  have cx: "ctx_ok cx" "cx_prev cx = map_of ?os (origin (cx_cp cx))" "cx_cp cx = cp" using cp by (simp_all add: ctx_ok_def cx_def)
  have "res = Inl Stale_Time \<and> fs' = fs \<or> res = Inl Bad_Time \<and> fs' = fs \<or>
      (\<exists>ts. (case decide C io cx wk kept pf old ts w of Inl (e, w') \<Rightarrow> (Inl e, w_files w') | Inr (out, w') \<Rightarrow> (Inr out, w_files w')) = (res, fs'))"
    using run unfolding cosign_locked_def state_wf_loads [OF wf] sum.case Let_def w_def [symmetric] cx_def [symmetric]
    by (auto split: if_splits)
  then show ?thesis
  proof (elim disjE exE)
    fix ts assume r: "(case decide C io cx wk kept pf old ts w of Inl (e, w') \<Rightarrow> (Inl e, w_files w') | Inr (out, w') \<Rightarrow> (Inr out, w_files w')) = (res, fs')"
    show ?thesis
      using r decide_outcome [OF w cx(1,2) os, where C = C and io = io and wk = wk and kept = kept and pf = pf and old = old and ts = ts] cx(3)
      by (cases "decide C io cx wk kept pf old ts w") (auto simp: outcome_def Let_def split: if_splits)
  qed (simp_all add: outcome_same [OF wf])
qed

text \<open>The checkpoint a request is about: the one its note carries, when it carries one.\<close>

definition request_checkpoint :: "wit_req \<Rightarrow> checkpoint option" where
  "request_checkpoint req =
     (case split_note (rq_note req) of
        Inl _ \<Rightarrow> None
      | Inr (t, _) \<Rightarrow> (case parse_checkpoint t of Inl _ \<Rightarrow> None | Inr cp \<Rightarrow> Some cp))"

lemma verify_note_text:
  assumes "verify_note C nt vkeys = Inr v" "stato v = OK" "split_note nt = Inr (t, sigs)"
  shows "note_text v = Some t"
proof (cases "known_keys C vkeys [] 0")
  case (Inr k)
  obtain known ign where k: "k = (known, ign)" by (cases k)
  show ?thesis
    using assms Inr k unfolding verify_note_def
    by (cases "note_loop C known t [] sigs 0 0 []") (auto split: if_splits prod.splits)
qed (use assms in \<open>simp add: verify_note_def\<close>)

lemma witness_cosign_outcome:
  assumes wf: "state_wf (wf_state fs)" and run: "witness_cosign C io wk req now now' fs = (res, fs')"
  shows "case request_checkpoint req of
      Some cp \<Rightarrow> checkpoint_valid cp \<and> outcome C cp (rq_proof req) fs res fs'
    | None \<Rightarrow> \<not> cosigned res \<and> fs' = fs"
proof -
  have still: "case request_checkpoint req of
      Some cp \<Rightarrow> checkpoint_valid cp \<and> outcome C cp (rq_proof req) fs res fs' | None \<Rightarrow> \<not> cosigned res \<and> fs' = fs"
    if "\<not> cosigned res" "fs' = fs"
    using that outcome_same [OF wf] parse_checkpoint_sound by (auto simp: request_checkpoint_def split: sum.splits option.splits)
  show ?thesis
  proof (cases "cosigned res \<or> fs' \<noteq> fs")
    case True
    have early: "(Inl e, fs) \<noteq> (res, fs')" "(Inr ((refusal_out r s)\<lparr>wo_origin := u, wo_size := x\<rparr>), fs) \<noteq> (res, fs')" "(Inr (refusal_out r s), fs) \<noteq> (res, fs')" for e r s u x
      using True by (auto simp: refusal_out_def)
    obtain t sigs where sn: "split_note (rq_note req) = Inr (t, sigs)"
      using run early by (cases "split_note (rq_note req)") (auto simp: witness_cosign_def)
    obtain ks v where v: "log_keys C (rq_vkeys req) = Inr ks" "verify_note C (rq_note req) (rq_vkeys req) = Inr v"
      using run early sn by (auto simp: witness_cosign_def split: sum.splits)
    have ok: "stato v = OK" using run early sn v by (auto simp: witness_cosign_def split: if_splits)
    have t: "the (note_text v) = t" using verify_note_text [OF v(2) ok sn] by simp
    obtain cp where cp: "parse_checkpoint t = Inr cp"
      using run early sn v ok t by (auto simp: witness_cosign_def Let_def split: sum.splits if_splits)
    have "\<exists>tls kept. cosign_locked C io wk cp t tls kept (rq_proof req) (rq_time req) (rq_old req) now now' fs = (res, fs')"
      using run True unfolding witness_cosign_def sn v ok t cp Let_def sum.case prod.case
      by (auto simp: refusal_out_def split: if_splits)
    then show ?thesis
      using cosign_locked_outcome [OF wf] parse_checkpoint_sound [OF cp] sn cp by (auto simp: request_checkpoint_def)
  qed (use still in auto)
qed

section \<open>Runs\<close>

text \<open>A run of a witness from an empty directory: the checkpoints it cosigned, with the proofs they came with, and its files.\<close>

inductive wit_run :: "('x note_crypto_scheme) \<Rightarrow> wit_key \<Rightarrow> (checkpoint \<times> pystr list) list \<Rightarrow> wit_files \<Rightarrow> bool" for C wk where
  start: "wit_run C wk [] \<lparr>wf_state = empty_state, wf_evidence = [], wf_history = []\<rparr>"
| request: "wit_run C wk cps fs \<Longrightarrow> witness_cosign C io wk req now now' fs = (res, fs') \<Longrightarrow>
    wit_run C wk (if cosigned res then cps @ [(the (request_checkpoint req), rq_proof req)] else cps) fs'"

inductive_cases wit_runE: "wit_run C wk cps fs"

text \<open>The heads cosigned for one origin.\<close>

definition views :: "pystr \<Rightarrow> (checkpoint \<times> pystr list) list \<Rightarrow> (head \<times> bytes list) list" where
  "views orig cps = map (\<lambda>(cp, p). (cp_head cp, proof_hashes p)) (filter (\<lambda>(cp, _). origin cp = orig) cps)"

lemma views_simps [simp]:
  "views orig [] = []" "views orig (xs @ ys) = views orig xs @ views orig ys"
  "views orig ((cp, p) # xs) = (if origin cp = orig then (cp_head cp, proof_hashes p) # views orig xs else views orig xs)"
  by (simp_all add: views_def)

definition last_head :: "pystr \<Rightarrow> (checkpoint \<times> pystr list) list \<Rightarrow> head option" where
  "last_head orig cps = (if views orig cps = [] then None else Some (fst (last (views orig cps))))"

lemma last_head_snoc: "last_head orig (cps @ [(cp, p)]) = (if origin cp = orig then Some (cp_head cp) else last_head orig cps)"
  by (simp add: last_head_def)

fun view_chain :: "hashf \<Rightarrow> (head \<times> bytes list) list \<Rightarrow> bool" where
  "view_chain H [] = True"
| "view_chain H (v # vs) = follows (merkle_step H) (fst v) vs"

lemma view_chain_snoc: "view_chain H (vs @ [(h, p)]) \<longleftrightarrow> view_chain H vs \<and> (vs = [] \<or> merkle_step H (fst (last vs)) h p)"
  by (cases vs) (auto simp: follows_snoc last_map)

definition run_inv :: "('x note_crypto_scheme) \<Rightarrow> (checkpoint \<times> pystr list) list \<Rightarrow> wit_files \<Rightarrow> bool" where
  "run_inv C cps fs \<longleftrightarrow>
     state_wf (wf_state fs) \<and>
     (\<forall>orig. map_option entry_head (map_of (origins (wf_state fs)) orig) = last_head orig cps) \<and>
     (\<forall>orig e. map_of (origins (wf_state fs)) orig = Some e \<longrightarrow> in_history (wf_history fs) orig e) \<and>
     (\<forall>orig. view_chain (sha256 C) (views orig cps)) \<and>
     (\<forall>(cp, p)\<in>set cps. checkpoint_valid cp)"

lemma run_inv_advance:
  assumes inv: "run_inv C cps fs" and adv: "files_advanced (origins (wf_state fs)) (wf_history fs) cp fs'" and cp: "checkpoint_valid cp"
    and step: "\<And>q. map_of (origins (wf_state fs)) (origin cp) = Some q \<Longrightarrow> merkle_step (sha256 C) (entry_head q) (cp_head cp) (proof_hashes p)"
  shows "run_inv C (cps @ [(cp, p)]) fs'"
proof -
  let ?os = "origins (wf_state fs)"
  obtain e where e: "origins (wf_state fs') = AList.update (origin cp) e ?os" "oe_size e = tree_size cp" "oe_root e = b64encode (root cp)"
      "(\<forall>q. map_of ?os (origin cp) = Some q \<longrightarrow> in_history (wf_history fs) (origin cp) q) \<longrightarrow> in_history (wf_history fs') (origin cp) e"
    and pend: "tables_ok (wf_state fs')" and hist: "set (wf_history fs) \<subseteq> set (wf_history fs')"
    using adv by (auto simp: files_advanced_def)
  have head: "entry_head e = cp_head cp" using e by (simp add: entry_head_def cp_head_def)
  have map: "map_of (origins (wf_state fs')) orig = (if orig = origin cp then Some e else map_of ?os orig)" for orig
    using e(1) by (simp add: update_conv')
  have "entry_ok e" using e cp by (simp add: entry_ok_def b64_strict_encode checkpoint_valid_def)
  then have wf: "state_wf (wf_state fs')" using inv pend set_update [of "origin cp" e ?os] e(1) by (fastforce simp: run_inv_def state_wf_def)
  have "view_chain (sha256 C) (views orig (cps @ [(cp, p)]))" for orig
  proof (cases "origin cp = orig \<and> views orig cps \<noteq> []")
    case True
    then have "map_option entry_head (map_of ?os (origin cp)) = Some (fst (last (views orig cps)))"
      using inv by (auto simp: run_inv_def last_head_def)
    then obtain q where "map_of ?os (origin cp) = Some q" "entry_head q = fst (last (views orig cps))" by auto
    then show ?thesis using True inv step by (fastforce simp: run_inv_def view_chain_snoc)
  next
    case False
    then show ?thesis using inv by (auto simp: run_inv_def view_chain_snoc)
  qed
  moreover have "in_history (wf_history fs') orig x" if "map_of (origins (wf_state fs')) orig = Some x" for orig x
    using that e(4) inv in_history_mono [OF _ hist] by (auto simp: map run_inv_def split: if_splits)
  ultimately show ?thesis using wf map head inv cp by (auto simp: run_inv_def last_head_snoc)
qed

lemma wit_run_inv: "wit_run C wk cps fs \<Longrightarrow> run_inv C cps fs"
proof (induction rule: wit_run.induct)
  case start
  show ?case by (simp add: run_inv_def state_wf_def tables_ok_def rings_ok_def empty_state_def last_head_def)
next
  case (request cps fs io req now now' res fs')
  have wf: "state_wf (wf_state fs)" using request.IH by (simp add: run_inv_def)
  note o = witness_cosign_outcome [OF wf request.hyps(2)]
  show ?case
  proof (cases "cosigned res")
    case True
    then obtain cp where cp: "request_checkpoint req = Some cp" using o by (auto split: option.splits)
    then have a: "files_advanced (origins (wf_state fs)) (wf_history fs) cp fs'" "checkpoint_valid cp"
      "\<And>p. map_of (origins (wf_state fs)) (origin cp) = Some p \<Longrightarrow> merkle_step (sha256 C) (entry_head p) (cp_head cp) (proof_hashes (rq_proof req))"
      using o True by (auto simp: outcome_def Let_def)
    have "run_inv C (cps @ [(cp, rq_proof req)]) fs'"
      by (rule run_inv_advance [OF request.IH a])
    then show ?thesis using True cp by simp
  next
    case False
    have "files_kept (origins (wf_state fs)) (wf_history fs) fs'"
      using o False wf by (auto simp: outcome_def Let_def files_kept_def state_wf_def split: option.splits)
    then show ?thesis using False request.IH in_history_mono by (simp add: run_inv_def files_kept_def state_wf_def) blast
  qed
qed

section \<open>What a run shows\<close>

lemma view_chain_append: "view_chain H (xs @ ys) \<Longrightarrow> view_chain H ys"
proof (cases xs)
  case (Cons x xs')
  assume "view_chain H (xs @ ys)"
  then show ?thesis using Cons by (cases ys) (auto simp: follows_append)
qed simp

lemma history_inputs_append:
  "history_inputs f h (xs @ ys) = history_inputs f h xs \<union> history_inputs f (last (h # map fst xs)) ys"
  by (induction xs arbitrary: h) auto

text \<open>What the accepted proofs of an origin made the witness hash.\<close>

fun run_inputs :: "hashf \<Rightarrow> (head \<times> bytes list) list \<Rightarrow> bytes set" where
  "run_inputs H [] = {}"
| "run_inputs H (v # vs) = history_inputs (merkle_inputs H) (fst v) vs"

lemma run_inputs_append: "run_inputs H ys \<subseteq> run_inputs H (xs @ ys)" "run_inputs H xs \<subseteq> run_inputs H (xs @ ys)"
proof -
  show "run_inputs H ys \<subseteq> run_inputs H (xs @ ys)"
  proof (cases xs)
    case (Cons x xs')
    then show ?thesis by (cases ys) (auto simp: history_inputs_append)
  qed simp
  show "run_inputs H xs \<subseteq> run_inputs H (xs @ ys)" by (cases xs) (auto simp: history_inputs_append)
qed

lemma view_chain_prefix: "view_chain H (xs @ ys) \<Longrightarrow> view_chain H xs"
  by (cases xs) (auto simp: follows_append)

lemma view_chain_extract:
  assumes "\<forall>x. length (H x) = 32" "view_chain H (v # vs @ [v'])" "0 < fst (fst v)" "fst v' = (int (length D), mth H D)"
  shows "fst (fst v) \<le> int (length D) \<and>
    (snd (fst v) = mth H (take (nat (fst (fst v))) D) \<or> collision H (prefix_inputs H D \<union> run_inputs H (v # vs @ [v'])))"
proof -
  obtain m r p where v: "v = ((m, r), p)" by (metis prod.collapse)
  have f: "follows (merkle_step H) (m, r) (vs @ [v'])" "last ((m, r) # map fst (vs @ [v'])) = (int (length D), mth H D)"
    using assms v by auto
  show ?thesis using merkle.follows_extract [OF assms(1) f(1) _ f(2)] merkle.follows_grows [OF f(1)] f(2) assms(3) v by auto
qed

lemma append_only_heads:
  assumes run: "wit_run C wk (xs @ (cp, p) # ys @ (cp', p') # zs) fs" and hash32: "\<forall>x. length (sha256 C x) = 32"
    and cp: "origin cp' = origin cp" "0 < tree_size cp" and D: "cp_head cp' = (int (length D), mth (sha256 C) D)"
  shows "tree_size cp \<le> int (length D) \<and>
    (root cp = mth (sha256 C) (take (nat (tree_size cp)) D) \<or>
     collision (sha256 C) (prefix_inputs (sha256 C) D \<union> run_inputs (sha256 C) (views (origin cp) (xs @ (cp, p) # ys @ (cp', p') # zs))))"
proof -
  let ?o = "origin cp" and ?all = "xs @ (cp, p) # ys @ (cp', p') # zs"
  let ?v = "(cp_head cp, proof_hashes p)" and ?v' = "(cp_head cp', proof_hashes p')"
  have all: "views ?o ?all = views ?o xs @ (?v # views ?o ys @ [?v']) @ views ?o zs" using cp by simp
  have "view_chain (sha256 C) (views ?o ?all)" using wit_run_inv [OF run] unfolding run_inv_def by blast
  then have "view_chain (sha256 C) (?v # views ?o ys @ [?v'])" unfolding all using view_chain_append view_chain_prefix by blast
  from view_chain_extract [OF hash32 this, of D]
  have "tree_size cp \<le> int (length D) \<and> (root cp = mth (sha256 C) (take (nat (tree_size cp)) D) \<or>
      collision (sha256 C) (prefix_inputs (sha256 C) D \<union> run_inputs (sha256 C) (?v # views ?o ys @ [?v'])))"
    using cp(2) D by (simp add: cp_head_def)
  moreover have "run_inputs (sha256 C) (?v # views ?o ys @ [?v']) \<subseteq> run_inputs (sha256 C) (views ?o ?all)"
    unfolding all using run_inputs_append by (meson subset_trans)
  ultimately show ?thesis by (meson Un_mono collision_mono order_refl)
qed

section \<open>Honest growth is cosigned\<close>

definition io_ok :: "wit_io \<Rightarrow> bool" where
  "io_ok io \<longleftrightarrow> io_evidence io \<and> io_history io \<and> io_save io"

lemma flush_ok: "io_ok io \<Longrightarrow> \<exists>w'. flush_state io w = Inr w'"
  by (simp add: flush_state_def io_ok_def)

lemma record_proof_ok: "io_ok io \<Longrightarrow> \<exists>w'. record_proof C io cx nt r w = Inr w'"
  by (simp add: record_proof_def io_ok_def Let_def)

lemma note_future_ok:
  assumes "io_ok io" "work_ok os hist w" "ctx_ok cx"
  shows "\<exists>w'. note_future C io cx w = Inr w'"
proof -
  obtain q b where q: "keep_root cx (pending_of (w_state w) (origin (cx_cp cx))) = Some (q, b)"
    using keep_root_wf [OF _ assms(3)] pending_of_wf assms(2) by (metis work_ok_def)
  have "\<exists>w1. (case partner_of cx (roots_at (pending_of (w_state w) (origin (cx_cp cx))) (tree_size (cx_cp cx))) of
      None \<Rightarrow> Inr w | Some (r, nt) \<Rightarrow> bindE (record_proof C io cx nt r w) (\<lambda>w1. Inr (w1\<lparr>w_ev := Some (pair_ev cx nt r)\<rparr>))) = Inr w1"
  proof (cases "partner_of cx (roots_at (pending_of (w_state w) (origin (cx_cp cx))) (tree_size (cx_cp cx)))")
    case (Some x)
    obtain r nt where x: "x = (r, nt)" by (cases x)
    obtain w1 where "record_proof C io cx nt r w = Inr w1" using record_proof_ok [OF assms(1)] by blast
    then show ?thesis using Some x by simp
  qed simp
  then show ?thesis unfolding note_future_def Let_def q option.case prod.case by auto
qed

lemma settle_ok:
  assumes "io_ok io"
  shows "\<exists>w'. settle_pending C io cx w = Inr w'"
proof (cases "find (\<lambda>(r, _). r \<noteq> cx_root cx) (roots_at (pending_of (w_state w) (origin (cx_cp cx))) (tree_size (cx_cp cx)))")
  case (Some x)
  obtain r nt where x: "x = (r, nt)" by (cases x)
  obtain w1 where "record_proof C io cx nt r w = Inr w1" using record_proof_ok [OF assms] by blast
  then show ?thesis using Some x by (simp add: settle_pending_def Let_def)
qed (simp add: settle_pending_def Let_def)

text \<open>A checkpoint that a witness must accept: the first one of an origin without a proof, or a larger one with a proof that verifies.\<close>

definition acceptable :: "('x crypto_scheme) \<Rightarrow> origin_entry option \<Rightarrow> checkpoint \<Rightarrow> pystr list \<Rightarrow> bool" where
  "acceptable C prev cp pf \<longleftrightarrow> 0 < tree_size cp \<and>
     (case prev of
        None \<Rightarrow> pf = []
      | Some e \<Rightarrow> 0 < oe_size e \<and> oe_size e < tree_size cp \<and>
          verify_consistency_b64 C (oe_size e) (decoded_root (oe_root e)) (tree_size cp) (root cp) pf)"

lemma rules_accept:
  assumes "acceptable C (cx_prev cx) (cx_cp cx) pf" "cx_stored cx = (case cx_prev cx of Some p \<Rightarrow> oe_size p | None \<Rightarrow> 0)"
    and "old = None \<or> old = Some (cx_stored cx)"
  shows "rules C io cx old pf w = Inr (None, w)"
  using assms by (auto simp: rules_def acceptable_def decoded_root_def split: option.splits)

lemma look_first_accept:
  assumes "io_ok io" "work_ok os hist w" "ctx_ok cx"
    and "acceptable C (cx_prev cx) (cx_cp cx) pf" "cx_stored cx = (case cx_prev cx of Some p \<Rightarrow> oe_size p | None \<Rightarrow> 0)"
  shows "\<exists>w'. look_first C io cx w = Inr w'"
  using note_future_ok [OF assms(1-3), of C] assms(4,5) by (auto simp: look_first_def acceptable_def split: option.splits)

lemma decide_accept:
  assumes io: "io_ok io" and w: "work_ok os hist w" and cx: "ctx_ok cx"
    and acc: "acceptable C (cx_prev cx) (cx_cp cx) pf" "cx_stored cx = (case cx_prev cx of Some p \<Rightarrow> oe_size p | None \<Rightarrow> 0)"
      "old = None \<or> old = Some (cx_stored cx)"
    and wk: "wk_pq wk = None" "cosign_v1 C (utf8 (cx_text cx @ [10] @ ended 10 kept)) (wk_name wk) (wk_key wk) ts = Inr c"
  shows "\<exists>out w'. decide C io cx wk kept pf old ts w = Inr (out, w') \<and> wo_cosigned out \<and> wo_note out = Some c"
proof -
  obtain w1 where w1: "look_first C io cx w = Inr w1" using look_first_accept [OF io w cx acc(1,2)] by blast
  obtain w3 where w3: "settle_pending C io cx w1 = Inr w3" using settle_ok [OF io] by blast
  have "\<exists>line w4. sign_and_save C io cx wk kept ts w3 = Inr (c, line, w4)"
    using wk io by (simp add: sign_and_save_def lift_note_def io_ok_def Let_def)
  then show ?thesis
    using w1 w3 rules_accept [OF acc] by (auto simp: decide_def out_fields_def cosigned_out_def)
qed

lemma first_of_each_single [simp]: "first_of_each [x] = [x]"
  by (simp add: first_of_each_def)

text \<open>A note with the one line of the log's key is read by the witness as it was written.\<close>

lemma log_note_read:
  assumes hash32: "\<And>x. length (sha256 C x) = 32" and C: "ed_present C"
    and t: "note_text_ok t" and name: "key_name_fits name" and lk: "honest_key C lk"
    and v: "vkey C name TYPE_ED25519 (sk_public lk) = Inr v"
  defines "l \<equiv> log_line C t name lk"
  shows "split_note (utf8 (note_of t [l])) = Inr (t, [l])"
    and "log_keys C [v] = Inr [(name, key_id C name TYPE_ED25519 (sk_public lk), TYPE_ED25519, sk_public lk)]"
    and "verify_note C (utf8 (note_of t [l])) [v] = Inr \<lparr>stato = OK, note_text = Some t,
      verified_lines = [\<lparr>vl_name = name, vl_type = TYPE_ED25519, vl_time = None\<rparr>], ignored_lines = 0, ignored_vkeys = 0\<rparr>"
    and "note_lines (utf8 (note_of t [l])) t = [note_line l]"
proof -
  let ?k = "key_id C name TYPE_ED25519 (sk_public lk)"
  have fits: "line_fits l" unfolding l_def by (rule honest_line_fits [OF hash32 name lk])
  show sn: "split_note (utf8 (note_of t [l])) = Inr (t, [l])" by (rule split_note_of) (use t fits in \<open>auto simp: MAX_SIGS_def\<close>)
  have pv: "parse_vkey C strict v = Inr (name, ?k, TYPE_ED25519, sk_public lk)" for strict by (rule parse_vkey_vkey [OF v hash32])
  then show "log_keys C [v] = Inr [(name, ?k, TYPE_ED25519, sk_public lk)]"
    by (simp add: log_keys_def key_type_def LOG_KEY_TYPES_def)
  have table: "known_keys C [v] [] 0 = Inr ([((name, ?k), (TYPE_ED25519, sk_public lk))], 0)" using pv by (simp add: type_defs)
  have "length ?k = 4" using hash32 by (simp add: key_id_def)
  moreover have "check_line C t name (TYPE_ED25519, sk_public lk) (sk_sign lk (utf8 t)) = Verified None"
    using lk by (simp add: check_line_def honest_key_def)
  ultimately show "verify_note C (utf8 (note_of t [l])) [v] = Inr \<lparr>stato = OK, note_text = Some t,
      verified_lines = [\<lparr>vl_name = name, vl_type = TYPE_ED25519, vl_time = None\<rparr>], ignored_lines = 0, ignored_vkeys = 0\<rparr>"
    unfolding verify_note_def table sn using C by (auto simp: l_def log_line_def)
  have "utf8_decode (utf8 (note_of t [l])) = Some (note_of t [l])" using utf8.dec_enc note_of_encodable t fits by auto
  moreover have "10 \<notin> set (note_line l)" using note_line_plain [OF fits, of 10] by auto
  ultimately show "note_lines (utf8 (note_of t [l])) t = [note_line l]"
    by (simp add: note_lines_def note_of_def ended_def split_on_append split_on_no_sep)
qed

text \<open>A witness with an Ed25519 key that is not the log's.\<close>

definition witness_fits :: "('x crypto_scheme) \<Rightarrow> wit_key \<Rightarrow> pystr \<Rightarrow> signing_key \<Rightarrow> bool" where
  "witness_fits C wk log_name lk \<longleftrightarrow> wk_pq wk = None \<and> key_name_fits (wk_name wk) \<and> honest_key C (wk_key wk) \<and>
     (wk_name wk, key_id C (wk_name wk) TYPE_COSIG_V1 (sk_public (wk_key wk))) \<noteq> (log_name, key_id C log_name TYPE_ED25519 (sk_public lk))"

definition honest_request :: "bytes \<Rightarrow> pystr \<Rightarrow> pystr list \<Rightarrow> int option \<Rightarrow> wit_req" where
  "honest_request nt v pf old = \<lparr>rq_note = nt, rq_vkeys = [v], rq_proof = pf, rq_time = None, rq_old = old, rq_origin = None\<rparr>"

lemma acceptable_is_cosigned:
  assumes hash32: "\<And>x. length (sha256 C x) = 32" and C: "ed_present C"
    and cp: "checkpoint_valid cp" "encodable (text_of_checkpoint cp)" "origin cp = name"
    and name: "key_name_fits name" and lk: "honest_key C lk" and wk: "witness_fits C wk name lk"
    and v: "vkey C name TYPE_ED25519 (sk_public lk) = Inr v" and sign: "sign_note C (text_of_checkpoint cp) name lk = Inr nt"
    and io: "io_ok io" and now: "stamp_ok now'" and wf: "state_wf (wf_state fs)"
    and acc: "acceptable C (map_of (origins (wf_state fs)) name) cp pf" "length pf \<le> MAX_PROOF"
    and old: "old = None \<or> old = Some (case map_of (origins (wf_state fs)) name of Some e \<Rightarrow> oe_size e | None \<Rightarrow> 0)"
  shows "request_checkpoint (honest_request nt v pf old) = Some cp"
    "\<exists>out fs'. witness_cosign C io wk (honest_request nt v pf old) now now' fs = (Inr out, fs') \<and> wo_cosigned out"
proof -
  let ?t = "text_of_checkpoint cp" and ?l = "log_line C (text_of_checkpoint cp) name lk"
  note t = checkpoint_note_text [OF cp(1,2)] and parse = parse_checkpoint_text [OF cp(1)]
  have nt: "nt = utf8 (note_of ?t [?l])" using honest_sign [OF t(1) C name, of lk] sign by simp
  note read = log_note_read [OF hash32 C t(1) name lk v]
  show "request_checkpoint (honest_request nt v pf old) = Some cp"
    using read(1) parse by (simp add: request_checkpoint_def honest_request_def nt)
  have fits: "line_fits ?l" by (rule honest_line_fits [OF hash32 name lk])
  have kid: "take 4 (snd ?l) = key_id C name TYPE_ED25519 (sk_public lk)" "fst ?l = name"
    using hash32 by (simp_all add: log_line_def key_id_def)
  have mine: "\<not> (name = wk_name wk \<and> take 4 (snd ?l) \<in> set (own_key_ids C wk))"
    using wk kid by (auto simp: witness_fits_def own_key_ids_def)
  have base: "?t @ [10] @ ended 10 [note_line ?l] = note_of ?t [?l]" by (simp add: note_of_def)
  obtain c where c: "cosign_v1 C (utf8 (note_of ?t [?l])) (wk_name wk) (wk_key wk) now' = Inr c"
    using honest_cosign [OF hash32 t(1) parse, of "[?l]" "wk_name wk" "wk_key wk" now'] fits C wk now by (simp add: MAX_SIGS_def witness_fits_def)
  let ?os = "origins (wf_state fs)"
  define cx where "cx = \<lparr>cx_cp = cp, cx_root = b64encode (root cp), cx_text = ?t, cx_shown = ?t @ [10] @ concat [note_line ?l @ [10]],
    cx_when = now, cx_prev = map_of ?os (origin cp), cx_stored = (case map_of ?os (origin cp) of Some p \<Rightarrow> oe_size p | None \<Rightarrow> 0)\<rparr>"
  define w where "w = \<lparr>w_state = wf_state fs, w_dirty = False, w_ev = None, w_files = fs\<rparr>"
  have w: "work_ok ?os (wf_history fs) w" using wf by (simp add: work_ok_def w_def state_wf_def)
  have "\<exists>out w'. decide C io cx wk [note_line ?l] pf old now' w = Inr (out, w') \<and> wo_cosigned out \<and> wo_note out = Some c"
    by (rule decide_accept [OF io w]) (use cp acc(1) old wk c base in \<open>simp_all add: cx_def ctx_ok_def witness_fits_def\<close>)
  then have locked: "\<exists>out fs'. cosign_locked C io wk cp ?t [note_line ?l @ [10]] [note_line ?l] pf None old now now' fs = (Inr out, fs') \<and> wo_cosigned out"
    unfolding cosign_locked_def state_wf_loads [OF wf] by (auto simp: cx_def w_def)
  have "witness_cosign C io wk (honest_request nt v pf old) now now' fs =
      cosign_locked C io wk cp ?t [note_line ?l @ [10]] [note_line ?l] pf None old now now' fs"
    unfolding witness_cosign_def honest_request_def wit_req.select_convs nt read sum.case prod.case
    using kid mine cp(3) acc(2) parse wk read(4)
    by (cases ?l) (simp add: Let_def signed_by_log_def LOG_KEY_TYPES_def lines_of_def key_ident_def witness_fits_def MAX_SIGS_def)
  then show "\<exists>out fs'. witness_cosign C io wk (honest_request nt v pf old) now now' fs = (Inr out, fs') \<and> wo_cosigned out"
    using locked by simp
qed

lemma decode_encoded_proof: "decode_proof (map b64encode p) = Some p"
  by (induction p) (simp_all add: b64_strict_encode)

lemma proof_hashes_encode [simp]: "proof_hashes (map b64encode p) = p"
  by (simp add: proof_hashes_def decode_encoded_proof)

text \<open>An honest log that grows: the checkpoint of its first leaves is cosigned, then the one of all of them with the generated proof.\<close>

definition leaves_checkpoint :: "('x crypto_scheme) \<Rightarrow> pystr \<Rightarrow> bytes list \<Rightarrow> checkpoint" where
  "leaves_checkpoint C name leaves = \<lparr>origin = name, tree_size = int (length leaves), root = mth (sha256 C) leaves, extensions = []\<rparr>"

lemma growth_acceptable:
  assumes hash32: "\<And>x. length (sha256 C x) = 32"
    and m: "0 < m" "m < int (length leaves)" and head: "oe_size e = m" "decoded_root (oe_root e) = mth (sha256 C) (take (nat m) leaves)"
    and pf: "consistency_proof (sha256 C) m leaves = Some p"
  shows "acceptable C (Some e) (leaves_checkpoint C name leaves) (map b64encode p)"
proof -
  have "verify_consistency (sha256 C) m (int (length leaves)) p (mth (sha256 C) (take (nat m) leaves)) (mth (sha256 C) leaves)"
    by (rule consistency_accepts [OF pf])
  moreover have "\<forall>h\<in>set p. length h = 32" using consistency_hashes [OF pf] length_mth [OF hash32] by fastforce
  ultimately show ?thesis
    using m head by (auto simp: acceptable_def leaves_checkpoint_def verify_consistency_b64_def decode_encoded_proof list_ex_iff)
qed

lemma honest_growth:
  assumes hash32: "\<And>x. length (sha256 C x) = 32" and C: "ed_present C" and io: "io_ok io" and now: "stamp_ok now'"
    and name: "key_name_fits name" and lk: "honest_key C lk" and wk: "witness_fits C wk name lk"
    and v: "vkey C name TYPE_ED25519 (sk_public lk) = Inr v"
    and cp: "checkpoint_valid (leaves_checkpoint C name leaves)" "encodable (text_of_checkpoint (leaves_checkpoint C name leaves))"
    and sign: "sign_note C (text_of_checkpoint (leaves_checkpoint C name leaves)) name lk = Inr nt"
    and run: "wit_run C wk cps fs" and leaves: "m < int (length leaves)" "length leaves \<le> 2 ^ 62"
    and known: "if m = 0 then last_head name cps = None \<and> pf = []
      else 0 < m \<and> last_head name cps = Some (m, mth (sha256 C) (take (nat m) leaves)) \<and> consistency_proof_b64 C leaves m = Inr pf"
  shows "\<exists>out fs'. witness_cosign C io wk (honest_request nt v pf (Some m)) now now' fs = (Inr out, fs') \<and> wo_cosigned out \<and>
    wit_run C wk (cps @ [(leaves_checkpoint C name leaves, pf)]) fs'"
proof -
  let ?cp = "leaves_checkpoint C name leaves"
  have inv: "state_wf (wf_state fs)" "map_option entry_head (map_of (origins (wf_state fs)) name) = last_head name cps"
    using wit_run_inv [OF run] by (simp_all add: run_inv_def)
  have acc: "acceptable C (map_of (origins (wf_state fs)) name) ?cp pf \<and> length pf \<le> MAX_PROOF \<and>
      m = (case map_of (origins (wf_state fs)) name of Some e \<Rightarrow> oe_size e | None \<Rightarrow> 0)"
  proof (cases "m = 0")
    case True
    then show ?thesis using known inv(2) leaves by (simp add: acceptable_def leaves_checkpoint_def)
  next
    case False
    then obtain e where e: "map_of (origins (wf_state fs)) name = Some e" "oe_size e = m" "decoded_root (oe_root e) = mth (sha256 C) (take (nat m) leaves)"
      using known inv(2) by (auto simp: entry_head_def)
    obtain p where p: "consistency_proof (sha256 C) m leaves = Some p" "pf = map b64encode p"
      using known False by (auto simp: consistency_proof_b64_def split: if_splits option.splits)
    have "acceptable C (Some e) ?cp (map b64encode p)" using growth_acceptable [OF hash32 _ leaves(1) e(2,3) p(1)] known False by simp
    moreover have "length p \<le> MAX_PROOF"
      using p(1) leaves(2) subproof_size [of "sha256 C" m leaves True p 62] by (auto simp: MAX_PROOF_def consistency_proof_def Let_def split: if_splits)
    ultimately show ?thesis using e p(2) by simp
  qed
  note request = acceptable_is_cosigned [OF hash32 C cp _ name lk wk v sign io now inv(1), where pf = pf and old = "Some m"]
  have origin: "origin ?cp = name" by (simp add: leaves_checkpoint_def)
  obtain out fs' where r: "witness_cosign C io wk (honest_request nt v pf (Some m)) now now' fs = (Inr out, fs')" "wo_cosigned out"
    using request(2) [OF origin] acc by blast
  have "request_checkpoint (honest_request nt v pf (Some m)) = Some ?cp" using request(1) [OF origin] acc by blast
  then have "wit_run C wk (cps @ [(?cp, pf)]) fs'" using wit_run.request [OF run r(1)] r(2) by (simp add: honest_request_def)
  then show ?thesis using r by blast
qed

section \<open>The theorems\<close>

text \<open>
  C20. Append-only across requests: in every run of a witness, of any two checkpoints it cosigned for one origin the later
  is at least as large, and whenever the later root is the tree hash of some leaves, the earlier root is the tree hash of the
  first of these leaves; otherwise the hash function has a collision among the inputs that were hashed. Forged, stale
  and malformed requests, failed writes and refusals in between change nothing of this.
\<close>

theorem witness_append_only:
  assumes "wit_run C wk (xs @ (cp, p) # ys @ (cp', p') # zs) fs" "\<forall>x. length (sha256 C x) = 32"
    and "origin cp' = origin cp" "0 < tree_size cp" "cp_head cp' = (int (length D), mth (sha256 C) D)"
  shows "tree_size cp \<le> tree_size cp' \<and>
    (root cp = mth (sha256 C) (take (nat (tree_size cp)) D) \<or>
     collision (sha256 C) (prefix_inputs (sha256 C) D \<union> run_inputs (sha256 C) (views (origin cp) (xs @ (cp, p) # ys @ (cp', p') # zs))))"
  using append_only_heads [OF assms] assms(5) by (simp add: cp_head_def)

definition example_witness :: wit_key where
  "example_witness = \<lparr>wk_name = lit ''wit'', wk_key = example_key 2, wk_pq = None\<rparr>"

definition example_io :: wit_io where
  "example_io = \<lparr>io_evidence = True, io_history = True, io_save = True\<rparr>"

lemma example_leaves_checkpoint:
  assumes "0 < length leaves" "length leaves < 10"
  shows "checkpoint_valid (leaves_checkpoint example_note_crypto (lit ''log'') leaves)"
    "encodable (text_of_checkpoint (leaves_checkpoint example_note_crypto (lit ''log'') leaves))"
proof -
  show "checkpoint_valid (leaves_checkpoint example_note_crypto (lit ''log'') leaves)"
    using assms by (simp add: checkpoint_valid_def leaves_checkpoint_def has_control_def length_mth)
  have "encodable (b64encode r)" for r using utf8_ascii_eq b64encode_plain by blast
  moreover have "encodable (lit ''log'')" using example_names by (simp add: key_name_fits_def del: lit_Cons)
  moreover have "encodable (nat_str (length leaves))" using assms by (simp add: nat_str.simps encodable_scalar scalar_def)
  moreover have "encodable [10]" by (simp add: encodable_scalar scalar_def)
  ultimately show "encodable (text_of_checkpoint (leaves_checkpoint example_note_crypto (lit ''log'') leaves))"
    unfolding encodable_scalar by (simp add: text_of_checkpoint_def leaves_checkpoint_def join_Cons int_str_def)
qed

lemma example_witness_fits: "witness_fits example_note_crypto example_witness (lit ''log'') (example_key 1)"
  using example_names(2) example_key_honest [of 2] by (simp add: witness_fits_def example_witness_def del: lit_Cons)

lemma example_vkey: "\<exists>v. vkey example_note_crypto (lit ''log'') TYPE_ED25519 (sk_public (example_key 1)) = Inr v"
  using example_names(1) by (simp add: vkey_def key_name_fits_def example_key_def type_defs del: lit_Cons)

lemma example_signed:
  assumes "0 < length leaves" "length leaves < 10"
  shows "\<exists>nt. sign_note example_note_crypto (text_of_checkpoint (leaves_checkpoint example_note_crypto (lit ''log'') leaves)) (lit ''log'') (example_key 1) = Inr nt"
  by (rule exI, rule honest_sign [OF checkpoint_note_text(1) [OF example_leaves_checkpoint [OF assms]] _ example_names(1)]) simp

lemma example_growth:
  assumes "wit_run example_note_crypto example_witness cps fs" "0 < length leaves" "length leaves < 10"
    and "if m = 0 then last_head (lit ''log'') cps = None \<and> pf = []
      else 0 < m \<and> last_head (lit ''log'') cps = Some (m, mth (sha256 example_note_crypto) (take (nat m) leaves)) \<and> consistency_proof_b64 example_note_crypto leaves m = Inr pf"
    and "m < int (length leaves)"
  shows "\<exists>fs'. wit_run example_note_crypto example_witness (cps @ [(leaves_checkpoint example_note_crypto (lit ''log'') leaves, pf)]) fs'"
proof -
  let ?cp = "leaves_checkpoint example_note_crypto (lit ''log'') leaves"
  obtain v where v: "vkey example_note_crypto (lit ''log'') TYPE_ED25519 (sk_public (example_key 1)) = Inr v" using example_vkey ..
  obtain nt where nt: "sign_note example_note_crypto (text_of_checkpoint ?cp) (lit ''log'') (example_key 1) = Inr nt"
    using example_signed [OF assms(2,3)] ..
  have "io_ok example_io" "stamp_ok 1700000000" by (simp_all add: io_ok_def example_io_def stamp_ok_def)
  from honest_growth [OF _ _ this example_names(1) example_key_honest example_witness_fits v example_leaves_checkpoint [OF assms(2,3)] nt assms(1,5) _ assms(4)]
  have "\<exists>out fs'. witness_cosign example_note_crypto example_io example_witness (honest_request nt v pf (Some m)) 0 1700000000 fs = (Inr out, fs') \<and>
      wo_cosigned out \<and> wit_run example_note_crypto example_witness (cps @ [(?cp, pf)]) fs'"
    using assms(3) by (simp del: lit_Cons)
  then show ?thesis by blast
qed

lemma example_run:
  "\<exists>fs pf. wit_run example_note_crypto example_witness [(leaves_checkpoint example_note_crypto (lit ''log'') [[1], [2]], []),
     (leaves_checkpoint example_note_crypto (lit ''log'') [[1], [2], [3]], pf)] fs"
proof -
  let ?C = example_note_crypto and ?cp = "leaves_checkpoint example_note_crypto (lit ''log'')"
  obtain fs1 where one: "wit_run ?C example_witness [(?cp [[1], [2]], [])] fs1"
    using example_growth [OF wit_run.start, of "[[1], [2]]" 0 "[]"] by (auto simp: last_head_def)
  obtain p where "consistency_proof example_hash 2 [[1], [2], [3]] = Some p" using consistency_defined [of 2 "[[1], [2], [3]]"] by auto
  then have p: "consistency_proof_b64 ?C [[1], [2], [3]] 2 = Inr (map b64encode p)" by (simp add: consistency_proof_b64_def)
  have "last_head (lit ''log'') [(?cp [[1], [2]], [])] = Some (2, mth example_hash [[1], [2]])"
    by (simp add: last_head_def cp_head_def leaves_checkpoint_def)
  with example_growth [OF one, of "[[1], [2], [3]]" 2 "map b64encode p"] p show ?thesis by auto
qed

theorem witness_append_only_witness:
  "\<exists>fs pf. let C = example_note_crypto; a = leaves_checkpoint C (lit ''log'') [[1], [2]]; b = leaves_checkpoint C (lit ''log'') [[1], [2], [3]] in
    wit_run C example_witness ([] @ (a, []) # [] @ (b, pf) # []) fs \<and> tree_size a \<le> tree_size b \<and>
    (root a = mth (sha256 C) (take (nat (tree_size a)) [[1], [2], [3]]) \<or>
     collision (sha256 C) (prefix_inputs (sha256 C) [[1], [2], [3]] \<union> run_inputs (sha256 C) (views (origin a) ([] @ (a, []) # [] @ (b, pf) # []))))"
proof -
  let ?C = example_note_crypto and ?cp = "leaves_checkpoint example_note_crypto (lit ''log'')"
  obtain fs pf where run: "wit_run ?C example_witness ([] @ (?cp [[1], [2]], []) # [] @ (?cp [[1], [2], [3]], pf) # []) fs" using example_run by auto
  have "cp_head (?cp [[1], [2], [3]]) = (int (length [[1], [2], [3]]), mth (sha256 ?C) [[1], [2], [3]])" "0 < tree_size (?cp [[1], [2]])"
    "origin (?cp [[1], [2], [3]]) = origin (?cp [[1], [2]])" "\<forall>x. length (sha256 ?C x) = 32"
    by (simp_all add: cp_head_def leaves_checkpoint_def)
  from witness_append_only [OF run this(4,3,2,1)] run show ?thesis unfolding Let_def by blast
qed



text \<open>
  C23. A witness does not get stuck: after any run, an honest log that grew from the head last cosigned (or was never cosigned)
  and sends its signed checkpoint with the generated proof and the right old size is cosigned, whatever others have left in the
  pending table, the refusal ring and the evidence; the run goes on with that head.
\<close>

theorem honest_growth_cosigned:
  assumes "\<And>x. length (sha256 C x) = 32" "ed_present C" "io_ok io" "stamp_ok now'"
    and "key_name_fits name" "honest_key C lk" "witness_fits C wk name lk" "vkey C name TYPE_ED25519 (sk_public lk) = Inr v"
    and "checkpoint_valid (leaves_checkpoint C name leaves)" "encodable (text_of_checkpoint (leaves_checkpoint C name leaves))"
    and "sign_note C (text_of_checkpoint (leaves_checkpoint C name leaves)) name lk = Inr nt"
    and "wit_run C wk cps fs" "m < int (length leaves)" "length leaves \<le> 2 ^ 62"
    and "if m = 0 then last_head name cps = None \<and> pf = []
      else 0 < m \<and> last_head name cps = Some (m, mth (sha256 C) (take (nat m) leaves)) \<and> consistency_proof_b64 C leaves m = Inr pf"
  shows "\<exists>out fs'. witness_cosign C io wk (honest_request nt v pf (Some m)) now now' fs = (Inr out, fs') \<and> wo_cosigned out \<and>
    wit_run C wk (cps @ [(leaves_checkpoint C name leaves, pf)]) fs'"
  by (rule honest_growth [OF assms])

theorem honest_growth_cosigned_witness:
  "\<exists>nt v out fs'. witness_cosign example_note_crypto example_io example_witness (honest_request nt v [] (Some 0)) 1700000000 1700000000
      \<lparr>wf_state = empty_state, wf_evidence = [], wf_history = []\<rparr> = (Inr out, fs') \<and> wo_cosigned out \<and>
    wit_run example_note_crypto example_witness ([] @ [(leaves_checkpoint example_note_crypto (lit ''log'') [[1], [2]], [])]) fs'"
proof -
  let ?cp = "leaves_checkpoint example_note_crypto (lit ''log'') [[1], [2]]"
  have len: "0 < length [[1 :: byte], [2]]" "length [[1 :: byte], [2]] < 10" by simp_all
  obtain v where v: "vkey example_note_crypto (lit ''log'') TYPE_ED25519 (sk_public (example_key 1)) = Inr v" using example_vkey ..
  obtain nt where nt: "sign_note example_note_crypto (text_of_checkpoint ?cp) (lit ''log'') (example_key 1) = Inr nt"
    using example_signed [OF len] ..
  have "io_ok example_io" "stamp_ok 1700000000" by (simp_all add: io_ok_def example_io_def stamp_ok_def)
  from honest_growth_cosigned [OF _ _ this example_names(1) example_key_honest example_witness_fits v example_leaves_checkpoint [OF len] nt wit_run.start, of 0 "[]"]
  show ?thesis by (simp add: last_head_def) blast
qed

text \<open>
  C22. What clients can make a witness remember is bounded: after any sequence of requests every origin has at most 100 pending
  roots holding at most 256 KiB of notes and at most 100 refusals, and at most 10000 keys of recorded pairs are kept.
\<close>

theorem witness_bounded:
  assumes "wit_run C wk cps fs"
  shows "list_all (\<lambda>(orig, p). pending_count p \<le> 100 \<and> pending_bytes p \<le> 256 * 1024) (pendings (wf_state fs)) \<and>
    list_all (\<lambda>(orig, rg). length (ring_last rg) \<le> 100) (refusals (wf_state fs)) \<and> length (proofs_seen (wf_state fs)) \<le> 10000"
proof -
  have "tables_ok (wf_state fs)" using wit_run_inv [OF assms] by (simp add: run_inv_def state_wf_def)
  moreover have "pending_count p \<le> 100 \<and> pending_bytes p \<le> 256 * 1024" if "\<not> over_budget p" for p
    using that by (cases "p = []") (auto simp: over_budget_def pending_count_def pending_bytes_def RING_def PENDING_BYTES_def)
  ultimately show ?thesis by (fastforce simp: tables_ok_def rings_ok_def list_all_iff RING_def PROOFS_SEEN_def)
qed

theorem witness_bounded_witness:
  "\<exists>fs cps. cps \<noteq> [] \<and> wit_run example_note_crypto example_witness cps fs \<and>
    list_all (\<lambda>(orig, p). pending_count p \<le> 100 \<and> pending_bytes p \<le> 256 * 1024) (pendings (wf_state fs)) \<and>
    list_all (\<lambda>(orig, rg). length (ring_last rg) \<le> 100) (refusals (wf_state fs)) \<and> length (proofs_seen (wf_state fs)) \<le> 10000"
proof -
  obtain fs cps where "wit_run example_note_crypto example_witness cps fs" "cps \<noteq> []" using example_run by blast
  then show ?thesis using witness_bounded [of example_note_crypto example_witness cps fs] by blast
qed

end
