(* ===== verification/Cbor.thy ===== *)
theory Cbor
  imports Py_Bytes
begin

text \<open>
  The CBOR subset of \<^verbatim>\<open>src/cryptovalid_receipt.py\<close> (RFC 8949: integers, byte and text strings, arrays, maps, booleans, null),
  which carries the COSE form of a receipt: the deterministic encoder and the bounded decoder, and that the decoder inverts the
  encoder.
\<close>

datatype cbor =
    CBool bool
  | CNull
  | CInt int
  | CBytes bytes
  | CText pystr
  | CArr "cbor list"
  | CMap "(cbor \<times> cbor) list"

section \<open>Encoder\<close>

text \<open>\<open>None\<close>: an integer or length beyond 64 bits (\<^verbatim>\<open>OverflowError\<close>).\<close>

definition cbor_head :: "nat \<Rightarrow> nat \<Rightarrow> bytes option" where
  "cbor_head major n =
     (let first = (\<lambda>info. of_nat (32 * major + info)) in
      if n < 24 then Some [first n]
      else if n < 2 ^ 8 then Some (first 24 # be_bytes 1 n)
      else if n < 2 ^ 16 then Some (first 25 # be_bytes 2 n)
      else if n < 2 ^ 32 then Some (first 26 # be_bytes 4 n)
      else if n < 2 ^ 64 then Some (first 27 # be_bytes 8 n)
      else None)"

definition with_head :: "nat \<Rightarrow> nat \<Rightarrow> bytes option \<Rightarrow> bytes option" where
  "with_head major n rest =
     (case (cbor_head major n, rest) of (Some h, Some r) \<Rightarrow> Some (h @ r) | _ \<Rightarrow> None)"

definition pair_up :: "bytes option \<times> bytes option \<Rightarrow> (bytes \<times> bytes) option" where
  "pair_up p = (case p of (Some a, Some b) \<Rightarrow> Some (a, b) | _ \<Rightarrow> None)"

text \<open>Deterministic: the items of a map are sorted by the encoded key.\<close>

fun cbor_encode :: "cbor \<Rightarrow> bytes option" where
  "cbor_encode (CBool b) = Some [if b then 0xF5 else 0xF4]"
| "cbor_encode CNull = Some [0xF6]"
| "cbor_encode (CInt n) = (if n \<ge> 0 then cbor_head 0 (nat n) else cbor_head 1 (nat (-1 - n)))"
| "cbor_encode (CBytes bs) = with_head 2 (length bs) (Some bs)"
| "cbor_encode (CText s) = (case utf8_encode s of Some b \<Rightarrow> with_head 3 (length b) (Some b) | None \<Rightarrow> None)"
| "cbor_encode (CArr xs) = with_head 4 (length xs) (map_option concat (those (map cbor_encode xs)))"
| "cbor_encode (CMap kvs) =
     with_head 5 (length kvs)
       (map_option (\<lambda>items. concat (map (\<lambda>(k, v). k @ v) (sort_key fst items)))
         (those (map (\<lambda>(k, v). pair_up (cbor_encode k, cbor_encode v)) kvs)))"

section \<open>Decoder\<close>

datatype cbor_error = Too_Deep | Index_Error | Indefinite | Not_Utf8 | Bad_Key | Duplicate_Key | Bad_Major | Excess

definition CBOR_MAX_DEPTH :: nat where
  "CBOR_MAX_DEPTH = 64"

text \<open>The argument after an initial octet. A slice past the end is shorter, as in Python; only indexing raises.\<close>

definition cbor_arg :: "bytes \<Rightarrow> nat \<Rightarrow> nat \<Rightarrow> cbor_error + nat \<times> nat" where
  "cbor_arg b info i =
     (let slice = (\<lambda>k. be_val (take k (drop i b))) in
      if info < 24 then Inr (info, i)
      else if info = 24 then (if i < length b then Inr (unat (b ! i), i + 1) else Inl Index_Error)
      else if info = 25 then Inr (slice 2, i + 2)
      else if info = 26 then Inr (slice 4, i + 4)
      else if info = 27 then Inr (slice 8, i + 8)
      else Inl Indefinite)"

fun key_ok :: "cbor \<Rightarrow> bool" where
  "key_ok (CInt _) = True"
| "key_ok (CText _) = True"
| "key_ok (CBytes _) = True"
| "key_ok _ = False"

fun rd_items :: "(nat \<Rightarrow> cbor_error + cbor \<times> nat) \<Rightarrow> nat \<Rightarrow> nat \<Rightarrow> cbor_error + cbor list \<times> nat" where
  "rd_items f 0 i = Inr ([], i)"
| "rd_items f (Suc n) i = bindE (f i) (\<lambda>(v, j). bindE (rd_items f n j) (\<lambda>(vs, k). Inr (v # vs, k)))"

fun rd_pairs :: "(nat \<Rightarrow> cbor_error + cbor \<times> nat) \<Rightarrow> nat \<Rightarrow> nat \<Rightarrow> (cbor \<times> cbor) list \<Rightarrow> cbor_error + (cbor \<times> cbor) list \<times> nat" where
  "rd_pairs f 0 i out = Inr (out, i)"
| "rd_pairs f (Suc n) i out =
     bindE (f i) (\<lambda>(k, j). bindE (f j) (\<lambda>(v, l).
       if \<not> key_ok k then Inl Bad_Key
       else if k \<in> set (map fst out) then Inl Duplicate_Key
       else rd_pairs f n l (out @ [(k, v)])))"

text \<open>\<open>rd d b i\<close>: the value at position \<open>i\<close>, with \<open>d\<close> levels left, and the position after it.\<close>

fun rd :: "nat \<Rightarrow> bytes \<Rightarrow> nat \<Rightarrow> cbor_error + cbor \<times> nat" where
  "rd 0 b i = Inl Too_Deep"
| "rd (Suc d) b i =
     (if \<not> i < length b then Inl Index_Error
      else
        let major = unat (b ! i) div 32; info = unat (b ! i) mod 32 in
        if major = 7 \<and> info \<in> {20, 21, 22} then Inr (if info = 22 then CNull else CBool (info = 21), i + 1)
        else bindE (cbor_arg b info (i + 1)) (\<lambda>(n, j).
          if major = 0 then Inr (CInt (int n), j)
          else if major = 1 then Inr (CInt (-1 - int n), j)
          else if major = 2 then Inr (CBytes (take n (drop j b)), j + n)
          else if major = 3 then (case utf8_decode (take n (drop j b)) of Some s \<Rightarrow> Inr (CText s, j + n) | None \<Rightarrow> Inl Not_Utf8)
          else if major = 4 then bindE (rd_items (rd d b) n j) (\<lambda>(vs, k). Inr (CArr vs, k))
          else if major = 5 then bindE (rd_pairs (rd d b) n j []) (\<lambda>(kvs, k). Inr (CMap kvs, k))
          else Inl Bad_Major))"

definition cbor_decode :: "bytes \<Rightarrow> cbor_error + cbor" where
  "cbor_decode b = bindE (rd (Suc CBOR_MAX_DEPTH) b 0) (\<lambda>(v, end). if end \<noteq> length b then Inl Excess else Inr v)"

section \<open>The decoder inverts the encoder\<close>

text \<open>What the encoder is used on: keys that the decoder admits, distinct; and the nesting.\<close>

fun cbor_wf :: "cbor \<Rightarrow> bool" where
  "cbor_wf (CArr xs) = (\<forall>x\<in>set xs. cbor_wf x)"
| "cbor_wf (CMap kvs) = (distinct (map fst kvs) \<and> (\<forall>(k, v)\<in>set kvs. key_ok k \<and> cbor_wf v))"
| "cbor_wf _ = True"

fun nesting :: "cbor \<Rightarrow> nat" where
  "nesting (CArr xs) = foldr (\<lambda>x. max (Suc (nesting x))) xs 0"
| "nesting (CMap kvs) = foldr (\<lambda>(k, v). max (Suc (nesting v))) kvs (if kvs = [] then 0 else 1)"
| "nesting _ = 0"

text \<open>The value with the items of every map in the order of the encoded keys.\<close>

definition by_key :: "(cbor \<times> cbor) list \<Rightarrow> (cbor \<times> cbor) list" where
  "by_key = sort_key (\<lambda>(k, _). the (cbor_encode k))"

fun cbor_sorted :: "cbor \<Rightarrow> cbor" where
  "cbor_sorted (CArr xs) = CArr (map cbor_sorted xs)"
| "cbor_sorted (CMap kvs) = CMap (by_key (map (\<lambda>(k, v). (k, cbor_sorted v)) kvs))"
| "cbor_sorted x = x"

lemma cbor_head_cases:
  assumes "cbor_head major n = Some h"
  obtains info k where "of_nat (32 * major + info) # be_bytes k n = h" "n < 256 ^ k"
    "(info, k) = (24, 1) \<or> (info, k) = (25, 2) \<or> (info, k) = (26, 4) \<or> (info, k) = (27, 8)"
  | "[of_nat (32 * major + n)] = h" "n < 24"
  using assms that(1) [of 24 1] that(1) [of 25 2] that(1) [of 26 4] that(1) [of 27 8] that(2)
  unfolding cbor_head_def Let_def by (simp split: if_splits del: of_nat_add of_nat_mult be_bytes.simps)

lemma cbor_head_arg:
  assumes h: "cbor_head major n = Some h" "major < 8" and b: "b = pre @ h @ post"
  shows "\<exists>info. unat (b ! length pre) div 32 = major \<and> unat (b ! length pre) mod 32 = info \<and> \<not> (major = 7 \<and> info \<in> {20, 21, 22} \<and> \<not> n < 24) \<and>
    length pre < length b \<and> cbor_arg b info (length pre + 1) = Inr (n, length pre + length h)"
proof -
  have byte: "unat (of_nat (32 * major + info) :: byte) = 32 * major + info" if "info < 32" for info
    by (rule unat_byte_of_nat) (use assms(2) that in simp)
  from h(1) show ?thesis
  proof (cases rule: cbor_head_cases)
    case (1 info k)
    have at: "b ! length pre = of_nat (32 * major + info)" "drop (length pre + 1) b = be_bytes k n @ post" "length b = length pre + 1 + k + length post"
      using 1(1) [symmetric] b by (simp_all add: nth_append del: of_nat_add of_nat_mult)
    have val: "be_val (take k (drop (length pre + 1) b)) = n" using at(2) 1(2) by (simp add: be_val_bytes)
    have "b ! (length pre + 1) = (drop (length pre + 1) b) ! 0" using at(3) by simp
    then have "k = 1 \<Longrightarrow> unat (b ! (length pre + 1)) = n" using at(2) 1(2) unat_byte_of_nat [of n] by simp
    moreover have "info < 32" using 1(3) by auto
    ultimately show ?thesis
      using 1(1) [symmetric] 1(3) at byte [of info] val by (auto simp: cbor_arg_def Let_def simp del: of_nat_add of_nat_mult be_bytes.simps)
  next
    case 2
    from 2(1) [symmetric] 2(2) show ?thesis using b byte [of n] by (auto simp: cbor_arg_def nth_append simp del: of_nat_add of_nat_mult)
  qed
qed


lemma those_map: "those (map f xs) = Some ys \<Longrightarrow> list_all2 (\<lambda>x y. f x = Some y) xs ys"
  by (induction xs arbitrary: ys) (auto split: option.splits)

text \<open>The value at the place of its encoding is read, and the position after it.\<close>

definition reads_at :: "nat \<Rightarrow> cbor \<Rightarrow> bytes \<Rightarrow> bool" where
  "reads_at d x bs \<longleftrightarrow> (\<forall>pre post. rd d (pre @ bs @ post) (length pre) = Inr (cbor_sorted x, length pre + length bs))"

lemma reads_atD: "reads_at d x bs \<Longrightarrow> rd d (pre @ bs @ post) (length pre) = Inr (cbor_sorted x, length pre + length bs)"
  by (simp add: reads_at_def)

lemma rd_items_reads:
  "list_all2 (reads_at d) xs ys \<Longrightarrow>
    rd_items (rd d (pre @ concat ys @ post)) (length xs) (length pre) = Inr (map cbor_sorted xs, length pre + length (concat ys))"
proof (induction xs ys arbitrary: pre rule: list_all2_induct)
  case (Cons x xs y ys)
  show ?case using reads_atD [OF Cons(1), of pre "concat ys @ post"] Cons.IH [of "pre @ y"] by simp
qed simp

lemma rd_pairs_reads:
  assumes "list_all2 (\<lambda>(k, v) (a, b). reads_at d k a \<and> reads_at d v b \<and> key_ok k \<and> cbor_sorted k = k) kvs ys" "distinct (map fst out @ map fst kvs)"
  shows "rd_pairs (rd d (pre @ concat (map (\<lambda>(a, b). a @ b) ys) @ post)) (length kvs) (length pre) out =
    Inr (out @ map (\<lambda>(k, v). (k, cbor_sorted v)) kvs, length pre + length (concat (map (\<lambda>(a, b). a @ b) ys)))"
  using assms
proof (induction kvs ys arbitrary: pre out rule: list_all2_induct)
  case (Cons x kvs y ys)
  obtain k v a b where x: "x = (k, v)" "y = (a, b)" by (cases x, cases y)
  let ?r = "concat (map (\<lambda>(a, b). a @ b) ys)"
  have r: "reads_at d k a" "reads_at d v b" "key_ok k" "cbor_sorted k = k" "k \<notin> set (map fst out)" using Cons x by auto
  have "rd d (pre @ a @ b @ ?r @ post) (length pre) = Inr (k, length pre + length a)" using reads_atD [OF r(1), of pre "b @ ?r @ post"] r(4) by simp
  moreover have "rd d (pre @ a @ b @ ?r @ post) (length pre + length a) = Inr (cbor_sorted v, length pre + length a + length b)"
    using reads_atD [OF r(2), of "pre @ a" "?r @ post"] by simp
  moreover have "rd_pairs (rd d ((pre @ a @ b) @ ?r @ post)) (length kvs) (length (pre @ a @ b)) (out @ [(k, cbor_sorted v)]) =
      Inr ((out @ [(k, cbor_sorted v)]) @ map (\<lambda>(k, v). (k, cbor_sorted v)) kvs, length (pre @ a @ b) + length ?r)"
    by (rule Cons.IH) (use Cons.prems x in auto)
  ultimately show ?case using r by (simp add: x add.assoc)
qed simp

lemma nesting_item: "x \<in> set xs \<Longrightarrow> nesting (CArr xs) \<le> d \<Longrightarrow> \<exists>d'. d = Suc d' \<and> nesting x \<le> d'"
proof -
  assume "x \<in> set xs" "nesting (CArr xs) \<le> d"
  moreover have "x \<in> set xs \<Longrightarrow> Suc (nesting x) \<le> nesting (CArr xs)" by (induction xs) (auto simp: max_def)
  ultimately have "Suc (nesting x) \<le> d" by linarith
  then show ?thesis by (cases d) auto
qed

lemma reads_head:
  assumes "cbor_head major n = Some h" "major < 8" "major \<noteq> 7" "b = pre @ h @ rest"
  shows "rd (Suc d) b (length pre) =
    (let j = length pre + length h in
     if major = 0 then Inr (CInt (int n), j)
     else if major = 1 then Inr (CInt (-1 - int n), j)
     else if major = 2 then Inr (CBytes (take n (drop j b)), j + n)
     else if major = 3 then (case utf8_decode (take n (drop j b)) of Some s \<Rightarrow> Inr (CText s, j + n) | None \<Rightarrow> Inl Not_Utf8)
     else if major = 4 then bindE (rd_items (rd d b) n j) (\<lambda>(vs, k). Inr (CArr vs, k))
     else if major = 5 then bindE (rd_pairs (rd d b) n j []) (\<lambda>(kvs, k). Inr (CMap kvs, k))
     else Inl Bad_Major)"
  using cbor_head_arg [OF assms(1,2,4)] assms(3) by (auto simp: Let_def)

declare rd.simps(2) [simp del]

lemma sort_key_map: "sort_key f (map g xs) = map g (sort_key (f \<circ> g) xs)"
proof -
  have "insort_key f (g x) (map g ys) = map g (insort_key (f \<circ> g) x ys)" for x ys by (induction ys) auto
  then show ?thesis by (induction xs) auto
qed

lemma by_key_map: "by_key (map (\<lambda>(k, v). (k, f v)) kvs) = map (\<lambda>(k, v). (k, f v)) (by_key kvs)"
  unfolding by_key_def sort_key_map by (simp add: comp_def case_prod_unfold)

lemma set_by_key [simp]: "set (by_key kvs) = set kvs" "length (by_key kvs) = length kvs"
  by (simp_all add: by_key_def)

lemma distinct_by_key: "distinct (map fst kvs) \<Longrightarrow> distinct (map fst (by_key kvs))"
  unfolding by_key_def using distinct_map [of fst kvs] distinct_map [of fst "sort_key (\<lambda>(k, _). the (cbor_encode k)) kvs"] by simp

lemma nesting_pair: "(k, v) \<in> set kvs \<Longrightarrow> nesting (CMap kvs) \<le> d \<Longrightarrow> \<exists>d'. d = Suc d' \<and> nesting v \<le> d'"
proof -
  assume "(k, v) \<in> set kvs" "nesting (CMap kvs) \<le> d"
  moreover have "(k, v) \<in> set kvs \<Longrightarrow> Suc (nesting v) \<le> foldr (\<lambda>(k, v). max (Suc (nesting v))) kvs i" for i
    by (induction kvs) (auto simp: max_def)
  ultimately have "Suc (nesting v) \<le> d" by (metis nesting.simps(2) order_trans)
  then show ?thesis by (cases d) auto
qed

lemma key_ok_sorted: "key_ok k \<Longrightarrow> cbor_sorted k = k \<and> nesting k = 0 \<and> cbor_wf k"
  by (cases k) auto

lemma with_head_Some: "with_head major n r = Some bs \<longleftrightarrow> (\<exists>h rest. cbor_head major n = Some h \<and> r = Some rest \<and> bs = h @ rest)"
  by (auto simp: with_head_def split: option.splits)

lemma map_items:
  assumes "those (map (\<lambda>(k, v). pair_up (cbor_encode k, cbor_encode v)) kvs) = Some items"
  shows "list_all2 (\<lambda>(k, v) (a, b). cbor_encode k = Some a \<and> cbor_encode v = Some b) (by_key kvs) (sort_key fst items)"
proof -
  let ?g = "\<lambda>(k, v). (the (cbor_encode k), the (cbor_encode v))"
  have all: "list_all2 (\<lambda>(k, v) (a, b). cbor_encode k = Some a \<and> cbor_encode v = Some b) kvs items"
    by (rule list_all2_mono [OF those_map [OF assms]]) (auto simp: pair_up_def split: option.splits)
  then have items: "items = map ?g kvs" by (induction rule: list_all2_induct) auto
  have enc: "\<forall>(k, v)\<in>set kvs. cbor_encode k = Some (the (cbor_encode k)) \<and> cbor_encode v = Some (the (cbor_encode v))"
    using all by (induction rule: list_all2_induct) auto
  have "sort_key fst items = map ?g (by_key kvs)"
    unfolding items sort_key_map by (simp add: by_key_def comp_def case_prod_unfold)
  moreover have "list_all2 (\<lambda>x y. (case x of (k, v) \<Rightarrow> \<lambda>(a, b). cbor_encode k = Some a \<and> cbor_encode v = Some b) (?g y)) (by_key kvs) (by_key kvs)"
    by (rule list.rel_refl_strong) (use enc in \<open>auto simp del: option.collapse\<close>)
  ultimately show ?thesis by (simp add: list_all2_map2)
qed

lemma encode_reads: "cbor_encode x = Some bs \<Longrightarrow> cbor_wf x \<Longrightarrow> nesting x \<le> d \<Longrightarrow> reads_at (Suc d) x bs"
proof (induction x arbitrary: bs d rule: cbor_encode.induct)
  case (1 b)
  then show ?case by (auto simp: reads_at_def nth_append rd.simps(2))
next
  case 2
  then show ?case by (auto simp: reads_at_def nth_append rd.simps(2))
next
  case (3 n)
  have "rd (Suc d) (pre @ bs @ post) (length pre) = Inr (CInt n, length pre + length bs)" for pre post
    using 3 reads_head [of 0 "nat n" bs, OF _ _ _ refl] reads_head [of 1 "nat (-1 - n)" bs, OF _ _ _ refl] by (simp split: if_splits)
  then show ?case by (simp add: reads_at_def)
next
  case (4 b)
  then obtain h where "cbor_head 2 (length b) = Some h" "bs = h @ b" by (auto simp: with_head_Some)
  then show ?case using reads_head [of 2 "length b" h] by (auto simp: reads_at_def Let_def)
next
  case (5 s)
  then obtain h b where b: "utf8_encode s = Some b" "cbor_head 3 (length b) = Some h" "bs = h @ b" by (auto simp: with_head_Some split: option.splits)
  have "utf8_decode b = Some s" using b(1) utf8_decode_encode by blast
  then show ?case using b reads_head [of 3 "length b" h] by (auto simp: reads_at_def Let_def)
next
  case (6 xs)
  then obtain h ys where h: "cbor_head 4 (length xs) = Some h" "those (map cbor_encode xs) = Some ys" "bs = h @ concat ys" by (auto simp: with_head_Some)
  have "list_all2 (reads_at d) xs ys"
  proof (rule list.rel_mono_strong [OF those_map [OF h(2)]])
    fix x y assume x: "x \<in> set xs" "y \<in> set ys" "cbor_encode x = Some y"
    from nesting_item [OF x(1) 6(4)] obtain d' where "d = Suc d'" "nesting x \<le> d'" by blast
    then show "reads_at d x y" using 6(1) [OF x(1,3)] 6(3) x(1) by simp
  qed
  note items = rd_items_reads [OF this]
  have "rd (Suc d) (pre @ bs @ post) (length pre) = Inr (cbor_sorted (CArr xs), length pre + length bs)" for pre post
    using reads_head [OF h(1), of "pre @ bs @ post" pre "concat ys @ post" d] items [of "pre @ h" post] h(3) by (simp add: Let_def)
  then show ?case by (simp add: reads_at_def)
next
  case (7 kvs)
  then obtain h items where h: "cbor_head 5 (length kvs) = Some h" "bs = h @ concat (map (\<lambda>(k, v). k @ v) (sort_key fst items))"
    and i: "those (map (\<lambda>(k, v). pair_up (cbor_encode k, cbor_encode v)) kvs) = Some items" by (auto simp: with_head_Some)
  let ?ys = "sort_key fst items"
  have "list_all2 (\<lambda>(k, v) (a, b). reads_at d k a \<and> reads_at d v b \<and> key_ok k \<and> cbor_sorted k = k) (by_key kvs) ?ys"
  proof (rule list.rel_mono_strong [OF map_items [OF i]], clarsimp)
    fix k v a b assume x: "(k, v) \<in> set kvs" "cbor_encode k = Some a" "cbor_encode v = Some b"
    from nesting_pair [OF x(1) 7(5)] obtain d' where d: "d = Suc d'" "nesting v \<le> d'" by blast
    have wf: "key_ok k" "cbor_wf v" using 7(4) x(1) by auto
    show "reads_at d k a \<and> reads_at d v b \<and> key_ok k \<and> cbor_sorted k = k"
      using 7(1) [OF x(1) refl x(2), of d'] 7(2) [OF x(1) refl x(3), of d'] wf key_ok_sorted [OF wf(1)] d by simp
  qed
  note pairs = rd_pairs_reads [OF this, of "[]"]
  have "rd (Suc d) (pre @ bs @ post) (length pre) = Inr (cbor_sorted (CMap kvs), length pre + length bs)" for pre post
    using reads_head [OF h(1), of "pre @ bs @ post" pre "concat (map (\<lambda>(k, v). k @ v) ?ys) @ post" d] pairs [of "pre @ h" post] h(2)
      distinct_by_key [of kvs] 7(4) by (simp add: Let_def by_key_map)
  then show ?case by (simp add: reads_at_def)
qed

lemma cbor_decode_encode:
  assumes "cbor_encode x = Some bs" "cbor_wf x" "nesting x \<le> CBOR_MAX_DEPTH"
  shows "cbor_decode bs = Inr (cbor_sorted x)"
  using reads_atD [OF encode_reads [OF assms], of "[]" "[]"] by (simp add: cbor_decode_def)

text \<open>
  CBOR round trip: whatever \<^verbatim>\<open>cbor_encode\<close> writes for a value whose map keys are distinct integers, texts or byte strings and whose
  nesting is at most 64, \<^verbatim>\<open>cbor_decode\<close> reads back as that value, with the items of every map in the order of their encoded keys.
\<close>

theorem cbor_roundtrip:
  assumes "cbor_encode x = Some bs" "cbor_wf x" "nesting x \<le> CBOR_MAX_DEPTH"
  shows "cbor_decode bs = Inr (cbor_sorted x)"
  by (rule cbor_decode_encode [OF assms])

lemma be_bytes_numeral: "be_bytes (numeral k) n = be_bytes (pred_numeral k) (n div 256) @ [of_nat (n mod 256)]"
  by (simp only: numeral_eq_Suc [of k] be_bytes.simps)

theorem cbor_roundtrip_witness:
  "\<exists>bs. cbor_encode (CArr [CMap [(CInt 395, CInt (-8)), (CInt 1, CBytes [7])], CNull]) = Some bs \<and>
    cbor_decode bs = Inr (CArr [CMap [(CInt 1, CBytes [7]), (CInt 395, CInt (-8))], CNull])"
proof -
  let ?x = "CArr [CMap [(CInt 395, CInt (-8)), (CInt 1, CBytes [7])], CNull]"
  have e: "cbor_encode ?x = Some [130, 162, 1, 65, 7, 25, 1, 139, 39, 246]"
    by (simp add: with_head_def cbor_head_def pair_up_def be_bytes_numeral)
  have s: "cbor_sorted ?x = CArr [CMap [(CInt 1, CBytes [7]), (CInt 395, CInt (-8))], CNull]"
    by (simp add: by_key_def cbor_head_def be_bytes_numeral)
  show ?thesis using cbor_roundtrip [OF e] e unfolding s by (simp add: CBOR_MAX_DEPTH_def)
qed

end
