(* ===== verification/Receipt.thy ===== *)
theory Receipt
  imports Checkpoint Cbor Tree_History
begin

text \<open>
  Portable receipts (\<^verbatim>\<open>src/cryptovalid_receipt.py\<close>): the signed tree head, inclusion and consistency receipts in JSON, their
  offline verification, and the COSE form. JSON values are those without floating point numbers; what a verifier answers is
  kept as accepted, refused or raised, without the text of the reason.
\<close>

section \<open>Python conversions\<close>

text \<open>\<^verbatim>\<open>int(s)\<close> on a text: blanks around, a sign, decimal digits with single underscores between them, at most 4300 digits.\<close>

fun underscore_dec :: "nat \<Rightarrow> bool \<Rightarrow> pystr \<Rightarrow> nat option" where
  "underscore_dec acc after_digit [] = (if after_digit then Some acc else None)"
| "underscore_dec acc after_digit (c # cs) =
     (if c = 95 then (if after_digit then underscore_dec acc False cs else None)
      else if is_digit c then underscore_dec (10 * acc + (c - 48)) True cs else None)"

definition unsigned_dec :: "pystr \<Rightarrow> nat option" where
  "unsigned_dec s = (if length (filter is_digit s) > 4300 then None else underscore_dec 0 False s)"

definition py_int10 :: "pystr \<Rightarrow> int option" where
  "py_int10 s =
     (case strip_spaces (map to_ascii_digit s) of
        [] \<Rightarrow> None
      | c # cs \<Rightarrow>
          if c = 45 then map_option (\<lambda>n. - int n) (unsigned_dec cs)
          else if c = 43 then map_option int (unsigned_dec cs)
          else map_option int (unsigned_dec (c # cs)))"

fun py_int :: "json \<Rightarrow> int option" where
  "py_int (JInt n) = Some n"
| "py_int (JBool b) = Some (if b then 1 else 0)"
| "py_int (JStr s) = py_int10 s"
| "py_int _ = None"

text \<open>Iterating over a decoded value: the elements of an array, the characters of a text, the keys of an object.\<close>

fun py_iter :: "json \<Rightarrow> json list option" where
  "py_iter (JArr vs) = Some vs"
| "py_iter (JStr s) = Some (map (\<lambda>c. JStr [c]) s)"
| "py_iter (JObj kvs) = Some (map (\<lambda>(k, _). JStr k) kvs)"
| "py_iter _ = None"

fun hex_json :: "json \<Rightarrow> bytes option" where
  "hex_json (JStr s) = fromhex s"
| "hex_json _ = None"

definition hex_path :: "json \<Rightarrow> bytes list option" where
  "hex_path v = (case py_iter v of Some vs \<Rightarrow> those (map hex_json vs) | None \<Rightarrow> None)"

text \<open>\<^verbatim>\<open>d[k]\<close>, which raises when the key is missing.\<close>

definition item :: "entry \<Rightarrow> string \<Rightarrow> json option" where
  "item e k = map_of e (lit k)"

section \<open>Signed tree heads\<close>

definition STH_KIND :: pystr where
  "STH_KIND = lit ''cryptovalid_sth/1''"

definition RECEIPT_KIND :: pystr where
  "RECEIPT_KIND = lit ''cryptovalid_receipt/1''"

definition VDS_NAME :: pystr where
  "VDS_NAME = lit ''RFC9162_SHA256''"

definition sth_payload :: "json \<Rightarrow> json \<Rightarrow> json \<Rightarrow> bytes" where
  "sth_payload sz rt ts =
     canonical_bytes (JObj [(lit ''kind'', JStr STH_KIND), (lit ''root_sha256'', rt), (lit ''tree_size'', sz), (lit ''ts'', ts)])"

definition signed_tree_head :: "('x crypto_scheme) \<Rightarrow> signing_key \<Rightarrow> bytes list \<Rightarrow> pystr \<Rightarrow> entry" where
  "signed_tree_head C sk leaves ts =
     (let rt = JStr (hex_of (mth (sha256 C) leaves)); sz = JInt (int (length leaves)) in
      [(lit ''kind'', JStr STH_KIND), (lit ''tree_size'', sz), (lit ''root_sha256'', rt), (lit ''ts'', JStr ts),
       (lit ''signature_hex'', JStr (hex_of (sk_sign sk (sth_payload sz rt (JStr ts))))), (lit ''log_pubkey_hex'', JStr (hex_of (sk_public sk)))])"

text \<open>The signature check inside the \<^verbatim>\<open>try\<close>: a missing field, a text that is not hexadecimal or a key of a wrong length is an invalid signature.\<close>

definition sth_signature_valid :: "('x crypto_scheme) \<Rightarrow> entry \<Rightarrow> json \<Rightarrow> bool" where
  "sth_signature_valid C sth pk =
     (case (hex_json pk, item sth ''signature_hex'', item sth ''tree_size'', item sth ''root_sha256'', item sth ''ts'') of
        (Some k, Some sg, Some sz, Some rt, Some ts) \<Rightarrow>
          (case hex_json sg of
             Some s \<Rightarrow> length k = 32 \<and> ed_verify C k s (sth_payload sz rt ts)
           | None \<Rightarrow> False)
      | _ \<Rightarrow> False)"

record sth_check =
  sth_ok :: bool
  sth_signature :: "bool option"

definition verify_sth :: "('x crypto_scheme) \<Rightarrow> entry \<Rightarrow> pystr option \<Rightarrow> sth_check" where
  "verify_sth C sth trusted =
     (if get sth ''kind'' \<noteq> JStr STH_KIND then \<lparr>sth_ok = False, sth_signature = None\<rparr>
      else
        let pk = (if given trusted then JStr (the trusted) else get sth ''log_pubkey_hex'') in
        if given trusted \<and> get sth ''log_pubkey_hex'' \<noteq> JStr (the trusted) then \<lparr>sth_ok = False, sth_signature = None\<rparr>
        else if sth_signature_valid C sth pk then \<lparr>sth_ok = given trusted, sth_signature = Some True\<rparr>
        else \<lparr>sth_ok = False, sth_signature = Some False\<rparr>)"

section \<open>Issuing receipts\<close>

text \<open>
  The ledger is given by its entries. \<open>None\<close>: the index is outside. The optional timestamp token (\<^verbatim>\<open>_stamp\<close>, a network service) is an
  argument.
\<close>

definition inclusion_receipt :: "('x crypto_scheme) \<Rightarrow> signing_key \<Rightarrow> entry list \<Rightarrow> int \<Rightarrow> pystr \<Rightarrow> json \<Rightarrow> json option \<Rightarrow> entry option" where
  "inclusion_receipt C sk es index ts scope tsa =
     (let leaves = map canonical_payload es in
      if \<not> (0 \<le> index \<and> index < int (length leaves)) then None
      else
        let sth = signed_tree_head C sk leaves ts; e = es ! nat index in
        map_option (\<lambda>hs.
          [(lit ''kind'', JStr RECEIPT_KIND), (lit ''proof_type'', JStr (lit ''inclusion'')), (lit ''vds'', JStr VDS_NAME),
           (lit ''leaf_index'', JInt index), (lit ''tree_size'', JInt (int (length leaves))),
           (lit ''inclusion_path'', JArr (map (\<lambda>h. JStr (hex_of h)) hs)),
           (lit ''leaf_sha256'', JStr (hex_of (leaf_hash (sha256 C) (leaves ! nat index)))), (lit ''entry_self_hash'', get e ''self_hash''),
           (lit ''sth'', JObj sth), (lit ''issued'', JStr ts), (lit ''scope'', scope)] @
          (case tsa of Some t \<Rightarrow> [(lit ''tsa'', t)] | None \<Rightarrow> []))
          (inclusion_proof (sha256 C) index leaves))"

text \<open>\<open>None\<close>: the old head has no usable size or rt (the code raises).\<close>

definition consistency_receipt :: "('x crypto_scheme) \<Rightarrow> signing_key \<Rightarrow> entry \<Rightarrow> entry list \<Rightarrow> pystr \<Rightarrow> entry option" where
  "consistency_receipt C sk old_sth es ts =
     (let leaves = map canonical_payload es; n2 = int (length leaves);
          failed = (\<lambda>n1. [(lit ''kind'', JStr RECEIPT_KIND), (lit ''proof_type'', JStr (lit ''consistency'')), (lit ''ok'', JBool False),
            (lit ''tree_size_1'', JInt n1), (lit ''tree_size_2'', JInt n2)]) in
      case item old_sth ''tree_size'' of
        None \<Rightarrow> None
      | Some v \<Rightarrow> (case py_int v of
          None \<Rightarrow> None
        | Some n1 \<Rightarrow>
            if n1 = 0 then Some (failed 0)
            else if n2 < n1 then Some (failed n1)
            else
              let sth = signed_tree_head C sk leaves ts in
              (case ((if 0 < n1 \<and> n1 < n2 then consistency_proof (sha256 C) n1 leaves else Some []), item old_sth ''root_sha256'') of
                 (Some hs, Some root_1) \<Rightarrow>
                   Some [(lit ''kind'', JStr RECEIPT_KIND), (lit ''proof_type'', JStr (lit ''consistency'')), (lit ''vds'', JStr VDS_NAME),
                     (lit ''tree_size_1'', JInt n1), (lit ''tree_size_2'', JInt n2), (lit ''root_1'', root_1),
                     (lit ''root_2'', get sth ''root_sha256''), (lit ''consistency_path'', JArr (map (\<lambda>h. JStr (hex_of h)) hs)),
                     (lit ''sth'', JObj sth), (lit ''issued'', JStr ts)]
               | _ \<Rightarrow> None)))"

section \<open>Verifying receipts\<close>

text \<open>\<^verbatim>\<open>_verify_inclusion_from_leaf_hash\<close>: unlike \<^verbatim>\<open>verify_inclusion\<close> it stops at a path that is too long. \<open>None\<close>: that case.\<close>

fun leaf_run :: "hashf \<Rightarrow> int \<Rightarrow> int \<Rightarrow> bytes \<Rightarrow> bytes list \<Rightarrow> (int \<times> bytes) option" where
  "leaf_run H fn sn r [] = Some (sn, r)"
| "leaf_run H fn sn r (p # ps) =
     (if sn = 0 then None
      else if odd fn \<or> fn = sn
      then (let (fn', sn') = strip_even fn sn in leaf_run H (drop_bit 1 fn') (drop_bit 1 sn') (node_hash H p r) ps)
      else leaf_run H (drop_bit 1 fn) (drop_bit 1 sn) (node_hash H r p) ps)"

definition verify_leaf_hash :: "hashf \<Rightarrow> int \<Rightarrow> int \<Rightarrow> bytes \<Rightarrow> bytes list \<Rightarrow> bytes \<Rightarrow> bool" where
  "verify_leaf_hash H m n leaf proof rt =
     (if m \<ge> n \<or> (n > 0 \<and> m < 0) then False
      else (case leaf_run H m (n - 1) leaf proof of None \<Rightarrow> False | Some (sn, r) \<Rightarrow> sn = 0 \<and> r = rt))"

text \<open>\<^verbatim>\<open>consistency_roots\<close>: the two roots that a path and the old root give.\<close>

definition consistency_roots :: "hashf \<Rightarrow> int \<Rightarrow> int \<Rightarrow> bytes list \<Rightarrow> bytes \<Rightarrow> (bytes \<times> bytes) option" where
  "consistency_roots H m n proof old_root =
     (if m = n then (if proof = [] then Some (old_root, old_root) else None)
      else if m \<le> 0 \<or> m > n then None
      else
        case (if and m (m - 1) = 0 then old_root # proof else proof) of
          [] \<Rightarrow> None
        | p0 # cs \<Rightarrow>
            (let (fn, sn) = strip_odd (m - 1) (n - 1) in
             case consistency_run H fn sn p0 p0 cs of
               None \<Rightarrow> None
             | Some (fn', sn', fr, sr) \<Rightarrow> if sn' = 0 then Some (fr, sr) else None))"

datatype outcome3 = Accepted | Refused | Raised

text \<open>
  The two proof types. \<open>lower\<close> is \<^verbatim>\<open>str.lower\<close>. A \<^verbatim>\<open>KeyError\<close>, \<^verbatim>\<open>ValueError\<close> or \<^verbatim>\<open>TypeError\<close> is a refusal; the \<^verbatim>\<open>AttributeError\<close> of a
  \<^verbatim>\<open>root_1\<close> that is not a text is not caught.
\<close>

definition verdict :: "bool \<Rightarrow> outcome3" where
  "verdict ok = (if ok then Accepted else Refused)"

definition verify_inclusion_part :: "('x crypto_scheme) \<Rightarrow> entry \<Rightarrow> entry \<Rightarrow> bytes option \<Rightarrow> outcome3" where
  "verify_inclusion_part C r sth leaf_canonical =
     (case leaf_canonical of
        None \<Rightarrow> Refused
      | Some data \<Rightarrow>
          (case (item r ''tree_size'', item sth ''tree_size'', item r ''inclusion_path'', item r ''leaf_sha256'', item sth ''root_sha256'', item r ''leaf_index'') of
             (Some n, Some n', Some pv, Some lv, Some rv, Some m) \<Rightarrow>
               (case (py_int n, py_int n', hex_path pv, hex_json rv, as_int m, as_int n) of
                  (Some i, Some i', Some hs, Some rt, Some m', Some n'') \<Rightarrow>
                    verdict (i = i' \<and> JStr (hex_of (leaf_hash (sha256 C) data)) = lv \<and>
                      verify_leaf_hash (sha256 C) m' n'' (leaf_hash (sha256 C) data) hs rt)
                | _ \<Rightarrow> Refused)
           | _ \<Rightarrow> Refused))"

definition verify_consistency_part :: "('x crypto_scheme) \<Rightarrow> (pystr \<Rightarrow> pystr) \<Rightarrow> entry \<Rightarrow> entry \<Rightarrow> pystr option \<Rightarrow> outcome3" where
  "verify_consistency_part C lower r sth trusted_root_1 =
     (if item r ''ok'' = Some (JBool False) then Refused
      else (case (item r ''tree_size_1'', item r ''tree_size_2'') of
          (Some v1, Some v2) \<Rightarrow>
            (case (py_int v1, py_int v2) of
               (Some n1, Some n2) \<Rightarrow>
                 if \<not> given trusted_root_1 then Refused
                 else (case item r ''root_1'' of
                     None \<Rightarrow> Refused
                   | Some (JStr root_1) \<Rightarrow>
                       if lower root_1 \<noteq> lower (the trusted_root_1) then Refused
                       else (case (item sth ''root_sha256'', item r ''root_2'', item sth ''tree_size'') of
                           (Some rs, Some root_2, Some sz) \<Rightarrow>
                             if \<not> py_eq rs root_2 then Refused
                             else (case py_int sz of
                                 None \<Rightarrow> Refused
                               | Some n \<Rightarrow>
                                   if n2 \<noteq> n \<or> n1 = 0 then Refused
                                   else if n1 = n2 then verdict (py_eq (JStr root_1) root_2)
                                   else (case item r ''consistency_path'' of
                                       None \<Rightarrow> Refused
                                     | Some pv \<Rightarrow>
                                         (case (hex_path pv, fromhex root_1, hex_json root_2) of
                                            (Some hs, Some r1, Some r2) \<Rightarrow> verdict (verify_consistency (sha256 C) n1 n2 hs r1 r2)
                                          | _ \<Rightarrow> Refused)))
                         | _ \<Rightarrow> Refused)
                   | Some _ \<Rightarrow> Raised)
             | _ \<Rightarrow> Refused)
        | _ \<Rightarrow> Refused))"

definition verify_receipt ::
  "('x crypto_scheme) \<Rightarrow> (pystr \<Rightarrow> pystr) \<Rightarrow> json \<Rightarrow> pystr \<Rightarrow> bytes option \<Rightarrow> pystr option \<Rightarrow> outcome3" where
  "verify_receipt C lower rj trusted leaf_canonical trusted_root_1 =
     (if trusted = [] then Refused
      else (case rj of
          JObj r \<Rightarrow>
            if get r ''kind'' \<noteq> JStr RECEIPT_KIND then Refused
            else if get r ''ok'' \<noteq> JBool False \<and> get r ''vds'' \<noteq> JStr VDS_NAME then Refused
            else (case (if truthy (get r ''sth'') then get r ''sth'' else JObj []) of
                JObj sth \<Rightarrow>
                  if \<not> sth_ok (verify_sth C sth (Some trusted)) then Refused
                  else (case item r ''proof_type'' of
                      None \<Rightarrow> Refused
                    | Some pt \<Rightarrow>
                        if pt = JStr (lit ''inclusion'') then verify_inclusion_part C r sth leaf_canonical
                        else if pt = JStr (lit ''consistency'') then verify_consistency_part C lower r sth trusted_root_1
                        else Refused)
              | _ \<Rightarrow> Refused)
        | _ \<Rightarrow> Refused))"

section \<open>COSE\<close>

definition COSE_ALG_EDDSA :: int where "COSE_ALG_EDDSA = -8"

definition LABEL_VDS :: int where "LABEL_VDS = 395"

definition LABEL_VDP :: int where "LABEL_VDP = 396"

definition VDS_RFC9162_SHA256 :: int where "VDS_RFC9162_SHA256 = 1"

definition PROOF_INCLUSION :: int where "PROOF_INCLUSION = -1"

definition PROOF_CONSISTENCY :: int where "PROOF_CONSISTENCY = -2"

lemmas label_defs = COSE_ALG_EDDSA_def LABEL_VDS_def LABEL_VDP_def VDS_RFC9162_SHA256_def PROOF_INCLUSION_def PROOF_CONSISTENCY_def

definition sig_structure :: "bytes \<Rightarrow> bytes \<Rightarrow> bytes option" where
  "sig_structure protected payload = cbor_encode (CArr [CText (lit ''Signature1''), CBytes protected, CBytes [], CBytes payload])"

fun cbor_of_json :: "json \<Rightarrow> cbor" where
  "cbor_of_json JNull = CNull"
| "cbor_of_json (JBool b) = CBool b"
| "cbor_of_json (JInt n) = CInt n"
| "cbor_of_json (JStr s) = CText s"
| "cbor_of_json (JArr vs) = CArr (map cbor_of_json vs)"
| "cbor_of_json (JObj kvs) = CMap (map (\<lambda>(k, v). (CText k, cbor_of_json v)) kvs)"

definition protected_header :: "bytes \<Rightarrow> cbor" where
  "protected_header pk = CMap [(CInt 1, CInt COSE_ALG_EDDSA), (CInt LABEL_VDS, CInt VDS_RFC9162_SHA256), (CInt 4, CBytes pk)]"

text \<open>The tagged structure, once the proof and the payload are known; a detached payload is signed but not carried.\<close>

definition cose_sign1 :: "signing_key \<Rightarrow> int \<Rightarrow> cbor \<Rightarrow> bytes \<Rightarrow> bool \<Rightarrow> bytes option" where
  "cose_sign1 sk label proof payload detached =
     (case (cbor_encode proof, cbor_encode (protected_header (sk_public sk))) of
        (Some pb, Some protected) \<Rightarrow>
          (case sig_structure protected payload of
             None \<Rightarrow> None
           | Some m \<Rightarrow>
               map_option ((#) 0xD2)
                 (cbor_encode (CArr [CBytes protected, CMap [(CInt LABEL_VDP, CMap [(CInt label, CArr [CBytes pb])])],
                    if detached then CNull else CBytes payload, CBytes (sk_sign sk m)])))
      | _ \<Rightarrow> None)"

text \<open>\<^verbatim>\<open>to_cose\<close>; \<open>None\<close> where it raises.\<close>

definition to_cose :: "signing_key \<Rightarrow> entry \<Rightarrow> bytes option" where
  "to_cose sk r =
     (case item r ''proof_type'' of
        None \<Rightarrow> None
      | Some pt \<Rightarrow>
          if pt = JStr (lit ''inclusion'') then
            (case (item r ''tree_size'', item r ''leaf_index'', item r ''inclusion_path'', item r ''sth'') of
               (Some n, Some m, Some pv, Some (JObj sth)) \<Rightarrow>
                 (case (hex_path pv, item sth ''root_sha256'') of
                    (Some hs, Some rv) \<Rightarrow>
                      (case hex_json rv of
                         Some payload \<Rightarrow> cose_sign1 sk PROOF_INCLUSION (CArr [cbor_of_json n, cbor_of_json m, CArr (map CBytes hs)]) payload False
                       | None \<Rightarrow> None)
                  | _ \<Rightarrow> None)
             | _ \<Rightarrow> None)
          else if get r ''ok'' = JBool False \<or> \<not> has_key r ''consistency_path'' then None
          else
            (case (item r ''tree_size_1'', item r ''tree_size_2'', item r ''consistency_path'', item r ''root_2'') of
               (Some n1, Some n2, Some pv, Some rv) \<Rightarrow>
                 (case (hex_path pv, hex_json rv) of
                    (Some hs, Some payload) \<Rightarrow> cose_sign1 sk PROOF_CONSISTENCY (CArr [cbor_of_json n1, cbor_of_json n2, CArr (map CBytes hs)]) payload True
                  | _ \<Rightarrow> None)
             | _ \<Rightarrow> None))"

text \<open>\<^verbatim>\<open>vdp[label]\<close> for a negative label: the item of a map, or the element from the end when \<^verbatim>\<open>vdp\<close> is an array that contains the label.\<close>

definition vdp_get :: "int \<Rightarrow> cbor \<Rightarrow> cbor option" where
  "vdp_get label vdp =
     (case vdp of
        CMap kvs \<Rightarrow> map_of kvs (CInt label)
      | CArr xs \<Rightarrow> if CInt label \<in> set xs \<and> nat (- label) \<le> length xs then Some (xs ! (length xs - nat (- label))) else None
      | _ \<Rightarrow> None)"

definition index_0 :: "cbor \<Rightarrow> cbor option" where
  "index_0 v = (case v of CArr (x # _) \<Rightarrow> Some x | CMap kvs \<Rightarrow> map_of kvs (CInt 0) | _ \<Rightarrow> None)"

definition cbor_list :: "cbor \<Rightarrow> cbor list option" where
  "cbor_list v =
     (case v of
        CArr xs \<Rightarrow> Some xs
      | CMap kvs \<Rightarrow> Some (map fst kvs)
      | CBytes b \<Rightarrow> Some (map (\<lambda>x. CInt (int (unat x))) b)
      | CText s \<Rightarrow> Some (map (\<lambda>c. CText [c]) s)
      | _ \<Rightarrow> None)"

fun cbor_int :: "cbor \<Rightarrow> int option" where
  "cbor_int (CInt n) = Some n"
| "cbor_int (CBool b) = Some (if b then 1 else 0)"
| "cbor_int (CText s) = py_int10 s"
| "cbor_int (CBytes b) = (if list_all (\<lambda>x. x < 128) b then py_int10 (map unat b) else None)"
| "cbor_int _ = None"

fun octets_of :: "cbor \<Rightarrow> bytes option" where
  "octets_of (CBytes b) = Some b"
| "octets_of _ = None"

text \<open>\<open>Outside\<close>: an array of integers where a proof is expected, or a map unpacked into three values; neither is modelled.\<close>

datatype cose_outcome = Cose_Ok | Cose_Refused | Outside

definition cose_verdict :: "bool \<Rightarrow> cose_outcome" where
  "cose_verdict ok = (if ok then Cose_Ok else Cose_Refused)"

definition cose_inclusion ::
  "('x crypto_scheme) \<Rightarrow> bytes \<Rightarrow> bytes \<Rightarrow> cbor \<Rightarrow> bytes \<Rightarrow> cbor \<Rightarrow> pystr option \<Rightarrow> cose_outcome" where
  "cose_inclusion C pk protected payload sig proof leaf_hash_hex =
     (case (payload, proof) of
        (CBytes rt, CArr [CInt n, CInt m, CArr xs]) \<Rightarrow>
          (case (sig_structure protected rt, those (map octets_of xs), leaf_hash_hex) of
             (Some msg, Some hs, Some lh) \<Rightarrow>
               (case fromhex lh of
                  Some leaf \<Rightarrow> cose_verdict (ed_verify C pk sig msg \<and> n \<ge> 0 \<and> m \<ge> 0 \<and> verify_leaf_hash (sha256 C) m n leaf hs rt)
                | None \<Rightarrow> Cose_Refused)
           | _ \<Rightarrow> Cose_Refused)
      | _ \<Rightarrow> Cose_Refused)"

definition cose_consistency ::
  "('x crypto_scheme) \<Rightarrow> (pystr \<Rightarrow> pystr) \<Rightarrow> bytes \<Rightarrow> bytes \<Rightarrow> cbor \<Rightarrow> bytes \<Rightarrow> cbor \<Rightarrow> pystr option \<Rightarrow> cose_outcome" where
  "cose_consistency C lower pk protected payload sig proof trusted_root_1 =
     (case proof of
        CMap _ \<Rightarrow> Outside
      | CArr [v1, v2, pv] \<Rightarrow>
          if \<not> given trusted_root_1 then Cose_Refused
          else (case (cbor_int v1, cbor_int v2, cbor_list pv, fromhex (the trusted_root_1)) of
              (Some n1, Some n2, Some xs, Some old) \<Rightarrow>
                (case those (map octets_of xs) of
                   None \<Rightarrow> Cose_Refused
                 | Some hs \<Rightarrow>
                     (case consistency_roots (sha256 C) n1 n2 hs old of
                        None \<Rightarrow> Cose_Refused
                      | Some (r1, r2) \<Rightarrow>
                          if hex_of r1 \<noteq> lower (the trusted_root_1) then Cose_Refused
                          else if payload \<noteq> CNull \<and> payload \<noteq> CBytes r2 then Cose_Refused
                          else (case sig_structure protected r2 of
                              Some msg \<Rightarrow> cose_verdict (ed_verify C pk sig msg)
                            | None \<Rightarrow> Cose_Refused)))
            | _ \<Rightarrow> Cose_Refused)
      | _ \<Rightarrow> Cose_Refused)"

definition truthy_cbor :: "cbor \<Rightarrow> bool" where
  "truthy_cbor v \<longleftrightarrow> v \<notin> {CNull, CBool False, CInt 0, CBytes [], CText [], CArr [], CMap []}"

text \<open>The proof of a label: a byte string decoded, or outside the model when it is an array.\<close>

definition with_proof :: "cbor \<Rightarrow> (cbor \<Rightarrow> cose_outcome) \<Rightarrow> cose_outcome" where
  "with_proof v f =
     (case index_0 v of
        Some (CBytes pb) \<Rightarrow> (case cbor_decode pb of Inr p \<Rightarrow> f p | Inl _ \<Rightarrow> Cose_Refused)
      | Some (CArr _) \<Rightarrow> Outside
      | _ \<Rightarrow> Cose_Refused)"

definition verify_cose ::
  "('x crypto_scheme) \<Rightarrow> (pystr \<Rightarrow> pystr) \<Rightarrow> bytes \<Rightarrow> pystr \<Rightarrow> pystr option \<Rightarrow> pystr option \<Rightarrow> cose_outcome" where
  "verify_cose C lower cose trusted leaf_hash_hex trusted_root_1 =
     (if take 1 cose \<noteq> [0xD2] then Cose_Refused
      else (case cbor_decode (drop 1 cose) of
          Inr (CArr [CBytes protected, CMap unprotected, payload, CBytes sig]) \<Rightarrow>
            (case (cbor_decode protected, fromhex trusted) of
               (Inr (CMap ph), Some pk) \<Rightarrow>
                 if map_of ph (CInt 1) \<noteq> Some (CInt COSE_ALG_EDDSA) \<or>
                    map_of ph (CInt LABEL_VDS) \<notin> {Some (CInt VDS_RFC9162_SHA256), Some (CBool True)} then Cose_Refused
                 else if map_of ph (CInt 4) \<noteq> Some (CBytes pk) \<or> length pk \<noteq> 32 then Cose_Refused
                 else
                   let v = (case map_of unprotected (CInt LABEL_VDP) of Some v \<Rightarrow> v | None \<Rightarrow> CNull); vdp = (if truthy_cbor v then v else CMap []) in
                   (case vdp_get PROOF_INCLUSION vdp of
                      Some p \<Rightarrow> with_proof p (\<lambda>q. cose_inclusion C pk protected payload sig q leaf_hash_hex)
                    | None \<Rightarrow>
                        (case vdp_get PROOF_CONSISTENCY vdp of
                           Some p \<Rightarrow> with_proof p (\<lambda>q. cose_consistency C lower pk protected payload sig q trusted_root_1)
                         | None \<Rightarrow> Cose_Refused))
             | _ \<Rightarrow> Cose_Refused)
        | _ \<Rightarrow> Cose_Refused))"

section \<open>The two audit path verifiers agree\<close>

lemma leaf_run_dirs:
  "leaf_run H fn sn r ps =
     (if \<exists>l<length ps. snd (snd (dirs l fn sn)) = 0 then None
      else (case foldl (inclusion_step H) (fn, sn, r) ps of (fn', sn', h) \<Rightarrow> Some (sn', h)))"
proof (induction ps arbitrary: fn sn r)
  case (Cons p ps)
  obtain fn' sn' where s: "(if fn = sn \<or> odd fn then strip_even fn sn else (fn, sn)) = (fn', sn')" by fastforce
  have "(\<exists>l<length (p # ps). snd (snd (dirs l fn sn)) = 0) \<longleftrightarrow> sn = 0 \<or> (\<exists>l<length ps. snd (snd (dirs (Suc l) fn sn)) = 0)"
    by (auto simp: less_Suc_eq_0_disj simp del: dirs.simps(2))
  also have "\<dots> \<longleftrightarrow> sn = 0 \<or> (\<exists>l<length ps. snd (snd (dirs l (drop_bit 1 fn') (drop_bit 1 sn'))) = 0)"
    using s by (simp add: Let_def case_prod_beta split: if_splits)
  finally show ?case
    using s Cons.IH [of "drop_bit 1 fn'" "drop_bit 1 sn'"] by (auto split: if_splits)
qed simp

lemma path_not_done:
  assumes "0 \<le> m" "m < int n" "l < length (path n m)"
  shows "snd (snd (dirs l m (int n - 1))) \<noteq> 0"
proof
  assume z: "snd (snd (dirs l m (int n - 1))) = 0"
  obtain t where "n \<le> 2 ^ t" using less_exp less_imp_le by blast
  from dirs_edge [OF this assms(1,2), of 0] assms(3)
  have last: "0 < snd (snd (dirs (length (path n m) - 1) m (int n - 1)))" by auto
  obtain e where "length (path n m) - 1 = l + e" using assms(3) le_Suc_ex [of l "length (path n m) - 1"] by fastforce
  then show False using z last dirs_zero [of e] by (simp add: dirs_add case_prod_beta)
qed

lemma path_done:
  assumes "0 \<le> m" "m < int n"
  shows "snd (snd (dirs (length (path n m)) m (int n - 1))) = 0"
proof -
  obtain t where "n \<le> 2 ^ t" using less_exp less_imp_le by blast
  from dirs_edge [OF this assms, of 0] show ?thesis by auto
qed

lemma foldl_dirs: "fst (snd (foldl (inclusion_step H) (fn, sn, r) ps)) = snd (snd (dirs (length ps) fn sn))"
proof (induction ps arbitrary: fn sn r)
  case (Cons p ps)
  obtain fn' sn' where s: "(if fn = sn \<or> odd fn then strip_even fn sn else (fn, sn)) = (fn', sn')" by fastforce
  then have "\<exists>h. inclusion_step H (fn, sn, r) p = (drop_bit 1 fn', drop_bit 1 sn', h)" by (auto split: if_splits)
  then obtain h where "inclusion_step H (fn, sn, r) p = (drop_bit 1 fn', drop_bit 1 sn', h)" ..
  then have "fst (snd (foldl (inclusion_step H) (fn, sn, r) (p # ps))) = snd (snd (dirs (length ps) (drop_bit 1 fn') (drop_bit 1 sn')))"
    using Cons.IH by simp
  also have "\<dots> = snd (snd (dirs (Suc (length ps)) fn sn))" using s by (simp add: Let_def case_prod_beta split: if_splits)
  finally show ?case by simp
qed simp

lemma verify_leaf_hash_iff:
  assumes "0 < n"
  shows "verify_leaf_hash H m (int n) (leaf_hash H d) p rt \<longleftrightarrow> 0 \<le> m \<and> length p = length (path n m) \<and> verify_inclusion H m (int n) d p rt"
proof (cases "0 \<le> m \<and> m < int n")
  case True
  let ?f = "foldl (inclusion_step H) (m, int n - 1, leaf_hash H d) p"
  have len: "(\<exists>l<length p. snd (snd (dirs l m (int n - 1))) = 0) \<longleftrightarrow> length (path n m) < length p"
  proof
    assume "\<exists>l<length p. snd (snd (dirs l m (int n - 1))) = 0"
    then obtain l where "l < length p" "snd (snd (dirs l m (int n - 1))) = 0" by blast
    then show "length (path n m) < length p" using path_not_done [of m n l] True by fastforce
  qed (use path_done [of m n] True in blast)
  have fin: "fst (snd ?f) = 0 \<longleftrightarrow> length (path n m) \<le> length p"
  proof -
    have "snd (snd (dirs (length p) m (int n - 1))) = 0" if le: "length (path n m) \<le> length p"
    proof -
      obtain e where e: "length p = length (path n m) + e" using le_Suc_ex [OF le] by blast
      obtain ds fn where d: "dirs (length (path n m)) m (int n - 1) = (ds, fn, 0)"
        using path_done [of m n] True by (metis prod.collapse)
      show ?thesis unfolding e dirs_add d using dirs_zero [of e fn] by (simp add: case_prod_beta)
    qed
    moreover have "length (path n m) \<le> length p" if "snd (snd (dirs (length p) m (int n - 1))) = 0"
      using that path_not_done [of m n "length p"] True by fastforce
    ultimately show ?thesis unfolding foldl_dirs by blast
  qed
  obtain a b c where f: "?f = (a, b, c)" by (metis prod_cases3)
  show ?thesis using True len fin assms by (auto simp: verify_leaf_hash_def verify_inclusion_def leaf_run_dirs f)
qed (auto simp: verify_leaf_hash_def verify_inclusion_def assms)

text \<open>
  The receipt's audit path check against the one of the Merkle module: for a tree of at least one leaf
  \<^verbatim>\<open>_verify_inclusion_from_leaf_hash\<close> accepts exactly the paths that \<^verbatim>\<open>verify_inclusion\<close> accepts and whose length is the depth of the
  leaf, at a non-negative index; so it is the stricter of the two.
\<close>

theorem receipt_path_check:
  "verify_leaf_hash H m (int (Suc n)) (leaf_hash H d) p rt \<longleftrightarrow>
     0 \<le> m \<and> length p = length (path (Suc n) m) \<and> verify_inclusion H m (int (Suc n)) d p rt"
  by (rule verify_leaf_hash_iff) simp

lemma roots_recomputed:
  "consistency_roots H (int (Suc m)) n p old = Some (old, new) \<longleftrightarrow> verify_consistency H (int (Suc m)) n p old new"
proof (cases "int (Suc m) = n")
  case False
  show ?thesis
    by (cases "if and (int (Suc m)) (int (Suc m) - 1) = 0 then old # p else p")
      (use False in \<open>auto simp: consistency_roots_def verify_consistency_def Let_def split: prod.splits option.splits if_splits\<close>)
qed (auto simp: consistency_roots_def verify_consistency_def)

text \<open>
  Recomputing instead of comparing: \<^verbatim>\<open>consistency_roots\<close> gives the old root back together with a new root exactly when
  \<^verbatim>\<open>verify_consistency\<close> accepts the path between these two roots, for every old size of at least one leaf.
\<close>

theorem consistency_roots_iff:
  "consistency_roots H (int (Suc m)) n p old = Some (old, new) \<longleftrightarrow> verify_consistency H (int (Suc m)) n p old new"
  by (rule roots_recomputed)

lemma old_root_recomputed:
  assumes "(if length old < length leaves then consistency_proof H (int (length old)) leaves else Some []) = Some p"
    and "old \<noteq> []" "old = take (length old) leaves" "length old \<le> length leaves"
  shows "consistency_roots H (int (length old)) (int (length leaves)) p (mth H old) = Some (mth H old, mth H leaves)"
proof -
  obtain m where m: "length old = Suc m" using assms(2) by (cases old) auto
  have "verify_consistency H (int (length old)) (int (length leaves)) p (mth H old) (mth H leaves)"
  proof (cases "length old < length leaves")
    case True
    then show ?thesis using consistency_accepts [of H "int (length old)" leaves p] assms(1,3) by simp
  next
    case False
    then show ?thesis using assms by (simp add: verify_consistency_def)
  qed
  then show ?thesis unfolding m roots_recomputed .
qed

section \<open>What an accepted inclusion receipt shows\<close>

definition head_payload :: "('x crypto_scheme) \<Rightarrow> bytes list \<Rightarrow> pystr \<Rightarrow> bytes" where
  "head_payload C leaves ts = sth_payload (JInt (int (length leaves))) (JStr (hex_of (mth (sha256 C) leaves))) (JStr ts)"

text \<open>A log key that signs nothing but heads of the given trees.\<close>

definition signs_heads :: "('x crypto_scheme) \<Rightarrow> bytes \<Rightarrow> bytes list set \<Rightarrow> bool" where
  "signs_heads C pk trees \<longleftrightarrow>
     (\<forall>sg msg. ed_verify C pk sg msg \<longrightarrow>
       (\<exists>leaves\<in>trees. \<exists>ts. int (length leaves) \<le> SAFE_INT \<and> list_all scalar ts \<and> msg = head_payload C leaves ts))"

lemma hex_scalar: "list_all scalar (hex_of bs)"
  using hex_of_plain [of _ bs] by (fastforce simp: list_all_iff scalar_def)

lemma lit_scalar: "list_all (\<lambda>c. c < 128) (map of_char s :: nat list) \<Longrightarrow> list_all scalar (lit s)"
  by (auto simp: lit_def list_all_iff scalar_def)

lemma sth_payload_json_wf:
  assumes "json_wf sz" "json_wf rt" "json_wf ts"
  shows "json_wf (JObj [(lit ''kind'', JStr STH_KIND), (lit ''root_sha256'', rt), (lit ''tree_size'', sz), (lit ''ts'', ts)])"
  using assms by (simp add: STH_KIND_def scalar_def)

lemma sth_payload_inj:
  assumes "sth_payload sz rt ts = sth_payload (JInt n) (JStr h) (JStr t)" "json_wf sz" "json_wf rt" "json_wf ts"
    and "\<bar>n\<bar> \<le> SAFE_INT" "list_all scalar h" "list_all scalar t"
  shows "sz = JInt n \<and> rt = JStr h"
proof -
  have wf: "json_wf (JInt n)" "json_wf (JStr h)" "json_wf (JStr t)" using assms(5-) by simp_all
  have "sorted_keys (JObj [(lit ''kind'', JStr STH_KIND), (lit ''root_sha256'', rt), (lit ''tree_size'', sz), (lit ''ts'', ts)]) =
      sorted_keys (JObj [(lit ''kind'', JStr STH_KIND), (lit ''root_sha256'', JStr h), (lit ''tree_size'', JInt n), (lit ''ts'', JStr t)])"
    by (rule canonical_bytes_inj [OF sth_payload_json_wf [OF assms(2-4)] sth_payload_json_wf [OF wf]]) (use assms(1) in \<open>simp only: sth_payload_def\<close>)
  then have "sorted_keys sz = JInt n \<and> sorted_keys rt = JStr h" by simp
  then show ?thesis by (cases sz; cases rt) auto
qed

lemma item_wf: "json_wf (JObj t) \<Longrightarrow> item t k = Some v \<Longrightarrow> json_wf v"
  by (auto simp: item_def list_all_iff dest!: map_of_SomeD)

lemma hex_json_JStr [simp]: "hex_json (JStr (hex_of bs)) = Some bs"
  by (simp add: fromhex_hex_of)

lemma py_int_as_int: "as_int v = Some n \<Longrightarrow> py_int v = Some n"
  by (cases v) auto

lemma verify_sth_trusted:
  assumes "sth_ok (verify_sth C sth (Some t))"
  shows "sth_signature_valid C sth (JStr t)"
  using assms by (auto simp: verify_sth_def given_def Let_def split: if_splits)

lemma sth_signed_head:
  assumes "sth_ok (verify_sth C sth (Some t))" "fromhex t = Some pk" "signs_heads C pk trees" "json_wf (JObj sth)"
  obtains leaves where "leaves \<in> trees" "item sth ''tree_size'' = Some (JInt (int (length leaves)))"
    "item sth ''root_sha256'' = Some (JStr (hex_of (mth (sha256 C) leaves)))"
proof -
  obtain sg sz rt ts s where i: "item sth ''tree_size'' = Some sz" "item sth ''root_sha256'' = Some rt" "item sth ''ts'' = Some ts"
    and v: "ed_verify C pk s (sth_payload sz rt ts)"
    using verify_sth_trusted [OF assms(1)] assms(2) by (auto simp: sth_signature_valid_def split: option.splits)
  obtain leaves t' where l: "leaves \<in> trees" "int (length leaves) \<le> SAFE_INT" "list_all scalar t'"
    "sth_payload sz rt ts = head_payload C leaves t'" using assms(3) v unfolding signs_heads_def by blast
  have "sz = JInt (int (length leaves)) \<and> rt = JStr (hex_of (mth (sha256 C) leaves))"
    by (rule sth_payload_inj [OF _ item_wf [OF assms(4) i(1)] item_wf [OF assms(4) i(2)] item_wf [OF assms(4) i(3)]])
      (use l hex_scalar in \<open>simp_all add: head_payload_def\<close>)
  then show ?thesis using that l(1) i by simp
qed

lemma strip_even_neg: "strip_even fn sn = (fn', sn') \<Longrightarrow> sn < 0 \<Longrightarrow> sn' < 0"
proof (induction fn sn rule: strip_even.induct)
  case (1 fn sn)
  then show ?case using strip_even.simps [of fn sn] by (cases "even fn \<and> fn \<noteq> 0") auto
qed

lemma leaf_run_neg: "leaf_run H fn sn r ps = Some (sn', h) \<Longrightarrow> sn < 0 \<Longrightarrow> sn' < 0"
proof (induction ps arbitrary: fn sn r)
  case (Cons p ps)
  obtain a b where s: "strip_even fn sn = (a, b)" by fastforce
  then have "b < 0" using strip_even_neg Cons.prems(2) by blast
  then show ?case using Cons s by (auto split: if_splits)
qed simp

lemma verify_leaf_hash_empty: "\<not> verify_leaf_hash H m 0 leaf p rt"
proof (cases "leaf_run H m (-1) leaf p")
  case (Some x)
  obtain sn h where x: "x = (sn, h)" by (cases x)
  then show ?thesis using leaf_run_neg [of H m "-1" leaf p sn h] Some by (simp add: verify_leaf_hash_def)
qed (simp add: verify_leaf_hash_def)

lemma verify_receipt_parts:
  assumes "verify_receipt C lower (JObj r) t leaf root1 = Accepted"
  obtains sth where "get r ''sth'' = JObj sth" "sth_ok (verify_sth C sth (Some t))" "t \<noteq> []"
    "(item r ''proof_type'' = Some (JStr (lit ''inclusion'')) \<and> verify_inclusion_part C r sth leaf = Accepted) \<or>
     (item r ''proof_type'' = Some (JStr (lit ''consistency'')) \<and> verify_consistency_part C lower r sth root1 = Accepted)"
proof -
  have none: "\<not> sth_ok (verify_sth C [] (Some t))" by (simp add: verify_sth_def get_def)
  define s where "s = (if truthy (get r ''sth'') then get r ''sth'' else JObj [])"
  have acc: "t \<noteq> []" "(case s of JObj sth \<Rightarrow>
      if \<not> sth_ok (verify_sth C sth (Some t)) then Refused
      else (case item r ''proof_type'' of
          None \<Rightarrow> Refused
        | Some pt \<Rightarrow>
            if pt = JStr (lit ''inclusion'') then verify_inclusion_part C r sth leaf
            else if pt = JStr (lit ''consistency'') then verify_consistency_part C lower r sth root1
            else Refused)
    | _ \<Rightarrow> Refused) = Accepted"
    using assms unfolding verify_receipt_def s_def [symmetric] json.case by (simp_all split: if_splits)
  then obtain sth where s: "s = JObj sth" by (cases s) simp_all
  have ok: "sth_ok (verify_sth C sth (Some t))" using acc(2) s by (simp split: if_splits)
  then have "sth \<noteq> []" using none by auto
  then have g: "get r ''sth'' = JObj sth" using s unfolding s_def by (simp split: if_splits)
  obtain pt where pt: "item r ''proof_type'' = Some pt" using acc(2) s ok by (cases "item r ''proof_type''") simp_all
  show ?thesis
  proof (rule that [OF g ok acc(1)])
    show "(item r ''proof_type'' = Some (JStr (lit ''inclusion'')) \<and> verify_inclusion_part C r sth leaf = Accepted) \<or>
       (item r ''proof_type'' = Some (JStr (lit ''consistency'')) \<and> verify_consistency_part C lower r sth root1 = Accepted)"
      using acc(2) s ok pt by (simp split: if_splits)
  qed
qed

lemma inclusion_part_accepted:
  assumes "verify_inclusion_part C r sth (Some d) = Accepted"
  obtains n n' rv m hs rt i where "item r ''tree_size'' = Some n" "item sth ''tree_size'' = Some n'" "item sth ''root_sha256'' = Some rv"
    "item r ''leaf_index'' = Some m" "hex_json rv = Some rt" "as_int n = Some i" "py_int n' = Some i"
    "verify_leaf_hash (sha256 C) (the (as_int m)) i (leaf_hash (sha256 C) d) hs rt" "as_int m \<noteq> None"
proof -
  obtain n n' pv lv rv m where i: "item r ''tree_size'' = Some n" "item sth ''tree_size'' = Some n'" "item r ''inclusion_path'' = Some pv"
      "item r ''leaf_sha256'' = Some lv" "item sth ''root_sha256'' = Some rv" "item r ''leaf_index'' = Some m"
    using assms by (auto simp: verify_inclusion_part_def split: option.splits)
  obtain a b hs rt x y where v: "py_int n = Some a" "py_int n' = Some b" "hex_path pv = Some hs" "hex_json rv = Some rt" "as_int m = Some x" "as_int n = Some y"
    using assms i by (auto simp: verify_inclusion_part_def split: option.splits)
  have "a = b \<and> verify_leaf_hash (sha256 C) x y (leaf_hash (sha256 C) d) hs rt"
    using assms i v by (auto simp: verify_inclusion_part_def verdict_def split: if_splits)
  moreover have "a = y" using v py_int_as_int by fastforce
  ultimately show ?thesis using that [of n n' rv m rt y hs] i v by auto
qed

lemma receipt_inclusion:
  assumes hash32: "\<And>x. length (sha256 C x) = 32" and key: "fromhex t = Some pk" "signs_heads C pk trees" and wf: "json_wf (JObj r)"
    and ok: "verify_receipt C lower (JObj r) t (Some d) root1 = Accepted" "item r ''proof_type'' = Some (JStr (lit ''inclusion''))"
  shows "\<exists>leaves\<in>trees. \<exists>i hs. as_int (get r ''leaf_index'') = Some i \<and> 0 \<le> i \<and> i < int (length leaves) \<and>
    (d = leaves ! nat i \<or> collision (sha256 C) (mth_inputs (sha256 C) leaves \<union> inclusion_inputs (sha256 C) i (int (length leaves)) d hs))"
proof -
  have "item r ''proof_type'' \<noteq> Some (JStr (lit ''consistency''))" using ok(2) by simp
  with verify_receipt_parts [OF ok(1)] obtain sth
    where sth: "get r ''sth'' = JObj sth" "sth_ok (verify_sth C sth (Some t))" "verify_inclusion_part C r sth (Some d) = Accepted" by blast
  have "json_wf (JObj sth)" using get_wf [OF wf, of "''sth''"] sth(1) by simp
  from sth_signed_head [OF sth(2) key this] obtain leaves where l: "leaves \<in> trees" "item sth ''tree_size'' = Some (JInt (int (length leaves)))"
    "item sth ''root_sha256'' = Some (JStr (hex_of (mth (sha256 C) leaves)))" by blast
  from sth(3) obtain n n' rv m hs rt i where p: "item sth ''tree_size'' = Some n'" "item sth ''root_sha256'' = Some rv"
    "item r ''leaf_index'' = Some m" "hex_json rv = Some rt" "py_int n' = Some i"
    "verify_leaf_hash (sha256 C) (the (as_int m)) i (leaf_hash (sha256 C) d) hs rt" "as_int m \<noteq> None"
    by (rule inclusion_part_accepted)
  obtain j where j: "as_int m = Some j" using p(7) by blast
  have v: "verify_leaf_hash (sha256 C) j (int (length leaves)) (leaf_hash (sha256 C) d) hs (mth (sha256 C) leaves)"
    using p l j by (auto simp: fromhex_hex_of)
  have n: "0 < length leaves" using v verify_leaf_hash_empty [of "sha256 C" j] by (cases leaves) auto
  have inc: "0 \<le> j" "verify_inclusion (sha256 C) j (int (length leaves)) d hs (mth (sha256 C) leaves)"
    using v unfolding verify_leaf_hash_iff [OF n] by simp_all
  then have "j < int (length leaves)" by (auto simp: verify_inclusion_def split: if_splits)
  moreover have "get r ''leaf_index'' = m" using p(3) by (simp add: get_def item_def)
  ultimately show ?thesis using inclusion_binds [OF hash32 inc] l(1) j inc(1) by auto
qed

section \<open>Issued receipts are accepted\<close>

lemma length_inclusion_proof: "inclusion_proof H m D = Some p \<Longrightarrow> length p = length (path (length D) m)"
proof (induction H m D arbitrary: p rule: inclusion_proof.induct)
  case (1 H m D)
  show ?case
  proof (cases "length D < 2")
    case True
    then show ?thesis using 1(3) by (subst (asm) inclusion_proof.simps, subst path.simps) (auto simp: Let_def split: if_splits)
  next
    case False
    let ?k = "largest_pow2_below (length D)"
    have k: "?k \<le> length D" using largest_pow2_below_bounds [of "length D"] False by simp
    have D: "D \<noteq> []" "length D \<noteq> Suc 0" using False by auto
    have m: "0 \<le> m \<and> m < int (length D)" using inclusion_proof_defined [of H m D] 1(3) by simp
    have eq: "inclusion_proof H m D =
        (if m < int ?k then map_option (\<lambda>p. p @ [mth H (drop ?k D)]) (inclusion_proof H m (take ?k D))
         else map_option (\<lambda>p. p @ [mth H (take ?k D)]) (inclusion_proof H (m - int ?k) (drop ?k D)))"
      using D inclusion_proof_defined [of H m D] 1(3) by (subst inclusion_proof.simps) (simp add: Let_def)
    have path: "path (length D) m = (if m < int ?k then False # path ?k m else True # path (length D - ?k) (m - int ?k))"
      using False by (subst path.simps) (simp add: Let_def)
    show ?thesis
    proof (cases "m < int ?k")
      case True
      then obtain q where q: "inclusion_proof H m (take ?k D) = Some q" "p = q @ [mth H (drop ?k D)]" using 1(3) eq by auto
      have "length q = length (path (length (take ?k D)) m)" using 1(1) [of "length D" ?k q] q(1) D m True by simp
      then show ?thesis using q path True k by simp
    next
      case gt: False
      then obtain q where q: "inclusion_proof H (m - int ?k) (drop ?k D) = Some q" "p = q @ [mth H (take ?k D)]" using 1(3) eq by auto
      have "length q = length (path (length (drop ?k D)) (m - int ?k))" using 1(2) [of "length D" ?k q] q(1) D m gt by simp
      then show ?thesis using q path gt by simp
    qed
  qed
qed

lemma hex_nonempty: "length bs = 32 \<Longrightarrow> hex_of bs \<noteq> []"
  by (cases bs) (simp_all add: hex_of_def)

definition signs_head :: "('x crypto_scheme) \<Rightarrow> signing_key \<Rightarrow> bytes list \<Rightarrow> pystr \<Rightarrow> bool" where
  "signs_head C sk leaves ts \<longleftrightarrow>
     length (sk_public sk) = 32 \<and> ed_verify C (sk_public sk) (sk_sign sk (head_payload C leaves ts)) (head_payload C leaves ts)"

lemma honest_signs_head: "honest_key C sk \<Longrightarrow> signs_head C sk leaves ts"
  by (simp add: honest_key_def signs_head_def)

lemma honest_hex: "signs_head C sk leaves ts \<Longrightarrow> hex_of (sk_public sk) \<noteq> []"
  by (rule hex_nonempty) (simp add: signs_head_def)

lemma issued_sth:
  assumes "signs_head C sk leaves ts"
  shows "sth_ok (verify_sth C (signed_tree_head C sk leaves ts) (Some (hex_of (sk_public sk))))"
proof -
  have "hex_of (sk_public sk) \<noteq> []" using honest_hex assms by blast
  then show ?thesis
    using assms
    by (simp add: verify_sth_def sth_signature_valid_def signed_tree_head_def Let_def get_def item_def given_def signs_head_def head_payload_def fromhex_hex_of)
qed

lemma sth_fields:
  "item (signed_tree_head C sk leaves ts) ''tree_size'' = Some (JInt (int (length leaves)))"
  "item (signed_tree_head C sk leaves ts) ''root_sha256'' = Some (JStr (hex_of (mth (sha256 C) leaves)))"
  by (simp_all add: signed_tree_head_def Let_def item_def)

lemma hex_path_map [simp]: "hex_path (JArr (map (\<lambda>h. JStr (hex_of h)) hs)) = Some hs"
proof -
  have "those (map (\<lambda>h. fromhex (hex_of h)) hs) = Some hs" by (induction hs) (simp_all add: fromhex_hex_of)
  then show ?thesis by (simp add: hex_path_def comp_def)
qed

lemma issued_inclusion_fields:
  assumes "inclusion_receipt C sk es i ts scope tsa = Some r"
  obtains hs where "inclusion_proof (sha256 C) i (map canonical_payload es) = Some hs" "0 \<le> i" "i < int (length es)"
    "get r ''kind'' = JStr RECEIPT_KIND" "get r ''vds'' = JStr VDS_NAME" "get r ''sth'' = JObj (signed_tree_head C sk (map canonical_payload es) ts)"
    "item r ''proof_type'' = Some (JStr (lit ''inclusion''))" "item r ''leaf_index'' = Some (JInt i)" "item r ''tree_size'' = Some (JInt (int (length es)))"
    "item r ''inclusion_path'' = Some (JArr (map (\<lambda>h. JStr (hex_of h)) hs))"
    "item r ''leaf_sha256'' = Some (JStr (hex_of (leaf_hash (sha256 C) (canonical_payload (es ! nat i)))))"
  using assms
  by (auto simp: inclusion_receipt_def Let_def get_def item_def nat_less_iff split: if_splits)

lemma issued_inclusion:
  assumes "signs_head C sk (map canonical_payload es) ts" "inclusion_receipt C sk es i ts scope tsa = Some r"
  shows "verify_receipt C lower (JObj r) (hex_of (sk_public sk)) (Some (canonical_payload (es ! nat i))) root1 = Accepted"
proof -
  let ?leaves = "map canonical_payload es" and ?d = "canonical_payload (es ! nat i)"
  from assms(2) obtain hs where f: "inclusion_proof (sha256 C) i ?leaves = Some hs" "0 \<le> i" "i < int (length es)"
    and g: "get r ''kind'' = JStr RECEIPT_KIND" "get r ''vds'' = JStr VDS_NAME" "get r ''sth'' = JObj (signed_tree_head C sk ?leaves ts)"
    and h: "item r ''proof_type'' = Some (JStr (lit ''inclusion''))" "item r ''leaf_index'' = Some (JInt i)" "item r ''tree_size'' = Some (JInt (int (length es)))"
      "item r ''inclusion_path'' = Some (JArr (map (\<lambda>h. JStr (hex_of h)) hs))"
      "item r ''leaf_sha256'' = Some (JStr (hex_of (leaf_hash (sha256 C) ?d)))"
    by (rule issued_inclusion_fields)
  have n: "0 < length es" "?leaves ! nat i = ?d" using f by auto
  have "verify_leaf_hash (sha256 C) i (int (length es)) (leaf_hash (sha256 C) ?d) hs (mth (sha256 C) ?leaves)"
    unfolding verify_leaf_hash_iff [OF n(1)]
    using inclusion_accepts [OF f(1)] length_inclusion_proof [OF f(1)] f(2) n(2) by simp
  then have part: "verify_inclusion_part C r (signed_tree_head C sk ?leaves ts) (Some ?d) = Accepted"
    by (simp add: verify_inclusion_part_def h sth_fields verdict_def fromhex_hex_of)
  have "hex_of (sk_public sk) \<noteq> []" using honest_hex assms by blast
  moreover have "signed_tree_head C sk ?leaves ts \<noteq> []" by (simp add: signed_tree_head_def Let_def)
  ultimately show ?thesis
    using issued_sth [OF assms(1)] part by (simp add: verify_receipt_def g h)
qed

lemma issued_consistency_fields:
  assumes "consistency_receipt C sk (signed_tree_head C sk' old ts') es ts = Some r" "0 < length old" "length old \<le> length es"
  obtains hs where "(if length old < length es then consistency_proof (sha256 C) (int (length old)) (map canonical_payload es) else Some []) = Some hs"
    "get r ''kind'' = JStr RECEIPT_KIND" "get r ''vds'' = JStr VDS_NAME" "get r ''sth'' = JObj (signed_tree_head C sk (map canonical_payload es) ts)"
    "item r ''ok'' = None" "item r ''proof_type'' = Some (JStr (lit ''consistency''))" "item r ''tree_size_1'' = Some (JInt (int (length old)))"
    "item r ''tree_size_2'' = Some (JInt (int (length es)))" "item r ''root_1'' = Some (JStr (hex_of (mth (sha256 C) old)))"
    "item r ''root_2'' = Some (JStr (hex_of (mth (sha256 C) (map canonical_payload es))))"
    "item r ''consistency_path'' = Some (JArr (map (\<lambda>h. JStr (hex_of h)) hs))"
  using assms sth_fields [of C sk' old ts'] sth_fields(2) [of C sk "map canonical_payload es" ts]
  by (auto simp: consistency_receipt_def Let_def get_def item_def split: if_splits option.splits)

lemma issued_consistency:
  assumes "signs_head C sk (map canonical_payload es) ts" "consistency_receipt C sk (signed_tree_head C sk' old ts') es ts = Some r"
    and hash32: "\<And>x. length (sha256 C x) = 32" and old: "old \<noteq> []" "old = take (length old) (map canonical_payload es)"
  shows "verify_receipt C lower (JObj r) (hex_of (sk_public sk)) leaf (Some (hex_of (mth (sha256 C) old))) = Accepted"
proof -
  let ?leaves = "map canonical_payload es" and ?H = "sha256 C"
  have len: "0 < length old" "length old \<le> length es" using old by (simp, metis length_map length_take min.cobounded1)
  from assms(2) len obtain hs where c: "(if length old < length es then consistency_proof ?H (int (length old)) ?leaves else Some []) = Some hs"
    and g: "get r ''kind'' = JStr RECEIPT_KIND" "get r ''vds'' = JStr VDS_NAME" "get r ''sth'' = JObj (signed_tree_head C sk ?leaves ts)"
    and h: "item r ''ok'' = None" "item r ''proof_type'' = Some (JStr (lit ''consistency''))" "item r ''tree_size_1'' = Some (JInt (int (length old)))"
      "item r ''tree_size_2'' = Some (JInt (int (length es)))" "item r ''root_1'' = Some (JStr (hex_of (mth ?H old)))"
      "item r ''root_2'' = Some (JStr (hex_of (mth ?H ?leaves)))" "item r ''consistency_path'' = Some (JArr (map (\<lambda>h. JStr (hex_of h)) hs))"
    by (rule issued_consistency_fields)
  have v: "verify_consistency ?H (int (length old)) (int (length es)) hs (mth ?H old) (mth ?H ?leaves)" if "length old \<noteq> length es"
    using consistency_accepts [of ?H "int (length old)" ?leaves hs] c that len(2) old(2) by simp
  have e: "length old = length es \<Longrightarrow> old = ?leaves" using old(2) by simp
  have "given (Some (hex_of (mth ?H old)))" using hex_nonempty [OF length_mth [OF hash32]] by (simp add: given_def)
  then have part: "verify_consistency_part C lower r (signed_tree_head C sk ?leaves ts) (Some (hex_of (mth ?H old))) = Accepted"
    using v e len(1) by (cases "length old = length es") (simp_all add: verify_consistency_part_def h sth_fields verdict_def fromhex_hex_of)
  moreover have "signed_tree_head C sk ?leaves ts \<noteq> []" by (simp add: signed_tree_head_def Let_def)
  ultimately show ?thesis
    using issued_sth [OF assms(1)] honest_hex [OF assms(1)] by (simp add: verify_receipt_def g h)
qed

text \<open>
  What the log issues is accepted: an inclusion receipt for an entry of the ledger verifies under the log's key against that
  entry, and a consistency receipt from an earlier head verifies against the earlier root.
\<close>

theorem issued_receipts_verify:
  assumes "honest_key C sk" "\<And>x. length (sha256 C x) = 32"
  shows "(case inclusion_receipt C sk es i ts scope tsa of
      Some r \<Rightarrow> verify_receipt C lower (JObj r) (hex_of (sk_public sk)) (Some (canonical_payload (es ! nat i))) x = Accepted
    | None \<Rightarrow> \<not> (0 \<le> i \<and> i < int (length es))) \<and>
   (if 0 < k \<and> k \<le> length es then
     (case consistency_receipt C sk (signed_tree_head C sk (take k (map canonical_payload es)) ts') es ts of
       Some r \<Rightarrow> verify_receipt C lower (JObj r) (hex_of (sk_public sk)) y (Some (hex_of (mth (sha256 C) (take k (map canonical_payload es))))) = Accepted
     | None \<Rightarrow> False) else True)"
proof (rule conjI)
  show "case inclusion_receipt C sk es i ts scope tsa of
      Some r \<Rightarrow> verify_receipt C lower (JObj r) (hex_of (sk_public sk)) (Some (canonical_payload (es ! nat i))) x = Accepted
    | None \<Rightarrow> \<not> (0 \<le> i \<and> i < int (length es))"
  proof (cases "inclusion_receipt C sk es i ts scope tsa")
    case None
    then show ?thesis using inclusion_proof_defined [of "sha256 C" i "map canonical_payload es"] by (auto simp: inclusion_receipt_def Let_def split: if_splits)
  qed (use issued_inclusion [OF honest_signs_head [OF assms(1)]] in auto)
  let ?old = "take k (map canonical_payload es)"
  show "if 0 < k \<and> k \<le> length es then
     (case consistency_receipt C sk (signed_tree_head C sk ?old ts') es ts of
       Some r \<Rightarrow> verify_receipt C lower (JObj r) (hex_of (sk_public sk)) y (Some (hex_of (mth (sha256 C) ?old))) = Accepted
     | None \<Rightarrow> False) else True"
  proof (cases "0 < k \<and> k \<le> length es")
    case True
    then have k: "length ?old = k" "?old \<noteq> []" by auto
    obtain hs where "(if 0 < int k \<and> k < length es then consistency_proof (sha256 C) (int k) (map canonical_payload es) else Some []) = Some hs"
      using consistency_defined [of "int k" "map canonical_payload es" "sha256 C"] True by (cases "k < length es") auto
    then have "\<exists>r. consistency_receipt C sk (signed_tree_head C sk ?old ts') es ts = Some r"
      using True k sth_fields [of C sk ?old ts'] by (auto simp: consistency_receipt_def Let_def)
    then show ?thesis using True issued_consistency [OF honest_signs_head [OF assms(1)] _ assms(2), of sk ?old ts' es ts] k by auto
  qed auto
qed

theorem issued_receipts_verify_witness:
  "honest_key example_note_crypto (example_key 1) \<and>
   (case inclusion_receipt example_note_crypto (example_key 1) example_ledger 1 [] JNull None of
      Some r \<Rightarrow> verify_receipt example_note_crypto id (JObj r) (hex_of (sk_public (example_key 1))) (Some (canonical_payload (example_ledger ! nat 1))) None = Accepted
    | None \<Rightarrow> \<not> (0 \<le> (1::int) \<and> 1 < int (length example_ledger))) \<and>
   (if 0 < (1::nat) \<and> 1 \<le> length example_ledger then
     (case consistency_receipt example_note_crypto (example_key 1) (signed_tree_head example_note_crypto (example_key 1) (take 1 (map canonical_payload example_ledger)) []) example_ledger [] of
       Some r \<Rightarrow> verify_receipt example_note_crypto id (JObj r) (hex_of (sk_public (example_key 1))) None
         (Some (hex_of (mth (sha256 example_note_crypto) (take 1 (map canonical_payload example_ledger))))) = Accepted
     | None \<Rightarrow> False) else True)"
  by (rule conjI [OF example_key_honest issued_receipts_verify [OF example_key_honest]]) simp


text \<open>A log that has signed one head, for evaluating the statement.\<close>

definition head_crypto :: note_crypto where
  "head_crypto = example_note_crypto\<lparr>ed_verify := (\<lambda>pk sg m. sg = example_sign pk m \<and>
     m = head_payload example_note_crypto (map canonical_payload example_ledger) example_ts)\<rparr>"

lemma head_crypto_simps [simp]:
  "sha256 head_crypto = example_hash"
  "ed_verify head_crypto pk sg m \<longleftrightarrow> sg = example_sign pk m \<and> m = head_payload example_note_crypto (map canonical_payload example_ledger) example_ts"
  by (simp_all add: head_crypto_def)

lemma head_payload_example: "head_payload head_crypto leaves ts = head_payload example_note_crypto leaves ts"
  by (simp add: head_payload_def)

lemma head_crypto_signs:
  "signs_head head_crypto (example_key 1) (map canonical_payload example_ledger) example_ts"
  "signs_heads head_crypto pk {map canonical_payload example_ledger}"
proof -
  show "signs_head head_crypto (example_key 1) (map canonical_payload example_ledger) example_ts"
    by (simp add: signs_head_def head_payload_example example_key_def)
  have "length example_ledger \<le> 2" by (simp add: example_ledger_length)
  then show "signs_heads head_crypto pk {map canonical_payload example_ledger}"
    using example_ts_scalar by (auto simp: signs_heads_def head_payload_example SAFE_INT_def)
qed

lemma issued_inclusion_wf:
  assumes "inclusion_receipt C sk es i ts scope None = Some r" "\<forall>e\<in>set es. entry_wf e" "list_all scalar ts" "json_wf scope" "int (length es) \<le> SAFE_INT"
  shows "json_wf (JObj r)"
proof -
  have "0 \<le> i" "i < int (length es)" using assms(1) by (auto simp: inclusion_receipt_def Let_def split: if_splits)
  then have "es ! nat i \<in> set es" "\<bar>i\<bar> \<le> SAFE_INT" using assms(5) by auto
  then have sh: "json_wf (get (es ! nat i) ''self_hash'')" using assms(2) get_wf [of "es ! nat i"] by (auto simp: entry_wf_def)
  have sth: "json_wf (JObj (signed_tree_head C sk leaves ts))" if "int (length leaves) \<le> SAFE_INT" for leaves
    using that assms(3) hex_scalar by (simp add: signed_tree_head_def Let_def STH_KIND_def scalar_def)
  have "json_wf (JArr (map (\<lambda>h. JStr (hex_of h)) hs))" for hs using hex_scalar by (simp add: list_all_iff)
  then show ?thesis
    using assms sh sth [of "map canonical_payload es"] \<open>\<bar>i\<bar> \<le> SAFE_INT\<close> hex_scalar
    by (auto simp: inclusion_receipt_def Let_def RECEIPT_KIND_def VDS_NAME_def scalar_def split: if_splits)
qed


section \<open>The COSE form is read back\<close>

lemma protected_header_decode:
  assumes "cbor_encode (protected_header pk) = Some p"
  shows "cbor_decode p = Inr (CMap [(CInt 1, CInt COSE_ALG_EDDSA), (CInt 4, CBytes pk), (CInt LABEL_VDS, CInt VDS_RFC9162_SHA256)])"
proof -
  have "cbor_decode p = Inr (cbor_sorted (protected_header pk))"
    by (rule cbor_decode_encode [OF assms]) (simp_all add: protected_header_def LABEL_VDS_def CBOR_MAX_DEPTH_def)
  moreover have "cbor_sorted (protected_header pk) = CMap [(CInt 1, CInt COSE_ALG_EDDSA), (CInt 4, CBytes pk), (CInt LABEL_VDS, CInt VDS_RFC9162_SHA256)]"
    by (simp add: protected_header_def by_key_def cbor_head_def be_bytes_numeral LABEL_VDS_def)
  ultimately show ?thesis by simp
qed

lemma cose_sign1_decode:
  assumes "cose_sign1 sk label proof payload det = Some bs" "cbor_wf proof" "nesting proof \<le> CBOR_MAX_DEPTH"
  obtains protected pb msg where "take 1 bs = [0xD2]"
    "cbor_decode (drop 1 bs) = Inr (CArr [CBytes protected, CMap [(CInt LABEL_VDP, CMap [(CInt label, CArr [CBytes pb])])],
      if det then CNull else CBytes payload, CBytes (sk_sign sk msg)])"
    "sig_structure protected payload = Some msg" "cbor_encode (protected_header (sk_public sk)) = Some protected" "cbor_decode pb = Inr (cbor_sorted proof)"
proof -
  obtain pb protected msg where e: "cbor_encode proof = Some pb" "cbor_encode (protected_header (sk_public sk)) = Some protected"
    "sig_structure protected payload = Some msg"
    using assms(1) unfolding cose_sign1_def by (auto split: option.splits)
  let ?x = "CArr [CBytes protected, CMap [(CInt LABEL_VDP, CMap [(CInt label, CArr [CBytes pb])])],
      if det then CNull else CBytes payload, CBytes (sk_sign sk msg)]"
  obtain body where b: "cbor_encode ?x = Some body" "bs = 0xD2 # body"
    using assms(1) e unfolding cose_sign1_def by (auto simp del: cbor_encode.simps)
  have "cbor_decode body = Inr (cbor_sorted ?x)"
    by (rule cbor_decode_encode [OF b(1)]) (simp_all add: CBOR_MAX_DEPTH_def)
  then have "cbor_decode (drop 1 bs) = Inr ?x" using b(2) by (cases det) (simp_all add: by_key_def)
  then show ?thesis using that [of protected pb msg] b(2) e cbor_decode_encode [OF e(1) assms(2,3)] by simp
qed

lemma octets_of_map: "those (map octets_of (map CBytes hs)) = Some hs"
  by (induction hs) simp_all

lemma bytes_proof:
  "cbor_wf (CArr [CInt a, CInt b, CArr (map CBytes hs)])" "nesting (CArr [CInt a, CInt b, CArr (map CBytes hs)]) \<le> CBOR_MAX_DEPTH"
  "cbor_sorted (CArr [CInt a, CInt b, CArr (map CBytes hs)]) = CArr [CInt a, CInt b, CArr (map CBytes hs)]"
proof -
  have "foldr (\<lambda>x. max (Suc (nesting x))) (map CBytes hs) 0 \<le> 1" by (induction hs) auto
  then show "nesting (CArr [CInt a, CInt b, CArr (map CBytes hs)]) \<le> CBOR_MAX_DEPTH" by (simp add: CBOR_MAX_DEPTH_def)
qed (simp_all add: comp_def)

lemma cose_label_get:
  "vdp_get l (CMap [(CInt k, v)]) = (if l = k then Some v else None)"
  by (simp add: vdp_get_def)

lemma verify_cose_signed:
  assumes "honest_key C sk" "cose_sign1 sk label (CArr [CInt a, CInt b, CArr (map CBytes hs)]) payload det = Some bs"
  obtains protected msg where "sig_structure protected payload = Some msg" "ed_verify C (sk_public sk) (sk_sign sk msg) msg"
    "verify_cose C lower bs (hex_of (sk_public sk)) lh root1 =
      (let pl = (if det then CNull else CBytes payload); q = CArr [CInt a, CInt b, CArr (map CBytes hs)] in
       if label = PROOF_INCLUSION then cose_inclusion C (sk_public sk) protected pl (sk_sign sk msg) q lh
       else if label = PROOF_CONSISTENCY then cose_consistency C lower (sk_public sk) protected pl (sk_sign sk msg) q root1
       else Cose_Refused)"
proof -
  from cose_sign1_decode [OF assms(2) bytes_proof(1,2)] obtain protected pb msg where d: "take 1 bs = [0xD2]"
    "cbor_decode (drop 1 bs) = Inr (CArr [CBytes protected, CMap [(CInt LABEL_VDP, CMap [(CInt label, CArr [CBytes pb])])],
      if det then CNull else CBytes payload, CBytes (sk_sign sk msg)])"
    and m: "sig_structure protected payload = Some msg" "cbor_encode (protected_header (sk_public sk)) = Some protected"
      "cbor_decode pb = Inr (CArr [CInt a, CInt b, CArr (map CBytes hs)])" unfolding bytes_proof(3) by blast
  have k: "length (sk_public sk) = 32" "ed_verify C (sk_public sk) (sk_sign sk msg) msg" using assms(1) by (simp_all add: honest_key_def)
  have "verify_cose C lower bs (hex_of (sk_public sk)) lh root1 =
      (case vdp_get PROOF_INCLUSION (CMap [(CInt label, CArr [CBytes pb])]) of
         Some p \<Rightarrow> with_proof p (\<lambda>q. cose_inclusion C (sk_public sk) protected (if det then CNull else CBytes payload) (sk_sign sk msg) q lh)
       | None \<Rightarrow> (case vdp_get PROOF_CONSISTENCY (CMap [(CInt label, CArr [CBytes pb])]) of
           Some p \<Rightarrow> with_proof p (\<lambda>q. cose_consistency C lower (sk_public sk) protected (if det then CNull else CBytes payload) (sk_sign sk msg) q root1)
         | None \<Rightarrow> Cose_Refused))"
    unfolding verify_cose_def d using protected_header_decode [OF m(2)] k(1)
    by (simp add: Let_def fromhex_hex_of truthy_cbor_def label_defs)
  then show ?thesis
    using that [OF m(1) k(2)] m(3) by (auto simp: Let_def cose_label_get with_proof_def index_0_def label_defs)
qed

text \<open>
  C25. COSE round trip: the COSE form of an issued inclusion receipt verifies under the log's key for the leaf hash of the entry, and the one of an
  issued consistency receipt, whose payload is detached, verifies against the earlier root, the newer one being recomputed from the path.
\<close>

theorem cose_receipts_verify:
  assumes key: "honest_key C sk" and hash32: "\<And>x. length (sha256 C x) = 32" and lower: "\<And>bs. lower (hex_of bs) = hex_of bs"
    and inc: "inclusion_receipt C sk es i ts scope tsa = Some r" "to_cose sk r = Some bs"
    and con: "consistency_receipt C sk (signed_tree_head C sk old ts') es ts = Some r'" "to_cose sk r' = Some bs'"
      "old \<noteq> []" "old = take (length old) (map canonical_payload es)"
  shows "verify_cose C lower bs (hex_of (sk_public sk)) (Some (hex_of (leaf_hash (sha256 C) (canonical_payload (es ! nat i))))) None = Cose_Ok \<and>
    verify_cose C lower bs' (hex_of (sk_public sk)) None (Some (hex_of (mth (sha256 C) old))) = Cose_Ok"
proof
  let ?leaves = "map canonical_payload es" and ?H = "sha256 C"
  let ?lh = "Some (hex_of (leaf_hash ?H (canonical_payload (es ! nat i))))" and ?r1 = "Some (hex_of (mth ?H old))"
  obtain hs where f: "inclusion_proof ?H i ?leaves = Some hs" "0 \<le> i" "i < int (length es)" "get r ''sth'' = JObj (signed_tree_head C sk ?leaves ts)"
    and g: "item r ''proof_type'' = Some (JStr (lit ''inclusion''))" "item r ''leaf_index'' = Some (JInt i)" "item r ''tree_size'' = Some (JInt (int (length es)))"
      "item r ''inclusion_path'' = Some (JArr (map (\<lambda>h. JStr (hex_of h)) hs))"
    using inc(1) by (rule issued_inclusion_fields)
  have sth: "item r ''sth'' = Some (JObj (signed_tree_head C sk ?leaves ts))" using f(4) by (simp add: get_def item_def split: option.splits)
  have "cose_sign1 sk PROOF_INCLUSION (CArr [CInt (int (length es)), CInt i, CArr (map CBytes hs)]) (mth ?H ?leaves) False = Some bs"
    using inc(2) by (simp add: to_cose_def g sth sth_fields fromhex_hex_of)
  from verify_cose_signed [OF key this, of lower ?lh None] obtain protected msg where v: "sig_structure protected (mth ?H ?leaves) = Some msg"
    "ed_verify C (sk_public sk) (sk_sign sk msg) msg" "verify_cose C lower bs (hex_of (sk_public sk)) ?lh None =
      cose_inclusion C (sk_public sk) protected (CBytes (mth ?H ?leaves)) (sk_sign sk msg) (CArr [CInt (int (length es)), CInt i, CArr (map CBytes hs)]) ?lh" by (simp add: Let_def) blast
  have n: "0 < length es" "?leaves ! nat i = canonical_payload (es ! nat i)" using f by auto
  have "verify_leaf_hash ?H i (int (length es)) (leaf_hash ?H (canonical_payload (es ! nat i))) hs (mth ?H ?leaves)"
    unfolding verify_leaf_hash_iff [OF n(1)] using inclusion_accepts [OF f(1)] length_inclusion_proof [OF f(1)] f(2) n(2) by simp
  then show "verify_cose C lower bs (hex_of (sk_public sk)) ?lh None = Cose_Ok"
    unfolding v(3) cose_inclusion_def using v(1,2) f(2) octets_of_map [of hs] by (simp add: fromhex_hex_of cose_verdict_def)
  have len: "0 < length old" "length old \<le> length es" using con(3,4) by (simp, metis length_map length_take min.cobounded1)
  obtain ps where c: "(if length old < length es then consistency_proof ?H (int (length old)) ?leaves else Some []) = Some ps"
    and h: "item r' ''ok'' = None" "item r' ''proof_type'' = Some (JStr (lit ''consistency''))" "item r' ''tree_size_1'' = Some (JInt (int (length old)))"
      "item r' ''tree_size_2'' = Some (JInt (int (length es)))" "item r' ''root_2'' = Some (JStr (hex_of (mth ?H ?leaves)))"
      "item r' ''consistency_path'' = Some (JArr (map (\<lambda>h. JStr (hex_of h)) ps))"
    using con(1) len by (rule issued_consistency_fields)
  have "cose_sign1 sk PROOF_CONSISTENCY (CArr [CInt (int (length old)), CInt (int (length es)), CArr (map CBytes ps)]) (mth ?H ?leaves) True = Some bs'"
    using con(2) h by (simp add: to_cose_def get_def has_key_def fromhex_hex_of item_def)
  from verify_cose_signed [OF key this, of lower None ?r1] obtain protected msg where w: "sig_structure protected (mth ?H ?leaves) = Some msg"
    "ed_verify C (sk_public sk) (sk_sign sk msg) msg" "verify_cose C lower bs' (hex_of (sk_public sk)) None ?r1 =
      cose_consistency C lower (sk_public sk) protected CNull (sk_sign sk msg) (CArr [CInt (int (length old)), CInt (int (length es)), CArr (map CBytes ps)]) ?r1" by (simp add: Let_def label_defs) blast
  have "consistency_roots ?H (int (length old)) (int (length es)) ps (mth ?H old) = Some (mth ?H old, mth ?H ?leaves)"
    using old_root_recomputed [of old ?leaves ?H ps] c con(3,4) len by simp
  then show "verify_cose C lower bs' (hex_of (sk_public sk)) None ?r1 = Cose_Ok"
    unfolding w(3) cose_consistency_def
    using w(1,2) octets_of_map [of ps] lower hex_nonempty [OF length_mth [OF hash32]]
    by (simp add: cbor_list_def fromhex_hex_of cose_verdict_def given_def)
qed

text \<open>The encodings exist for paths of at most 64 hashes.\<close>

lemma cbor_head_fits: "n < 2 ^ 64 \<Longrightarrow> \<exists>h. cbor_head major n = Some h \<and> length h \<le> 9"
  by (auto simp: cbor_head_def Let_def)

lemma cbor_bytes_fit: "length b < 2 ^ 64 \<Longrightarrow> \<exists>x. cbor_encode (CBytes b) = Some x \<and> length x \<le> 9 + length b"
  using cbor_head_fits [of "length b" 2] by (auto simp: with_head_def)

lemma cbor_items_fit:
  "\<forall>x\<in>set xs. \<exists>b. cbor_encode x = Some b \<and> length b \<le> k \<Longrightarrow>
    \<exists>ys. those (map cbor_encode xs) = Some ys \<and> length (concat ys) \<le> length xs * k"
proof (induction xs)
  case (Cons x xs)
  then obtain b ys where "cbor_encode x = Some b" "length b \<le> k" "those (map cbor_encode xs) = Some ys" "length (concat ys) \<le> length xs * k" by auto
  then show ?case by auto
qed simp

lemma cbor_arr_fit:
  assumes "\<forall>x\<in>set xs. \<exists>b. cbor_encode x = Some b \<and> length b \<le> k" "length xs < 2 ^ 64"
  shows "\<exists>b. cbor_encode (CArr xs) = Some b \<and> length b \<le> 9 + length xs * k"
  using cbor_items_fit [OF assms(1)] cbor_head_fits [OF assms(2), of 4] by (auto simp: with_head_def)

lemma cbor_int_fit: "0 \<le> a \<Longrightarrow> a < 2 ^ 64 \<Longrightarrow> \<exists>x. cbor_encode (CInt a) = Some x \<and> length x \<le> 9"
  using cbor_head_fits [of "nat a" 0] by (simp add: nat_less_iff)

lemma cbor_map_fit:
  assumes "cbor_encode k = Some a" "cbor_encode v = Some b"
  shows "\<exists>x. cbor_encode (CMap [(k, v)]) = Some x \<and> length x \<le> 9 + length a + length b"
  using cbor_head_fits [of 1 5] assms by (auto simp: with_head_def pair_up_def)

lemma path_encodes:
  assumes hs: "\<forall>h\<in>set hs. length h = 32" "length hs \<le> 64" and a: "0 \<le> a" "a < 2 ^ 64" "0 \<le> b" "b < 2 ^ 64"
  shows "\<exists>pb. cbor_encode (CArr [CInt a, CInt b, CArr (map CBytes hs)]) = Some pb \<and> length pb \<le> 10000"
proof -
  have "\<forall>x\<in>set (map CBytes hs). \<exists>b. cbor_encode x = Some b \<and> length b \<le> 41" 
  proof
    fix x assume "x \<in> set (map CBytes hs)"
    then obtain h where "x = CBytes h" "length h = 32" using hs(1) by auto
    then show "\<exists>b. cbor_encode x = Some b \<and> length b \<le> 41" using cbor_bytes_fit [of h] by (simp del: cbor_encode.simps)
  qed
  then obtain c where c: "cbor_encode (CArr (map CBytes hs)) = Some c" "length c \<le> 9 + length hs * 41"
    using cbor_arr_fit [of "map CBytes hs" 41] hs(2) by auto
  have "\<forall>x\<in>set [CInt a, CInt b, CArr (map CBytes hs)]. \<exists>b. cbor_encode x = Some b \<and> length b \<le> 3000"
    using c hs(2) cbor_int_fit [OF a(1,2)] cbor_int_fit [OF a(3,4)] by (auto simp del: cbor_encode.simps)
  from cbor_arr_fit [OF this] show ?thesis by (auto simp del: cbor_encode.simps)
qed

lemma protected_encodes: "length pk = 32 \<Longrightarrow> \<exists>p. cbor_encode (protected_header pk) = Some p \<and> length p \<le> 100"
  by (simp add: protected_header_def label_defs with_head_def cbor_head_def pair_up_def be_bytes_numeral)

lemma cose_sign1_encodes:
  assumes pb: "cbor_encode proof = Some pb" "length pb \<le> 10000" and sk: "honest_key C sk" and pl: "length payload = 32" and l: "label = -1 \<or> label = -2"
  shows "\<exists>bs. cose_sign1 sk label proof payload det = Some bs"
proof -
  obtain p where p: "cbor_encode (protected_header (sk_public sk)) = Some p" "length p \<le> 100" using protected_encodes sk by (auto simp: honest_key_def)
  have e: "\<exists>x. cbor_encode (CBytes b) = Some x \<and> length x \<le> 20000" if "length b \<le> 10000" for b using cbor_bytes_fit [of b] that by auto
  have "\<forall>x\<in>set [CText (lit ''Signature1''), CBytes p, CBytes [], CBytes payload]. \<exists>b. cbor_encode x = Some b \<and> length b \<le> 20000"
    using e [of p] e [of "[]"] e [of payload] p pl by (auto simp: with_head_def cbor_head_def utf8_char_def simp del: cbor_encode.simps(4))
  from cbor_arr_fit [OF this] obtain msg where m: "sig_structure p payload = Some msg" unfolding sig_structure_def by auto
  obtain y where "cbor_encode (CArr [CBytes pb]) = Some y" using cbor_arr_fit [of "[CBytes pb]" 20000] e [of pb] pb(2) by (auto simp del: cbor_encode.simps)
  then obtain z where "cbor_encode (CMap [(CInt label, CArr [CBytes pb])]) = Some z"
    using cbor_map_fit [of "CInt label" _ "CArr [CBytes pb]" y] l by (auto simp: cbor_head_def simp del: cbor_encode.simps(6,7))
  then obtain u where u: "cbor_encode (CMap [(CInt LABEL_VDP, CMap [(CInt label, CArr [CBytes pb])])]) = Some u"
    using cbor_map_fit [of "CInt LABEL_VDP" _ _ z] by (auto simp: cbor_head_def LABEL_VDP_def simp del: cbor_encode.simps(6,7))
  have "\<forall>x\<in>set [CBytes p, CMap [(CInt LABEL_VDP, CMap [(CInt label, CArr [CBytes pb])])], if det then CNull else CBytes payload, CBytes (sk_sign sk msg)].
      \<exists>b. cbor_encode x = Some b \<and> length b \<le> max 20000 (length u)"
    using e [of p] e [of payload] e [of "sk_sign sk msg"] p pl u sk by (auto simp: honest_key_def le_max_iff_disj simp del: cbor_encode.simps(4,6,7))
  from cbor_arr_fit [OF this] show ?thesis unfolding cose_sign1_def pb(1) p(1) using m by (auto simp del: cbor_encode.simps)
qed

lemma inclusion_hashes: "inclusion_proof H m D = Some p \<Longrightarrow> c \<in> set p \<Longrightarrow> \<exists>E. c = mth H E"
proof (induction H m D arbitrary: p rule: inclusion_proof.induct)
  case (1 H m D)
  have m: "0 \<le> m \<and> m < int (length D)" using inclusion_proof_defined [of H m D] 1(3) by simp
  show ?case
  proof (cases "length D < 2")
    case True
    then show ?thesis using 1(3,4) m by (subst (asm) inclusion_proof.simps) (auto simp: Let_def split: if_splits)
  next
    case False
    then have D: "D \<noteq> []" "length D \<noteq> Suc 0" by auto
    show ?thesis
      using 1(3,4) m D 1(1) [of "length D" "largest_pow2_below (length D)"] 1(2) [of "length D" "largest_pow2_below (length D)"]
      by (subst (asm) inclusion_proof.simps) (auto simp: Let_def split: if_splits)
  qed
qed

lemma example_cose:
  "\<exists>r bs. inclusion_receipt example_note_crypto (example_key 1) example_ledger 1 [] JNull None = Some r \<and> to_cose (example_key 1) r = Some bs"
  "\<exists>r bs. consistency_receipt example_note_crypto (example_key 1) (signed_tree_head example_note_crypto (example_key 1) (take 1 (map canonical_payload example_ledger)) [])
     example_ledger [] = Some r \<and> to_cose (example_key 1) r = Some bs"
proof -
  let ?C = example_note_crypto and ?sk = "example_key 1" and ?es = example_ledger and ?leaves = "map canonical_payload example_ledger"
  have n: "length ?es = 2" by (simp add: example_ledger_length)
  have mth32: "length (mth example_hash D) = 32" for D by (rule length_mth) simp
  obtain r where r: "inclusion_receipt ?C ?sk ?es 1 [] JNull None = Some r"
    using inclusion_proof_defined [of example_hash 1 ?leaves] n by (auto simp: inclusion_receipt_def Let_def)
  then obtain hs where f: "inclusion_proof (sha256 ?C) 1 ?leaves = Some hs" "get r ''sth'' = JObj (signed_tree_head ?C ?sk ?leaves [])"
    and g: "item r ''proof_type'' = Some (JStr (lit ''inclusion''))" "item r ''leaf_index'' = Some (JInt 1)" "item r ''tree_size'' = Some (JInt (int (length ?es)))"
      "item r ''inclusion_path'' = Some (JArr (map (\<lambda>h. JStr (hex_of h)) hs))"
    by (rule issued_inclusion_fields)
  have "length (path 2 1) \<le> 1" by (rule walk_height [OF walk_path]) simp_all
  then have "length hs \<le> 64" using length_inclusion_proof [OF f(1)] n by simp
  moreover have "\<forall>h\<in>set hs. length h = 32" using inclusion_hashes [OF f(1)] mth32 by auto
  ultimately obtain pb where "cbor_encode (CArr [CInt 2, CInt 1, CArr (map CBytes hs)]) = Some pb" "length pb \<le> 10000"
    using path_encodes [of hs 2 1] by auto
  from cose_sign1_encodes [OF this example_key_honest mth32, of "-1" 1 ?leaves False] obtain bs
    where "cose_sign1 ?sk (-1) (CArr [CInt 2, CInt 1, CArr (map CBytes hs)]) (mth example_hash ?leaves) False = Some bs" by auto
  moreover have "item r ''sth'' = Some (JObj (signed_tree_head ?C ?sk ?leaves []))" using f(2) by (simp add: get_def item_def split: option.splits)
  ultimately have "to_cose ?sk r = Some bs" using n by (simp add: to_cose_def g sth_fields fromhex_hex_of PROOF_INCLUSION_def)
  then show "\<exists>r bs. inclusion_receipt ?C ?sk ?es 1 [] JNull None = Some r \<and> to_cose ?sk r = Some bs" using r by blast
  let ?old = "take 1 ?leaves"
  have old: "length ?old = 1" "0 < length ?old" "length ?old \<le> length ?es" using n by simp_all
  obtain ps where ps: "consistency_proof example_hash 1 ?leaves = Some ps" using consistency_defined [of 1 ?leaves] n by auto
  then obtain r' where r': "consistency_receipt ?C ?sk (signed_tree_head ?C ?sk ?old []) ?es [] = Some r'"
    using old n sth_fields [of ?C ?sk ?old "[]"] by (auto simp: consistency_receipt_def Let_def)
  then obtain qs where c: "(if length ?old < length ?es then consistency_proof (sha256 ?C) (int (length ?old)) ?leaves else Some []) = Some qs"
    and h: "item r' ''ok'' = None" "item r' ''proof_type'' = Some (JStr (lit ''consistency''))" "item r' ''tree_size_1'' = Some (JInt (int (length ?old)))"
      "item r' ''tree_size_2'' = Some (JInt (int (length ?es)))" "item r' ''root_2'' = Some (JStr (hex_of (mth (sha256 ?C) ?leaves)))"
      "item r' ''consistency_path'' = Some (JArr (map (\<lambda>h. JStr (hex_of h)) qs))"
    using old(2,3) by (rule issued_consistency_fields)
  have q: "consistency_proof example_hash 1 ?leaves = Some qs" using c n old by simp
  have "length qs \<le> 64" using subproof_size [of example_hash 1 ?leaves True qs 1] q n by (auto simp: consistency_proof_def Let_def split: if_splits)
  moreover have "\<forall>h\<in>set qs. length h = 32" using consistency_hashes [OF q] mth32 by auto
  ultimately obtain pb' where "cbor_encode (CArr [CInt 1, CInt 2, CArr (map CBytes qs)]) = Some pb'" "length pb' \<le> 10000"
    using path_encodes [of qs 1 2] by auto
  from cose_sign1_encodes [OF this example_key_honest mth32, of "-2" 1 ?leaves True] obtain bs'
    where "cose_sign1 ?sk (-2) (CArr [CInt 1, CInt 2, CArr (map CBytes qs)]) (mth example_hash ?leaves) True = Some bs'" by auto
  then have "to_cose ?sk r' = Some bs'"
    using h n old by (simp add: to_cose_def get_def has_key_def fromhex_hex_of item_def PROOF_CONSISTENCY_def)
  then show "\<exists>r bs. consistency_receipt ?C ?sk (signed_tree_head ?C ?sk ?old []) ?es [] = Some r \<and> to_cose ?sk r = Some bs" using r' by blast
qed

theorem cose_receipts_verify_witness:
  "\<exists>bs bs'. verify_cose example_note_crypto id bs (hex_of (sk_public (example_key 1)))
      (Some (hex_of (leaf_hash example_hash (canonical_payload (example_ledger ! nat 1))))) None = Cose_Ok \<and>
    verify_cose example_note_crypto id bs' (hex_of (sk_public (example_key 1))) None
      (Some (hex_of (mth example_hash (take 1 (map canonical_payload example_ledger))))) = Cose_Ok"
proof -
  let ?old = "take 1 (map canonical_payload example_ledger)"
  have old: "?old \<noteq> []" "?old = take (length ?old) (map canonical_payload example_ledger)" using example_ledger_length(1) by auto
  from example_cose obtain r bs r' bs' where
    "inclusion_receipt example_note_crypto (example_key 1) example_ledger 1 [] JNull None = Some r" "to_cose (example_key 1) r = Some bs"
    "consistency_receipt example_note_crypto (example_key 1) (signed_tree_head example_note_crypto (example_key 1) ?old []) example_ledger [] = Some r'"
    "to_cose (example_key 1) r' = Some bs'" by blast
  from cose_receipts_verify [OF example_key_honest _ _ this old, of id] show ?thesis by (auto simp del: One_nat_def)
qed

end
