(* ===== verification/Py_Decimal.thy ===== *)
theory Py_Decimal
  imports Codec
begin

text \<open>
  The \<^verbatim>\<open>decimal.Decimal\<close> values the metric modules compute with: reading a text, \<^verbatim>\<open>quantize\<close> to a number of places with
  the default rounding (half to even) and the default precision of 28 digits, division, truncation to an integer, and
  the text of a quantized value. A finite value is a sign, a coefficient and an exponent, as in \<^verbatim>\<open>as_tuple()\<close>.
\<close>

section \<open>Values and rounding\<close>

datatype pydec =
    Dec bool nat int
  | Dec_Inf bool
  | Dec_NaN bool

definition PREC :: nat where
  "PREC = 28"

text \<open>The nearest integer to \<open>n / d\<close>, ties to the even one.\<close>

definition half_even :: "nat \<Rightarrow> nat \<Rightarrow> nat" where
  "half_even n d = (let q = n div d; r = n mod d in if 2 * r > d \<or> (2 * r = d \<and> odd q) then q + 1 else q)"

text \<open>
  \<^verbatim>\<open>x.quantize(Decimal("0.00..."))\<close> with \<open>k\<close> places: \<open>None\<close> is \<^verbatim>\<open>InvalidOperation\<close> (an infinite or signalling operand, or more
  than 28 digits in the result).
\<close>

fun quantize :: "nat \<Rightarrow> pydec \<Rightarrow> pydec option" where
  "quantize k (Dec s c e) =
     (let c' = (if 0 \<le> e + int k then c * 10 ^ nat (e + int k) else half_even c (10 ^ nat (- (e + int k))))
      in if c' < 10 ^ PREC then Some (Dec s c' (- int k)) else None)"
| "quantize k (Dec_Inf s) = None"
| "quantize k (Dec_NaN signalling) = (if signalling then None else Some (Dec_NaN False))"

text \<open>\<^verbatim>\<open>int(x)\<close> truncates; it raises on infinities and not-a-number.\<close>

fun dec_int :: "pydec \<Rightarrow> int option" where
  "dec_int (Dec s c e) = Some ((if s then - 1 else 1) * int (if 0 \<le> e then c * 10 ^ nat e else c div 10 ^ nat (- e)))"
| "dec_int _ = None"

text \<open>\<^verbatim>\<open>Decimal(n)\<close> of an integer is exact.\<close>

definition dec_of_int :: "int \<Rightarrow> pydec" where
  "dec_of_int n = Dec (n < 0) (nat \<bar>n\<bar>) 0"

text \<open>
  \<^verbatim>\<open>Decimal(a) / Decimal(b)\<close> for \<open>b \<noteq> 0\<close>, rounded to 28 significant digits: the operands' lengths give the power of ten
  that leaves the quotient 28 or 29 digits, and one less in the second case.
\<close>

fun digits :: "nat \<Rightarrow> nat" where
  "digits n = (if n < 10 then 1 else Suc (digits (n div 10)))"

declare digits.simps [simp del]

definition dec_round :: "bool \<Rightarrow> nat \<Rightarrow> nat \<Rightarrow> int \<Rightarrow> pydec" where
  "dec_round s n d sh =
     (let c = (if 0 \<le> sh then half_even (n * 10 ^ nat sh) d else half_even n (d * 10 ^ nat (- sh)))
      in Dec s c (- sh))"

definition dec_div :: "int \<Rightarrow> int \<Rightarrow> pydec" where
  "dec_div a b =
     (let n = nat \<bar>a\<bar>; d = nat \<bar>b\<bar>; s = (a < 0) \<noteq> (b < 0);
          sh = int PREC + int (digits d) - int (digits n);
          q = (if 0 \<le> sh then n * 10 ^ nat sh div d else n div (d * 10 ^ nat (- sh)))
      in dec_round s n d (if q < 10 ^ PREC then sh else sh - 1))"

section \<open>Reading\<close>

definition py_space :: "nat \<Rightarrow> bool" where
  "py_space c \<longleftrightarrow> c_space c \<or> (28 \<le> c \<and> c \<le> 31) \<or> c \<in> set unicode_spaces"

text \<open>\<^verbatim>\<open>str.strip()\<close>.\<close>

definition py_strip :: "pystr \<Rightarrow> pystr" where
  "py_strip s = rev (dropWhile py_space (rev (dropWhile py_space s)))"

definition ascii_lower :: "pystr \<Rightarrow> pystr" where
  "ascii_lower = map (\<lambda>c. if 65 \<le> c \<and> c \<le> 90 then c + 32 else c)"

definition dec_exponent :: "pystr \<Rightarrow> int option" where
  "dec_exponent s =
     (case s of
        [] \<Rightarrow> Some 0
      | x # r \<Rightarrow>
          if x \<noteq> 101 \<and> x \<noteq> 69 then None
          else let neg = (r \<noteq> [] \<and> hd r = 45); ds = (if r \<noteq> [] \<and> (hd r = 45 \<or> hd r = 43) then tl r else r)
            in if ds = [] \<or> \<not> list_all is_digit ds then None
               else Some ((if neg then - 1 else 1) * int (digits_val ds)))"

definition dec_number :: "bool \<Rightarrow> pystr \<Rightarrow> pydec option" where
  "dec_number s t =
     (let ip = takeWhile is_digit t; r = dropWhile is_digit t;
          fp = (if r \<noteq> [] \<and> hd r = 46 then takeWhile is_digit (tl r) else []);
          r' = (if r \<noteq> [] \<and> hd r = 46 then dropWhile is_digit (tl r) else r)
      in if ip = [] \<and> fp = [] then None
         else map_option (\<lambda>e. Dec s (digits_val (ip @ fp)) (e - int (length fp))) (dec_exponent r'))"

definition dec_special :: "bool \<Rightarrow> pystr \<Rightarrow> pydec option" where
  "dec_special s t =
     (let w = ascii_lower t
      in if w = lit ''inf'' \<or> w = lit ''infinity'' then Some (Dec_Inf s)
         else if take 3 w = lit ''nan'' \<and> list_all is_digit (drop 3 w) then Some (Dec_NaN False)
         else if take 4 w = lit ''snan'' \<and> list_all is_digit (drop 4 w) then Some (Dec_NaN True)
         else None)"

text \<open>
  \<^verbatim>\<open>Decimal(s)\<close> of a text: blanks around it and all underscores are dropped, Unicode digits read as digits; \<open>None\<close> is
  \<^verbatim>\<open>InvalidOperation\<close>.
\<close>

definition dec_parse :: "pystr \<Rightarrow> pydec option" where
  "dec_parse s =
     (let t = filter (\<lambda>c. c \<noteq> 95) (map to_ascii_digit (py_strip s));
          neg = (t \<noteq> [] \<and> hd t = 45); u = (if t \<noteq> [] \<and> (hd t = 45 \<or> hd t = 43) then tl t else t)
      in case dec_number neg u of Some d \<Rightarrow> Some d | None \<Rightarrow> dec_special neg u)"

text \<open>\<^verbatim>\<open>Decimal(str(v))\<close> of a decoded value: the text of a boolean, of \<^verbatim>\<open>None\<close>, of a list or of a dictionary is no number.\<close>

fun dec_json :: "json \<Rightarrow> pydec option" where
  "dec_json (JStr s) = dec_parse s"
| "dec_json (JInt n) = Some (dec_of_int n)"
| "dec_json _ = None"

section \<open>Writing\<close>

text \<open>The text of a value with \<open>k\<close> places, \<open>1 \<le> k \<le> 6\<close>: no exponent is written there.\<close>

definition pad :: "nat \<Rightarrow> pystr \<Rightarrow> pystr" where
  "pad k s = replicate (k - length s) 48 @ s"

definition dec_fixed :: "nat \<Rightarrow> bool \<Rightarrow> nat \<Rightarrow> pystr" where
  "dec_fixed k s c = (if s then [45] else []) @ nat_str (c div 10 ^ k) @ 46 # pad k (nat_str (c mod 10 ^ k))"

lemma half_even_1 [simp]: "half_even n 1 = n"
  by (simp add: half_even_def)

lemma quantize_id: "c < 10 ^ PREC \<Longrightarrow> quantize k (Dec s c (- int k)) = Some (Dec s c (- int k))"
  by (simp add: Let_def)

lemma length_nat_str_le: "n < 10 ^ k \<Longrightarrow> 0 < k \<Longrightarrow> length (nat_str n) \<le> k"
proof (induction n arbitrary: k rule: nat_str.induct)
  case (1 n)
  show ?case
  proof (cases "n < 10")
    case True
    then show ?thesis using 1(3) by (simp add: nat_str.simps [of n])
  next
    case False
    obtain j where k: "k = Suc j" using 1(3) by (cases k) auto
    then have "0 < j" using 1(2) False by (cases j) auto
    note j = k this
    have "n div 10 < 10 ^ j" using 1(2) j by (simp add: less_mult_imp_div_less mult.commute)
    then show ?thesis using 1(1) [OF False, of j] False j by (simp add: nat_str.simps [of n])
  qed
qed

lemma digits_val_append: "digits_val (a @ b) = digits_val a * 10 ^ length b + digits_val b"
proof (induction b rule: rev_induct)
  case (snoc c b)
  then show ?case using digits_val_snoc [of "a @ b" c] digits_val_snoc [of b c] by (simp add: algebra_simps)
qed (simp add: digits_val_def)

lemma digits_val_zeros [simp]: "digits_val (replicate m 48) = 0"
  by (induction m) (simp_all add: digits_val_def)

lemma pad_facts:
  assumes "n < 10 ^ k" "0 < k"
  shows "length (pad k (nat_str n)) = k" "digits_val (pad k (nat_str n)) = n" "list_all is_digit (pad k (nat_str n))"
  using length_nat_str_le [OF assms] nat_str_digits [of _ n]
  by (auto simp: pad_def digits_val_append list_all_iff is_digit_def)

lemma digit_plain: "is_digit c \<Longrightarrow> to_ascii_digit c = c \<and> \<not> py_space c \<and> c \<noteq> 95 \<and> c \<noteq> 45 \<and> c \<noteq> 43 \<and> c \<noteq> 46"
  by (auto simp: is_digit_def to_ascii_digit_def py_space_def c_space_def unicode_spaces_def)

lemma py_strip_keep:
  assumes "s \<noteq> []" "\<not> py_space (hd s)" "\<not> py_space (last s)"
  shows "py_strip s = s"
proof -
  have "dropWhile py_space s = s" using assms by (cases s) auto
  moreover have "dropWhile py_space (rev s) = rev s" using assms by (cases s rule: rev_cases) auto
  ultimately show ?thesis by (simp add: py_strip_def)
qed

text \<open>A written value reads back as it was.\<close>

lemma dec_parse_fixed:
  assumes "0 < k"
  shows "dec_parse (dec_fixed k s c) = Some (Dec s c (- int k))"
proof -
  let ?i = "nat_str (c div 10 ^ k)" and ?f = "pad k (nat_str (c mod 10 ^ k))"
  have f: "length ?f = k" "digits_val ?f = c mod 10 ^ k" "list_all is_digit ?f" using pad_facts [of "c mod 10 ^ k" k] assms by auto
  obtain d ds where i: "?i = d # ds" "is_digit d" using nat_str_Cons [of "c div 10 ^ k"] by auto
  have di: "list_all is_digit ?i" using nat_str_digits by (auto simp: list_all_iff)
  have fne: "?f \<noteq> []" using f(1) assms by auto
  then have lf: "is_digit (last ?f)" using f(3) last_in_set [of ?f] by (auto simp: list_all_iff)
  let ?t = "?i @ 46 # ?f"
  have plain: "map to_ascii_digit ?t = ?t" "filter (\<lambda>c. c \<noteq> 95) ?t = ?t"
    using di f(3) digit_plain by (auto simp: list_all_iff filter_id_conv intro!: map_idI) (auto simp: to_ascii_digit_def)
  have sp: "py_strip (dec_fixed k s c) = (if s then [45] else []) @ ?t"
    using i fne digit_plain [OF i(2)] digit_plain [OF lf]
    by (intro trans [OF py_strip_keep]) (auto simp: dec_fixed_def py_space_def c_space_def unicode_spaces_def)
  have tw: "takeWhile is_digit (?i @ 46 # ?f) = ?i" "dropWhile is_digit (?i @ 46 # ?f) = 46 # ?f"
    using di takeWhile_append2 [of ?i is_digit "46 # ?f"] dropWhile_append2 [of ?i is_digit "46 # ?f"] by (simp_all add: list_all_iff is_digit_def)
  have tf: "takeWhile is_digit ?f = ?f" "dropWhile is_digit ?f = []" using f(3) by (simp_all add: list_all_iff takeWhile_eq_all_conv)
  have v: "digits_val (?i @ ?f) = c" using f div_mult_mod_eq [of c "10 ^ k"] by (simp only: digits_val_append digits_val_nat_str)
  have num: "dec_number b ?t = Some (Dec b c (- int k))" for b
    using i(1) v unfolding dec_number_def tw by (simp add: tf f(1) dec_exponent_def)
  have "map to_ascii_digit (py_strip (dec_fixed k s c)) = (if s then [45] else []) @ ?t"
    using plain(1) unfolding sp by (simp add: to_ascii_digit_def)
  then have "filter (\<lambda>c. c \<noteq> 95) (map to_ascii_digit (py_strip (dec_fixed k s c))) = (if s then [45] else []) @ ?t"
    using plain(2) by simp
  then show ?thesis unfolding dec_parse_def using num i digit_plain [OF i(2)] by (simp add: Let_def)
qed

end
