(* ===== verification/Committed_Attestation.thy ===== *)
theory Committed_Attestation
  imports Py_Decimal Py_Utf8 "HOL-Library.Monad_Syntax"
begin

text \<open>
  Attested ratios over a committed ledger (\<^verbatim>\<open>src/committed_attestation.py\<close>): the metric definitions, the Merkle sum tree whose
  root carries the totals, the published commitment and attestation, the challenge, the selective opening and the full
  recomputation. \<open>H\<close> is SHA3-256 and \<open>lower\<close> is \<^verbatim>\<open>str.lower\<close>; records are JSON objects without floating point numbers. A raised
  exception is \<open>None\<close>: a text with a lone surrogate cannot be hashed, a field that is no decimal number cannot be measured.
\<close>

section \<open>Texts that are hashed\<close>

definition text_hash :: "hashf \<Rightarrow> pystr \<Rightarrow> pystr option" where
  "text_hash H s = map_option (\<lambda>bs. hex_of (H bs)) (utf8_encode s)"

text \<open>\<^verbatim>\<open>json.dumps(..., ensure_ascii=False)\<close> with compact separators.\<close>

definition esc_raw :: "nat \<Rightarrow> pystr" where
  "esc_raw c =
     (if c = 34 then [92, 34] else if c = 92 then [92, 92] else if c = 10 then [92, 110]
      else if c = 13 then [92, 114] else if c = 9 then [92, 116] else if c = 12 then [92, 102]
      else if c = 8 then [92, 98] else if c < 32 then 92 # 117 # hex4 c else [c])"

definition raw_str :: "pystr \<Rightarrow> pystr" where
  "raw_str s = 34 # concat (map esc_raw s) @ [34]"

fun dumps_raw :: "json \<Rightarrow> pystr" where
  "dumps_raw JNull = lit ''null''"
| "dumps_raw (JBool b) = (if b then lit ''true'' else lit ''false'')"
| "dumps_raw (JInt n) = int_str n"
| "dumps_raw (JStr s) = raw_str s"
| "dumps_raw (JArr vs) = 91 # join [44] (map dumps_raw vs) @ [93]"
| "dumps_raw (JObj kvs) = 123 # join [44] (map (\<lambda>(key, v). raw_str key @ 58 # dumps_raw v) kvs) @ [125]"

text \<open>\<^verbatim>\<open>_enc\<close>: the parts are given as their \<^verbatim>\<open>str\<close>.\<close>

definition enc_parts :: "pystr list \<Rightarrow> pystr" where
  "enc_parts parts = dumps_raw (JArr (map JStr parts))"

type_synonym loan = "(pystr \<times> json) list"

definition canonical_record :: "loan \<Rightarrow> pystr" where
  "canonical_record rec = dumps_raw (sorted_keys (JObj rec))"

section \<open>Metrics\<close>

text \<open>\<^verbatim>\<open>r.get(k, "0")\<close>.\<close>

definition get_or :: "loan \<Rightarrow> string \<Rightarrow> string \<Rightarrow> json" where
  "get_or r k d = (case map_of r (lit k) of Some v \<Rightarrow> v | None \<Rightarrow> JStr (lit d))"

text \<open>Two places, half to even; after \<^verbatim>\<open>quantize\<close> the product with 100 and its integral value are exact.\<close>

definition to_minor :: "json \<Rightarrow> int option" where
  "to_minor x =
     (case dec_json x of
        None \<Rightarrow> None
      | Some d \<Rightarrow> (case quantize 2 d of Some (Dec s c e) \<Rightarrow> Some ((if s then - 1 else 1) * int c) | _ \<Rightarrow> None))"

record metric_spec =
  metric_id :: pystr
  num_of :: "loan \<Rightarrow> int option"
  den_of :: "loan \<Rightarrow> int option"
  num_le_den :: bool

definition outstanding :: "loan \<Rightarrow> int option" where
  "outstanding r = to_minor (get_or r ''principal_outstanding'' ''0'')"

definition is_at_risk_30 :: "(pystr \<Rightarrow> pystr) \<Rightarrow> loan \<Rightarrow> bool" where
  "is_at_risk_30 lower r =
     (let overdue = (case dec_json (get_or r ''days_overdue'' ''0'') of
                       None \<Rightarrow> 0
                     | Some d \<Rightarrow> (case dec_int d of Some n \<Rightarrow> n | None \<Rightarrow> 0))
      in overdue > 30 \<or>
         (case get_or r ''status'' '''' of
            JStr s \<Rightarrow> lower (py_strip s) \<in> {lit ''renegotiated'', lit ''restructured'', lit ''rescheduled''}
          | _ \<Rightarrow> False))"

definition SPEC_PAR30 :: "(pystr \<Rightarrow> pystr) \<Rightarrow> metric_spec" where
  "SPEC_PAR30 lower = \<lparr>metric_id = lit ''PAR30'',
     num_of = (\<lambda>r. if is_at_risk_30 lower r then outstanding r else Some 0), den_of = outstanding, num_le_den = True\<rparr>"

definition SPEC_WRITEOFF :: metric_spec where
  "SPEC_WRITEOFF = \<lparr>metric_id = lit ''WRITEOFF_RATIO'',
     num_of = (\<lambda>r. to_minor (get_or r ''principal_written_off'' ''0'')), den_of = outstanding, num_le_den = False\<rparr>"

definition KNOWN_BOUNDED :: "pystr \<Rightarrow> bool option" where
  "KNOWN_BOUNDED = map_of [(lit ''PAR30'', True), (lit ''WRITEOFF_RATIO'', False)]"

section \<open>The Merkle sum tree\<close>

record node =
  nhash :: pystr
  nnum :: int
  nden :: int

definition leaf_salt :: "hashf \<Rightarrow> pystr \<Rightarrow> nat \<Rightarrow> pystr option" where
  "leaf_salt H master_salt i = text_hash H (master_salt @ lit ''|leaf|'' @ nat_str i)"

text \<open>The leaf's \<^verbatim>\<open>commit\<close> is returned beside the node; no other function reads it.\<close>

definition leaf_commit :: "hashf \<Rightarrow> loan \<Rightarrow> pystr \<Rightarrow> pystr option" where
  "leaf_commit H rec salt = text_hash H (enc_parts [lit ''commit'', salt, canonical_record rec])"

definition leaf_node :: "hashf \<Rightarrow> loan \<Rightarrow> pystr \<Rightarrow> int \<Rightarrow> int \<Rightarrow> node option" where
  "leaf_node H rec salt num den = do {
     commit \<leftarrow> leaf_commit H rec salt;
     h \<leftarrow> text_hash H (enc_parts [lit ''L'', commit, int_str num, int_str den]);
     Some \<lparr>nhash = h, nnum = num, nden = den\<rparr>
   }"

definition combine :: "hashf \<Rightarrow> node \<Rightarrow> node \<Rightarrow> node option" where
  "combine H l r =
     (let num = nnum l + nnum r; den = nden l + nden r
      in map_option (\<lambda>h. \<lparr>nhash = h, nnum = num, nden = den\<rparr>)
           (text_hash H (enc_parts [lit ''N'', nhash l, nhash r, int_str num, int_str den])))"

fun build_leaves_from :: "hashf \<Rightarrow> pystr \<Rightarrow> metric_spec \<Rightarrow> nat \<Rightarrow> loan list \<Rightarrow> node list option" where
  "build_leaves_from H master_salt spec i [] = Some []"
| "build_leaves_from H master_salt spec i (rec # rs) = do {
     num \<leftarrow> num_of spec rec;
     den \<leftarrow> den_of spec rec;
     if num < 0 \<or> den < 0 then None
     else do {
       salt \<leftarrow> leaf_salt H master_salt i;
       leaf \<leftarrow> leaf_node H rec salt num den;
       rest \<leftarrow> build_leaves_from H master_salt spec (Suc i) rs;
       Some (leaf # rest)
     }
   }"

definition build_leaves :: "hashf \<Rightarrow> loan list \<Rightarrow> pystr \<Rightarrow> metric_spec \<Rightarrow> node list option" where
  "build_leaves H records master_salt spec = build_leaves_from H master_salt spec 0 records"

text \<open>One round of the loop of \<^verbatim>\<open>_levels\<close>: neighbours are combined, an odd last node is promoted.\<close>

fun level_up :: "hashf \<Rightarrow> node list \<Rightarrow> node list option" where
  "level_up H (l # r # rest) = do { x \<leftarrow> combine H l r; xs \<leftarrow> level_up H rest; Some (x # xs) }"
| "level_up H xs = Some xs"

lemma level_up_length: "level_up H xs = Some ys \<Longrightarrow> length ys = (length xs + 1) div 2"
  by (induction H xs arbitrary: ys rule: level_up.induct) (auto split: bind_splits)

function levels_from :: "hashf \<Rightarrow> node list \<Rightarrow> node list list option" where
  "levels_from H cur =
     (if length cur > 1
      then (case level_up H cur of None \<Rightarrow> None | Some nxt \<Rightarrow> map_option (Cons cur) (levels_from H nxt))
      else Some [cur])"
  by pat_completeness auto
termination
  by (relation "measure (\<lambda>(H, cur). length cur)") (auto dest: level_up_length)

declare levels_from.simps [simp del]

definition levels :: "hashf \<Rightarrow> node list \<Rightarrow> node list list option" where
  "levels H leaves = (if leaves = [] then None else levels_from H leaves)"

section \<open>Commitment and attestation\<close>

definition SPEC_VERSION :: pystr where
  "SPEC_VERSION = lit ''CLDMA-2''"

record commitment =
  root_hash :: pystr
  num_total :: int
  den_total :: int
  n_committed :: nat
  c_metric_id :: pystr
  as_of :: pystr
  tree_root :: pystr
  c_num_le_den :: bool

definition bind_meta :: "hashf \<Rightarrow> pystr \<Rightarrow> int \<Rightarrow> pystr \<Rightarrow> pystr \<Rightarrow> int \<Rightarrow> int \<Rightarrow> pystr option" where
  "bind_meta H tr n mid asof num den =
     text_hash H (enc_parts [lit ''CLDMA'', SPEC_VERSION, mid, asof, int_str n, tr, int_str num, int_str den])"

definition commit_ledger :: "hashf \<Rightarrow> loan list \<Rightarrow> pystr \<Rightarrow> metric_spec \<Rightarrow> pystr \<Rightarrow> commitment option" where
  "commit_ledger H records master_salt spec asof = do {
     leaves \<leftarrow> build_leaves H records master_salt spec;
     lv \<leftarrow> levels H leaves;
     let rt = hd (last lv);
     h \<leftarrow> bind_meta H (nhash rt) (int (length records)) (metric_id spec) asof (nnum rt) (nden rt);
     Some \<lparr>root_hash = h, num_total = nnum rt, den_total = nden rt, n_committed = length records,
           c_metric_id = metric_id spec, as_of = asof, tree_root = nhash rt, c_num_le_den = num_le_den spec\<rparr>
   }"

definition metric_numerical_hash :: "hashf \<Rightarrow> pystr \<Rightarrow> pystr \<Rightarrow> pystr \<Rightarrow> int \<Rightarrow> int \<Rightarrow> pystr option" where
  "metric_numerical_hash H ver mid asof num den =
     text_hash H (enc_parts [lit ''CLDMA-NUM'', ver, mid, asof, int_str num, int_str den])"

text \<open>
  The public document: the fields of the dictionary with their types; \<^verbatim>\<open>tree_root\<close>, \<^verbatim>\<open>numerical_hash\<close> and \<^verbatim>\<open>num_le_den\<close>, which are
  read with \<^verbatim>\<open>get\<close>, may be missing.
\<close>

record attestation_doc =
  a_spec_version :: pystr
  a_metric_id :: pystr
  a_as_of :: pystr
  n_records :: int
  a_root_hash :: pystr
  a_tree_root :: "pystr option"
  numerator_minor :: int
  denominator_minor :: int
  ratio :: pystr
  numerical_hash :: "pystr option"
  a_num_le_den :: "bool option"

text \<open>The text of \<^verbatim>\<open>(Decimal(num) / Decimal(den)).quantize(Decimal("0.000001"))\<close>.\<close>

definition ratio_text :: "int \<Rightarrow> int \<Rightarrow> pystr option" where
  "ratio_text num den = (case quantize 6 (dec_div num den) of Some (Dec s c e) \<Rightarrow> Some (dec_fixed 6 s c) | _ \<Rightarrow> None)"

definition attestation :: "hashf \<Rightarrow> commitment \<Rightarrow> attestation_doc option" where
  "attestation H c = do {
     rt \<leftarrow> (if den_total c \<noteq> 0 then ratio_text (num_total c) (den_total c) else Some (lit ''0.000000''));
     nh \<leftarrow> metric_numerical_hash H SPEC_VERSION (c_metric_id c) (as_of c) (num_total c) (den_total c);
     Some \<lparr>a_spec_version = SPEC_VERSION, a_metric_id = c_metric_id c, a_as_of = as_of c, n_records = int (n_committed c),
       a_root_hash = root_hash c, a_tree_root = Some (tree_root c), numerator_minor = num_total c,
       denominator_minor = den_total c, ratio = rt, numerical_hash = Some nh, a_num_le_den = Some (c_num_le_den c)\<rparr>
   }"

definition verify_attestation :: "hashf \<Rightarrow> attestation_doc \<Rightarrow> bool option" where
  "verify_attestation H att =
     (let den = denominator_minor att
      in case a_tree_root att of
           None \<Rightarrow> Some False
         | Some tr \<Rightarrow>
             if tr = [] then Some False
             else do {
               b \<leftarrow> bind_meta H tr (n_records att) (a_metric_id att) (a_as_of att) (numerator_minor att) den;
               if b \<noteq> a_root_hash att then Some False
               else if den = 0 then Some (ratio att = lit ''0'' \<or> ratio att = lit ''0.000000'')
               else do {
                 expected \<leftarrow> ratio_text (numerator_minor att) den;
                 d \<leftarrow> dec_parse (ratio att);
                 q \<leftarrow> quantize 6 d;
                 Some (case q of Dec s c e \<Rightarrow> expected = dec_fixed 6 s c | _ \<Rightarrow> False)
               }
             })"

text \<open>
  The offline guard. \<^verbatim>\<open>checks["reproducible"]\<close> compares two evaluations of one pure expression; the bound is the caller's, the
  verifier's table's, or the document's, in this order. \<^verbatim>\<open>Decimal(num) / Decimal(den) <= 1\<close> is \<open>ratio_le_1\<close>.
\<close>

definition ratio_le_1 :: "int \<Rightarrow> int \<Rightarrow> bool" where
  "ratio_le_1 num den = (case dec_div num den of Dec s c e \<Rightarrow> s \<or> (if 0 \<le> e then c * 10 ^ nat e \<le> 1 else c \<le> 10 ^ nat (- e)) | _ \<Rightarrow> False)"

record consistency_checks =
  numerical_hash_match :: bool
  non_negative :: bool
  bound_ok :: bool
  ratio_bound_ok :: bool
  num_le_den_applied :: bool

definition verify_metric_consistency :: "hashf \<Rightarrow> attestation_doc \<Rightarrow> bool option \<Rightarrow> (bool \<times> consistency_checks) option" where
  "verify_metric_consistency H att bounded = do {
     let num = numerator_minor att;
     let den = denominator_minor att;
     recomputed \<leftarrow> metric_numerical_hash H (a_spec_version att) (a_metric_id att) (a_as_of att) num den;
     let match_ok = (case numerical_hash att of None \<Rightarrow> True | Some d \<Rightarrow> d = recomputed);
     let applied = (case bounded of
           Some b \<Rightarrow> b
         | None \<Rightarrow> (case KNOWN_BOUNDED (a_metric_id att) of
                      Some b \<Rightarrow> b
                    | None \<Rightarrow> (case a_num_le_den att of Some b \<Rightarrow> b | None \<Rightarrow> False)));
     let nonneg = (num \<ge> 0 \<and> den \<ge> 0);
     let bok = (if applied \<and> nonneg then num \<le> den else True);
     let rok = (if applied \<and> nonneg \<and> den \<noteq> 0 then ratio_le_1 num den else True);
     Some (match_ok \<and> nonneg \<and> bok \<and> rok,
       \<lparr>numerical_hash_match = match_ok, non_negative = nonneg, bound_ok = bok, ratio_bound_ok = rok, num_le_den_applied = applied\<rparr>)
   }"

section \<open>Challenge and openings\<close>

text \<open>The loop runs until enough distinct indices were drawn; \<open>None\<close> is a loop that does not end (or a text that cannot be hashed).\<close>

definition draw :: "hashf \<Rightarrow> pystr \<Rightarrow> pystr \<Rightarrow> nat \<Rightarrow> nat \<Rightarrow> int option" where
  "draw H root nonce ctr n = do {
     h \<leftarrow> text_hash H (root @ 124 # nonce @ 124 # nat_str ctr);
     v \<leftarrow> py_int16 h;
     Some (v mod int n)
   }"

partial_function (option) challenge_loop ::
  "hashf \<Rightarrow> pystr \<Rightarrow> pystr \<Rightarrow> nat \<Rightarrow> nat \<Rightarrow> nat \<Rightarrow> int list \<Rightarrow> int list option" where
  "challenge_loop H root nonce k n ctr out =
     (if length out < min k n
      then Option.bind (draw H root nonce ctr n)
        (\<lambda>idx. challenge_loop H root nonce k n (Suc ctr) (if idx \<in> set out then out else out @ [idx]))
      else Some out)"

definition challenge :: "hashf \<Rightarrow> pystr \<Rightarrow> pystr \<Rightarrow> nat \<Rightarrow> nat \<Rightarrow> int list option" where
  "challenge H root nonce k n = challenge_loop H root nonce k n 0 []"

record sum_step =
  s_hash :: pystr
  s_num :: int
  s_den :: int
  right_side :: bool

definition step_of :: "node \<Rightarrow> bool \<Rightarrow> sum_step" where
  "step_of x right = \<lparr>s_hash = nhash x, s_num = nnum x, s_den = nden x, right_side = right\<rparr>"

fun path_up :: "node list list \<Rightarrow> nat \<Rightarrow> sum_step list" where
  "path_up [] idx = []"
| "path_up [_] idx = []"
| "path_up (lvl # rest) idx =
     (if even idx
      then (if idx + 1 < length lvl then [step_of (lvl ! (idx + 1)) True] else [])
      else [step_of (lvl ! (idx - 1)) False]) @ path_up rest (idx div 2)"

definition sum_path :: "hashf \<Rightarrow> loan list \<Rightarrow> pystr \<Rightarrow> metric_spec \<Rightarrow> nat \<Rightarrow> sum_step list option" where
  "sum_path H records master_salt spec index = do {
     leaves \<leftarrow> build_leaves H records master_salt spec;
     lv \<leftarrow> levels H leaves;
     Some (path_up lv index)
   }"

record leaf_opening =
  o_index :: nat
  o_record :: loan
  o_salt :: pystr
  o_num :: int
  o_den :: int
  o_path :: "sum_step list"

definition open_leaf :: "hashf \<Rightarrow> loan list \<Rightarrow> pystr \<Rightarrow> metric_spec \<Rightarrow> nat \<Rightarrow> leaf_opening option" where
  "open_leaf H records master_salt spec i =
     (if i < length records then do {
        let rec = records ! i;
        salt \<leftarrow> leaf_salt H master_salt i;
        num \<leftarrow> num_of spec rec;
        den \<leftarrow> den_of spec rec;
        p \<leftarrow> sum_path H records master_salt spec i;
        Some \<lparr>o_index = i, o_record = rec, o_salt = salt, o_num = num, o_den = den, o_path = p\<rparr>
      } else None)"

definition open_leaves :: "hashf \<Rightarrow> loan list \<Rightarrow> pystr \<Rightarrow> metric_spec \<Rightarrow> nat list \<Rightarrow> leaf_opening list option" where
  "open_leaves H records master_salt spec indices = those (map (open_leaf H records master_salt spec) indices)"

definition climb_step :: "hashf \<Rightarrow> sum_step \<Rightarrow> pystr \<times> int \<times> int \<Rightarrow> (pystr \<times> int \<times> int) option" where
  "climb_step H st = (\<lambda>(h, num, den).
     let num2 = num + s_num st; den2 = den + s_den st
     in map_option (\<lambda>h2. (h2, num2, den2))
          (text_hash H (if right_side st then enc_parts [lit ''N'', h, s_hash st, int_str num2, int_str den2]
                 else enc_parts [lit ''N'', s_hash st, h, int_str num2, int_str den2])))"

fun climb :: "hashf \<Rightarrow> sum_step list \<Rightarrow> pystr \<times> int \<times> int \<Rightarrow> (pystr \<times> int \<times> int) option" where
  "climb H [] x = Some x"
| "climb H (st # sts) x = Option.bind (climb_step H st x) (climb H sts)"

record open_result =
  r_index :: nat
  classif_ok :: bool
  inclusion_ok :: bool
  sums_ok :: bool
  non_negative_ok :: bool
  leaf_ok :: bool

definition verify_leaf :: "hashf \<Rightarrow> commitment \<Rightarrow> metric_spec \<Rightarrow> leaf_opening \<Rightarrow> open_result option" where
  "verify_leaf H c spec x = do {
     snum \<leftarrow> num_of spec (o_record x);
     sden \<leftarrow> den_of spec (o_record x);
     let cl = (snum = o_num x \<and> sden = o_den x);
     let ng = (o_num x \<ge> 0 \<and> o_den x \<ge> 0 \<and> list_all (\<lambda>s. s_num s \<ge> 0 \<and> s_den s \<ge> 0) (o_path x));
     leaf \<leftarrow> leaf_node H (o_record x) (o_salt x) (o_num x) (o_den x);
     (h, num, den) \<leftarrow> climb H (o_path x) (nhash leaf, o_num x, o_den x);
     b \<leftarrow> bind_meta H h (int (n_committed c)) (c_metric_id c) (as_of c) (num_total c) (den_total c);
     let inc = (b = root_hash c);
     let sums = (num = num_total c \<and> den = den_total c);
     Some \<lparr>r_index = o_index x, classif_ok = cl, inclusion_ok = inc, sums_ok = sums, non_negative_ok = ng,
           leaf_ok = (cl \<and> inc \<and> sums \<and> ng)\<rparr>
   }"

definition verify_open :: "hashf \<Rightarrow> commitment \<Rightarrow> metric_spec \<Rightarrow> leaf_opening list \<Rightarrow> (bool \<times> open_result list) option" where
  "verify_open H c spec xs =
     (if xs = [] then Some (False, [])
      else map_option (\<lambda>rs. (list_all leaf_ok rs, rs)) (those (map (verify_leaf H c spec) xs)))"

record full_result =
  full_ok :: bool
  integrity_ok :: bool
  completeness_ok :: bool

text \<open>Any exception of the recomputation is a refusal.\<close>

definition verify_full ::
  "hashf \<Rightarrow> loan list \<Rightarrow> pystr \<Rightarrow> metric_spec \<Rightarrow> commitment \<Rightarrow> int option \<Rightarrow> full_result option" where
  "verify_full H records master_salt spec c expected_n =
     map_option (\<lambda>c2.
       let ok = (root_hash c2 = root_hash c \<and> num_total c2 = num_total c \<and> den_total c2 = den_total c \<and> n_committed c2 = n_committed c);
           compl = (case expected_n of None \<Rightarrow> True | Some n \<Rightarrow> int (n_committed c) = n)
       in \<lparr>full_ok = (ok \<and> compl), integrity_ok = ok, completeness_ok = compl\<rparr>)
     (commit_ledger H records master_salt spec (as_of c))"

end
