(* ===== verification/Attestation_Binding.thy ===== *)
theory Attestation_Binding
  imports Committed_Attestation
begin

text \<open>
  What a commitment over the Merkle sum tree promises: its totals are the sums of the records' contributions, its openings
  verify, an accepted opening or an accepted full recomputation shows committed records, and the attestation of a bounded
  metric passes both public checks. Integrity is stated by extraction: the claim, or two different texts that were really
  hashed, by the committing party or by the verifier, with one digest.
\<close>

section \<open>The encoding of the hashed parts\<close>

text \<open>An escaped character followed by any text gives the character and the text back.\<close>

definition unesc :: "pystr \<Rightarrow> nat \<times> pystr" where
  "unesc s =
     (if hd s \<noteq> 92 then (hd s, tl s)
      else if hd (tl s) = 117 then (the (hex4_val (take 4 (drop 2 s))), drop 6 s)
      else (the (simple_escape (hd (tl s))), drop 2 s))"

lemma unesc_esc_raw: "unesc (esc_raw c @ x) = (c, x)"
proof (cases "c < 32 \<and> c \<noteq> 10 \<and> c \<noteq> 13 \<and> c \<noteq> 9 \<and> c \<noteq> 12 \<and> c \<noteq> 8")
  case True
  then have "esc_raw c = 92 # 117 # hex4 c" by (simp add: esc_raw_def)
  moreover have "length (hex4 c) = 4" by (simp add: hex4_def)
  ultimately show ?thesis using True by (simp add: unesc_def hex4_val_hex4)
next
  case False
  then consider "c \<in> set [34, 92, 10, 13, 9, 12, 8]" | "\<not> c < 32" "c \<noteq> 34" "c \<noteq> 92" by auto
  then show ?thesis
  proof cases
    case 1
    then consider "c = 34" | "c = 92" | "c = 10" | "c = 13" | "c = 9" | "c = 12" | "c = 8" by auto
    then show ?thesis by cases (simp_all add: esc_raw_def unesc_def simple_escape_def)
  next
    case 2
    then show ?thesis by (simp add: esc_raw_def unesc_def)
  qed
qed

lemma esc_raw_cancel: "esc_raw c @ x = esc_raw d @ y \<Longrightarrow> c = d \<and> x = y"
  by (metis unesc_esc_raw Pair_inject)

lemma esc_raw_quote: "esc_raw c @ x \<noteq> 34 # y"
  by (auto simp: esc_raw_def)

lemma raw_chars_cancel: "concat (map esc_raw a) @ 34 # x = concat (map esc_raw b) @ 34 # y \<Longrightarrow> a = b \<and> x = y"
proof (induction a arbitrary: b)
  case Nil
  then show ?case using esc_raw_quote [symmetric] by (cases b) auto
next
  case (Cons c a)
  then obtain d b' where b: "b = d # b'" using esc_raw_quote by (cases b) auto
  then show ?case using Cons esc_raw_cancel [of c _ d] by fastforce
qed

lemma raw_str_cancel: "raw_str a @ x = raw_str b @ y \<longleftrightarrow> a = b \<and> x = y"
  using raw_chars_cancel [of a x b y] by (auto simp: raw_str_def)

lemma raw_str_hd: "raw_str a \<noteq> 93 # x" "raw_str a @ z \<noteq> 93 # x"
  by (auto simp: raw_str_def)

lemma raw_str_ne [simp]: "raw_str a \<noteq> []"
  by (simp add: raw_str_def)

lemma join_raw_cancel: "join [44] (map raw_str ps) @ [93] = join [44] (map raw_str qs) @ [93] \<Longrightarrow> ps = qs"
proof (induction ps arbitrary: qs)
  case Nil
  then show ?case using raw_str_hd [symmetric] by (cases qs) (auto simp: join_Cons split: if_splits)
next
  case (Cons p ps)
  obtain q qs' where q: "qs = q # qs'" using Cons(2) raw_str_hd by (cases qs) (auto simp: join_Cons split: if_splits)
  show ?case using Cons raw_str_cancel raw_str_cancel [of p "[]" q "[]"] by (cases "ps = []"; cases "qs' = []") (auto simp: q join_Cons)
qed

lemma enc_parts_inj [simp]: "enc_parts ps = enc_parts qs \<longleftrightarrow> ps = qs"
  using join_raw_cancel [of ps qs] by (auto simp: enc_parts_def comp_def)

section \<open>One digest\<close>

lemma text_hash_bind:
  assumes "text_hash H s = Some h" "text_hash H t = Some h" "s \<in> S" "t \<in> S"
  shows "s = t \<or> collision H (utf8 ` S)"
proof -
  obtain a b where e: "utf8_encode s = Some a" "utf8_encode t = Some b" using assms(1,2) by (auto simp: text_hash_def)
  then have "hex_of (H a) = hex_of (H b)" using assms(1,2) by (auto simp: text_hash_def)
  then have "H a = H b" using hex.enc_eq_iff by blast
  moreover have "a = b \<Longrightarrow> s = t" using utf8_decode_encode [OF e(1)] utf8_decode_encode [OF e(2)] by simp
  moreover have "a = utf8 s" "b = utf8 t" using e by (auto simp: utf8_def)
  ultimately show ?thesis using assms(3,4) collisionI [of a "utf8 ` S" b H] by blast
qed

lemma text_hash_some: "text_hash H s = Some h \<Longrightarrow> encodable s \<and> h = hex_of (H (utf8 s))"
  by (auto simp: text_hash_def encodable_def utf8_def)

section \<open>The tree\<close>

definition node_text :: "node \<Rightarrow> node \<Rightarrow> pystr" where
  "node_text l r = enc_parts [lit ''N'', nhash l, nhash r, int_str (nnum l + nnum r), int_str (nden l + nden r)]"

definition leaf_text :: "pystr \<Rightarrow> int \<Rightarrow> int \<Rightarrow> pystr" where
  "leaf_text cm num den = enc_parts [lit ''L'', cm, int_str num, int_str den]"

lemma combine_iff:
  "combine H l r = Some x \<longleftrightarrow>
     text_hash H (node_text l r) = Some (nhash x) \<and> nnum x = nnum l + nnum r \<and> nden x = nden l + nden r"
  by (auto simp: combine_def node_text_def Let_def)

lemma level_up_nth:
  assumes "level_up H xs = Some ys" "i < length xs"
  shows "if odd i then combine H (xs ! (i - 1)) (xs ! i) = Some (ys ! (i div 2))
    else if i + 1 < length xs then combine H (xs ! i) (xs ! (i + 1)) = Some (ys ! (i div 2))
    else ys ! (i div 2) = xs ! i"
  using assms
proof (induction H xs arbitrary: ys i rule: level_up.induct)
  case (1 H l r rest)
  obtain x zs where z: "combine H l r = Some x" "level_up H rest = Some zs" "ys = x # zs" using 1(2) by (auto split: bind_splits)
  consider "i = 0" | "i = 1" | j where "i = Suc (Suc j)" by (metis One_nat_def not0_implies_Suc)
  then show ?case
  proof cases
    case 3
    then have j: "j < length rest" using 1(3) by simp
    have "(r # rest) ! j = rest ! (j - 1)" if "odd j" using that by (cases j) auto
    then show ?thesis using 1(1) [OF z(1,2) j] by (auto simp: 3 z)
  qed (use z in auto)
qed auto

lemma level_up_sums:
  "level_up H xs = Some ys \<Longrightarrow> sum_list (map nnum ys) = sum_list (map nnum xs) \<and> sum_list (map nden ys) = sum_list (map nden xs)"
  by (induction H xs arbitrary: ys rule: level_up.induct) (auto simp: combine_iff split: bind_splits)

lemma levels_cases:
  assumes "levels_from H cur = Some lv" "cur \<noteq> []"
  obtains x where "cur = [x]" "lv = [[x]]"
  | nxt lv' where "length cur > 1" "level_up H cur = Some nxt" "levels_from H nxt = Some lv'" "lv = cur # lv'" "nxt \<noteq> []" "lv' \<noteq> []"
proof (cases "length cur > 1")
  case True
  then obtain nxt lv' where n: "level_up H cur = Some nxt" "levels_from H nxt = Some lv'" "lv = cur # lv'"
    using assms by (subst (asm) levels_from.simps) (auto split: option.splits)
  have ne: "nxt \<noteq> []" using level_up_length [OF n(1)] True by auto
  have "lv' \<noteq> []" using n(2) by (subst (asm) levels_from.simps) (auto split: if_splits option.splits)
  then show ?thesis using that(2) n ne True by blast
next
  case False
  then obtain x where "cur = [x]" using assms(2) by (cases cur) auto
  then show ?thesis using that(1) assms(1) by (subst (asm) levels_from.simps) auto
qed

lemma levels_root:
  assumes "levels_from H cur = Some lv" "cur \<noteq> []"
  shows "\<exists>rt. last lv = [rt] \<and> nnum rt = sum_list (map nnum cur) \<and> nden rt = sum_list (map nden cur)"
  using assms
proof (induction H cur arbitrary: lv rule: levels_from.induct)
  case (1 H cur)
  from 1(2,3) show ?case
  proof (cases rule: levels_cases)
    case (2 nxt lv')
    then show ?thesis using 1(1) [OF 2(1,2,3) 2(5)] level_up_sums [OF 2(2)] by auto
  qed auto
qed

definition node_state :: "node \<Rightarrow> pystr \<times> int \<times> int" where
  "node_state x = (nhash x, nnum x, nden x)"

lemma climb_combine:
  assumes "combine H l r = Some x"
  shows "climb_step H (step_of r True) (node_state l) = Some (node_state x)"
    and "climb_step H (step_of l False) (node_state r) = Some (node_state x)"
  using assms by (auto simp: combine_iff climb_step_def step_of_def node_state_def node_text_def Let_def add.commute)

text \<open>The path of a leaf leads to the root.\<close>

lemma path_climbs:
  assumes "levels_from H cur = Some lv" "idx < length cur"
  shows "climb H (path_up lv idx) (node_state (cur ! idx)) = Some (node_state (hd (last lv)))"
  using assms
proof (induction H cur arbitrary: lv idx rule: levels_from.induct)
  case (1 H cur)
  have "cur \<noteq> []" using 1(3) by auto
  with 1(2) show ?case
  proof (cases rule: levels_cases)
    case (2 nxt lv')
    have idx: "idx div 2 < length nxt" using level_up_length [OF 2(2)] 1(3) by simp
    note IH = 1(1) [OF 2(1,2,3) idx]
    have up: "path_up lv idx = (if even idx
        then (if idx + 1 < length cur then [step_of (cur ! (idx + 1)) True] else [])
        else [step_of (cur ! (idx - 1)) False]) @ path_up lv' (idx div 2)"
      using 2(4,6) by (cases lv') auto
    have "climb H (path_up lv idx) (node_state (cur ! idx)) = climb H (path_up lv' (idx div 2)) (node_state (nxt ! (idx div 2)))"
      using level_up_nth [OF 2(2) 1(3)] climb_combine unfolding up by (auto split: if_splits)
    then show ?thesis using IH 2(4,6) by simp
  qed (use 1(3) in \<open>auto\<close>)
qed

lemma path_nonneg:
  assumes "levels_from H cur = Some lv" "idx < length cur" "\<forall>x\<in>set cur. 0 \<le> nnum x \<and> 0 \<le> nden x"
  shows "list_all (\<lambda>s. 0 \<le> s_num s \<and> 0 \<le> s_den s) (path_up lv idx)"
  using assms
proof (induction H cur arbitrary: lv idx rule: levels_from.induct)
  case (1 H cur)
  have "cur \<noteq> []" using 1(3) by auto
  with 1(2) show ?case
  proof (cases rule: levels_cases)
    case (2 nxt lv')
    have idx: "idx div 2 < length nxt" using level_up_length [OF 2(2)] 1(3) by simp
    have nn: "\<forall>x\<in>set nxt. 0 \<le> nnum x \<and> 0 \<le> nden x"
      using 2(2) 1(4) by (induction H cur arbitrary: nxt rule: level_up.induct) (auto simp: combine_iff split: bind_splits)
    have "path_up lv idx = (if even idx
        then (if idx + 1 < length cur then [step_of (cur ! (idx + 1)) True] else [])
        else [step_of (cur ! (idx - 1)) False]) @ path_up lv' (idx div 2)"
      using 2(4,6) by (cases lv') auto
    then show ?thesis using 1(1) [OF 2(1,2,3) idx nn] 1(3,4) by (auto simp: step_of_def)
  qed auto
qed

section \<open>Texts hashed for a commitment and for an opening\<close>

fun level_texts :: "node list \<Rightarrow> pystr list" where
  "level_texts (l # r # rest) = node_text l r # level_texts rest"
| "level_texts _ = []"

definition record_text :: "loan \<Rightarrow> pystr \<Rightarrow> pystr" where
  "record_text rec salt = enc_parts [lit ''commit'', salt, canonical_record rec]"

definition record_texts :: "hashf \<Rightarrow> loan \<Rightarrow> pystr \<Rightarrow> int \<Rightarrow> int \<Rightarrow> pystr list" where
  "record_texts H rec salt num den = [record_text rec salt, leaf_text (the (leaf_commit H rec salt)) num den]"

definition bind_text :: "pystr \<Rightarrow> int \<Rightarrow> pystr \<Rightarrow> pystr \<Rightarrow> int \<Rightarrow> int \<Rightarrow> pystr" where
  "bind_text tr n mid asof num den =
     enc_parts [lit ''CLDMA'', SPEC_VERSION, mid, asof, int_str n, tr, int_str num, int_str den]"

fun ledger_texts :: "hashf \<Rightarrow> pystr \<Rightarrow> metric_spec \<Rightarrow> nat \<Rightarrow> loan list \<Rightarrow> pystr list" where
  "ledger_texts H master_salt spec i [] = []"
| "ledger_texts H master_salt spec i (rec # rs) =
     record_texts H rec (the (leaf_salt H master_salt i)) (the (num_of spec rec)) (the (den_of spec rec)) @
     ledger_texts H master_salt spec (Suc i) rs"

definition commit_texts :: "hashf \<Rightarrow> loan list \<Rightarrow> pystr \<Rightarrow> metric_spec \<Rightarrow> pystr \<Rightarrow> pystr set" where
  "commit_texts H records master_salt spec asof =
     set (ledger_texts H master_salt spec 0 records) \<union>
     (case Option.bind (build_leaves H records master_salt spec) (levels H) of
        None \<Rightarrow> {}
      | Some lv \<Rightarrow> insert (bind_text (nhash (hd (last lv))) (int (length records)) (metric_id spec) asof
                            (nnum (hd (last lv))) (nden (hd (last lv))))
                     (set (concat (map level_texts lv))))"

definition step_text :: "sum_step \<Rightarrow> pystr \<times> int \<times> int \<Rightarrow> pystr" where
  "step_text st = (\<lambda>(h, num, den).
     if right_side st then enc_parts [lit ''N'', h, s_hash st, int_str (num + s_num st), int_str (den + s_den st)]
     else enc_parts [lit ''N'', s_hash st, h, int_str (num + s_num st), int_str (den + s_den st)])"

lemma climb_step_iff:
  "climb_step H st (h, num, den) = Some y \<longleftrightarrow>
     (\<exists>h2. text_hash H (step_text st (h, num, den)) = Some h2 \<and> y = (h2, num + s_num st, den + s_den st))"
  by (auto simp: climb_step_def step_text_def Let_def)

fun climb_texts :: "hashf \<Rightarrow> sum_step list \<Rightarrow> pystr \<times> int \<times> int \<Rightarrow> pystr list" where
  "climb_texts H [] x = []"
| "climb_texts H (st # sts) x = step_text st x # (case climb_step H st x of Some y \<Rightarrow> climb_texts H sts y | None \<Rightarrow> [])"

definition opening_texts :: "hashf \<Rightarrow> commitment \<Rightarrow> leaf_opening \<Rightarrow> pystr set" where
  "opening_texts H c x =
     (let leaf = leaf_node H (o_record x) (o_salt x) (o_num x) (o_den x);
          start = (nhash (the leaf), o_num x, o_den x)
      in set (record_texts H (o_record x) (o_salt x) (o_num x) (o_den x)) \<union> set (climb_texts H (o_path x) start) \<union>
         {bind_text (fst (the (climb H (o_path x) start))) (int (n_committed c)) (c_metric_id c) (as_of c) (num_total c) (den_total c)})"

lemma climb_sum_snoc: "climb H (sts @ [st]) x = Option.bind (climb H sts x) (climb_step H st)"
proof (induction sts arbitrary: x)
  case (Cons s sts)
  then show ?case by (cases "climb_step H s x") auto
next
  case Nil
  show ?case by (cases "climb_step H st x") auto
qed

lemma climb_texts_snoc:
  "climb H sts x = Some y \<Longrightarrow> climb_texts H (sts @ [st]) x = climb_texts H sts x @ [step_text st y]"
proof (induction sts arbitrary: x)
  case (Cons s sts)
  then show ?case by (cases "climb_step H s x") auto
qed (simp split: option.split)

section \<open>Committed nodes\<close>

text \<open>A node of the tree over the leaves \<open>L\<close>, all of whose hashed texts are in \<open>T\<close>.\<close>

inductive built :: "hashf \<Rightarrow> pystr set \<Rightarrow> node list \<Rightarrow> node \<Rightarrow> bool" for H T L where
  built_leaf: "x \<in> set L \<Longrightarrow> built H T L x"
| built_node: "built H T L l \<Longrightarrow> built H T L r \<Longrightarrow> combine H l r = Some x \<Longrightarrow> node_text l r \<in> T \<Longrightarrow> built H T L x"

lemma level_up_built:
  "level_up H xs = Some ys \<Longrightarrow> \<forall>x\<in>set xs. built H T L x \<Longrightarrow> set (level_texts xs) \<subseteq> T \<Longrightarrow> \<forall>y\<in>set ys. built H T L y"
  by (induction H xs arbitrary: ys rule: level_up.induct) (auto split: bind_splits intro: built_node)

lemma levels_built:
  assumes "levels_from H cur = Some lv" "cur \<noteq> []" "\<forall>x\<in>set cur. built H T L x" "set (concat (map level_texts lv)) \<subseteq> T"
  shows "built H T L (hd (last lv))"
  using assms
proof (induction H cur arbitrary: lv rule: levels_from.induct)
  case (1 H cur)
  from 1(2,3) show ?case
  proof (cases rule: levels_cases)
    case (2 nxt lv')
    have "\<forall>y\<in>set nxt. built H T L y" using level_up_built [OF 2(2) 1(4)] 1(5) 2(4) by auto
    then show ?thesis using 1(1) [OF 2(1,2,3,5)] 1(5) 2(4,6) by auto
  qed (use 1(4) in auto)
qed

text \<open>The texts of the two kinds of node differ, whatever their parts.\<close>

lemma leaf_not_node: "leaf_text a b c \<noteq> node_text l r" "leaf_text a b c \<noteq> step_text st y"
  by (auto simp: leaf_text_def node_text_def step_text_def lit_def split: prod.split if_split)

lemma step_is_node:
  assumes "step_text st (h, num, den) = node_text l r"
  shows "h = nhash l \<or> h = nhash r"
  using assms by (auto simp: step_text_def node_text_def split: if_splits)

text \<open>A path that leads to a committed node starts at a committed leaf, or two hashed texts collide.\<close>

lemma climb_binds:
  assumes leaves: "\<forall>y\<in>set L. \<exists>cm. text_hash H (leaf_text cm (nnum y) (nden y)) = Some (nhash y) \<and> leaf_text cm (nnum y) (nden y) \<in> T"
    and start: "text_hash H (leaf_text cm num den) = Some h0" "leaf_text cm num den \<in> T"
  shows "built H T L x \<Longrightarrow> climb H sts (h0, num, den) = Some (nhash x, n, d) \<Longrightarrow> set (climb_texts H sts (h0, num, den)) \<subseteq> T \<Longrightarrow>
    (\<exists>y\<in>set L. h0 = nhash y) \<or> collision H (utf8 ` T)"
proof (induction sts arbitrary: x n d rule: rev_induct)
  case Nil
  then have h: "h0 = nhash x" by simp
  from Nil(1) show ?case
  proof (cases rule: built.cases)
    case (built_node l r)
    then show ?thesis using text_hash_bind [OF start(1) _ start(2), of "node_text l r"] leaf_not_node(1) by (auto simp: combine_iff h)
  qed (use h in auto)
next
  case (snoc st sts)
  obtain h' n' d' where m: "climb H sts (h0, num, den) = Some (h', n', d')" and s: "climb_step H st (h', n', d') = Some (nhash x, n, d)"
    using snoc(3) by (auto simp: climb_sum_snoc split: bind_splits)
  have t: "text_hash H (step_text st (h', n', d')) = Some (nhash x)" "step_text st (h', n', d') \<in> T"
    "set (climb_texts H sts (h0, num, den)) \<subseteq> T"
    using s snoc(4) climb_texts_snoc [OF m, of st] by (auto simp: climb_step_iff)
  from snoc(2) show ?case
  proof (cases rule: built.cases)
    case built_leaf
    then obtain cm' where "text_hash H (leaf_text cm' (nnum x) (nden x)) = Some (nhash x)" "leaf_text cm' (nnum x) (nden x) \<in> T"
      using leaves by blast
    then show ?thesis using text_hash_bind [OF _ t(1) _ t(2)] leaf_not_node(2) by blast
  next
    case (built_node l r)
    have "step_text st (h', n', d') = node_text l r \<or> collision H (utf8 ` T)"
      using text_hash_bind [OF t(1) _ t(2), of "node_text l r"] built_node by (simp add: combine_iff)
    then show ?thesis using step_is_node [of st h' n' d' l r] snoc(1) [OF built_node(1) _ t(3)] snoc(1) [OF built_node(2) _ t(3)] m by auto
  qed
qed

text \<open>What a leaf of a committed ledger is.\<close>

definition leaf_facts :: "hashf \<Rightarrow> pystr set \<Rightarrow> pystr \<Rightarrow> metric_spec \<Rightarrow> nat \<Rightarrow> loan \<Rightarrow> node \<Rightarrow> bool" where
  "leaf_facts H T master_salt spec i rec y \<longleftrightarrow>
     (\<exists>salt cm. leaf_salt H master_salt i = Some salt \<and> leaf_commit H rec salt = Some cm \<and>
        text_hash H (leaf_text cm (nnum y) (nden y)) = Some (nhash y) \<and>
        num_of spec rec = Some (nnum y) \<and> den_of spec rec = Some (nden y) \<and> 0 \<le> nnum y \<and> 0 \<le> nden y \<and>
        record_text rec salt \<in> T \<and> leaf_text cm (nnum y) (nden y) \<in> T)"

lemma leaf_node_iff:
  "leaf_node H rec salt num den = Some y \<longleftrightarrow>
     (\<exists>cm. leaf_commit H rec salt = Some cm \<and> text_hash H (leaf_text cm num den) = Some (nhash y) \<and> nnum y = num \<and> nden y = den)"
  by (auto simp: leaf_node_def leaf_text_def split: bind_splits)

lemma leaf_commit_text: "leaf_commit H rec salt = text_hash H (record_text rec salt)"
  by (simp add: leaf_commit_def record_text_def)

lemma built_leaves:
  assumes "build_leaves_from H ms spec i rs = Some L" "set (ledger_texts H ms spec i rs) \<subseteq> T"
  shows "length L = length rs \<and> (\<forall>j<length rs. leaf_facts H T ms spec (i + j) (rs ! j) (L ! j))"
  using assms
proof (induction rs arbitrary: i L)
  case (Cons rec rs)
  obtain num den salt y L' where b: "num_of spec rec = Some num" "den_of spec rec = Some den" "0 \<le> num" "0 \<le> den"
    "leaf_salt H ms i = Some salt" "leaf_node H rec salt num den = Some y" "build_leaves_from H ms spec (Suc i) rs = Some L'" "L = y # L'"
    using Cons(2) by (auto split: bind_splits if_splits)
  have y: "leaf_facts H T ms spec i rec y"
    using b(1-6) Cons(3) by (auto simp: leaf_facts_def leaf_node_iff record_texts_def)
  have IH: "length L' = length rs \<and> (\<forall>j<length rs. leaf_facts H T ms spec (Suc i + j) (rs ! j) (L' ! j))"
    using Cons(1) [OF b(7)] Cons(3) by simp
  have "leaf_facts H T ms spec (i + j) ((rec # rs) ! j) (L ! j)" if "j < length (rec # rs)" for j
    using that IH y b(8) by (cases j) auto
  then show ?case using IH b(8) by simp
qed simp

lemma committed:
  assumes "commit_ledger H records ms spec asof = Some c" "commit_texts H records ms spec asof \<subseteq> T"
  obtains L lv rt where "build_leaves H records ms spec = Some L" "levels_from H L = Some lv" "L \<noteq> []" "last lv = [rt]"
    "length L = length records" "\<forall>j<length records. leaf_facts H T ms spec j (records ! j) (L ! j)" "built H T L rt"
    "num_total c = nnum rt" "den_total c = nden rt" "n_committed c = length records" "c_metric_id c = metric_id spec" "as_of c = asof"
    "tree_root c = nhash rt" "c_num_le_den c = num_le_den spec"
    "text_hash H (bind_text (nhash rt) (int (length records)) (metric_id spec) asof (nnum rt) (nden rt)) = Some (root_hash c)"
    "bind_text (nhash rt) (int (length records)) (metric_id spec) asof (nnum rt) (nden rt) \<in> T"
    "nnum rt = sum_list (map nnum L)" "nden rt = sum_list (map nden L)" "levels H L = Some lv"
proof -
  obtain L lv where L: "build_leaves H records ms spec = Some L" "levels H L = Some lv" and c: "
      bind_meta H (nhash (hd (last lv))) (int (length records)) (metric_id spec) asof (nnum (hd (last lv))) (nden (hd (last lv))) = Some (root_hash c)"
      "c = \<lparr>root_hash = root_hash c, num_total = nnum (hd (last lv)), den_total = nden (hd (last lv)), n_committed = length records,
           c_metric_id = metric_id spec, as_of = asof, tree_root = nhash (hd (last lv)), c_num_le_den = num_le_den spec\<rparr>"
    using assms(1) by (auto simp: commit_ledger_def Let_def split: bind_splits)
  have ne: "L \<noteq> []" and lv: "levels_from H L = Some lv" using L(2) by (auto simp: levels_def split: if_splits)
  obtain rt where rt: "last lv = [rt]" "nnum rt = sum_list (map nnum L)" "nden rt = sum_list (map nden L)" using levels_root [OF lv ne] by auto
  have T: "set (ledger_texts H ms spec 0 records) \<subseteq> T" "set (concat (map level_texts lv)) \<subseteq> T"
    "bind_text (nhash rt) (int (length records)) (metric_id spec) asof (nnum rt) (nden rt) \<in> T"
    using assms(2) L rt(1) by (auto simp: commit_texts_def)
  have f: "length L = length records" "\<forall>j<length records. leaf_facts H T ms spec j (records ! j) (L ! j)"
    using built_leaves [OF L(1) [unfolded build_leaves_def] T(1)] by auto
  have "built H T L rt" using levels_built [OF lv ne _ T(2), of L] rt(1) by (auto intro: built_leaf)
  moreover have "text_hash H (bind_text (nhash rt) (int (length records)) (metric_id spec) asof (nnum rt) (nden rt)) = Some (root_hash c)"
    using c(1) rt(1) by (simp add: bind_meta_def bind_text_def)
  moreover have "num_total c = nnum rt" "den_total c = nden rt" "n_committed c = length records" "c_metric_id c = metric_id spec"
    "as_of c = asof" "tree_root c = nhash rt" "c_num_le_den c = num_le_den spec"
    by (subst c(2), simp add: rt(1))+
  ultimately show ?thesis using that L ne lv rt f T(3) by blast
qed

section \<open>Openings\<close>

lemma those_Some: "those xs = Some ys \<longleftrightarrow> map Some ys = xs"
proof (induction xs arbitrary: ys)
  case (Cons x xs)
  show ?case
  proof (cases ys)
    case (Cons y zs)
    then show ?thesis using Cons.IH [of zs] by (cases x; cases "those xs") auto
  qed (auto split: option.splits)
qed auto

text \<open>The openings that the committing party computes verify.\<close>

lemma honest_opening:
  assumes "commit_ledger H records ms spec asof = Some c" "i < length records"
  shows "\<exists>x r. open_leaf H records ms spec i = Some x \<and> verify_leaf H c spec x = Some r \<and> leaf_ok r"
proof -
  obtain L lv rt where k: "build_leaves H records ms spec = Some L" "levels_from H L = Some lv" "L \<noteq> []" "last lv = [rt]"
    "length L = length records" "\<forall>j<length records. leaf_facts H UNIV ms spec j (records ! j) (L ! j)"
    "num_total c = nnum rt" "den_total c = nden rt" "n_committed c = length records" "c_metric_id c = metric_id spec" "as_of c = asof"
    "text_hash H (bind_text (nhash rt) (int (length records)) (metric_id spec) asof (nnum rt) (nden rt)) = Some (root_hash c)" "levels H L = Some lv"
    by (rule committed [OF assms(1) subset_UNIV]) blast
  obtain salt cm where f: "leaf_salt H ms i = Some salt" "leaf_commit H (records ! i) salt = Some cm"
    "text_hash H (leaf_text cm (nnum (L ! i)) (nden (L ! i))) = Some (nhash (L ! i))"
    "num_of spec (records ! i) = Some (nnum (L ! i))" "den_of spec (records ! i) = Some (nden (L ! i))" "0 \<le> nnum (L ! i)" "0 \<le> nden (L ! i)"
    using k(6) assms(2) by (auto simp: leaf_facts_def)
  have nn: "\<forall>x\<in>set L. 0 \<le> nnum x \<and> 0 \<le> nden x" using k(5,6) by (auto simp: in_set_conv_nth leaf_facts_def)
  have leaf: "leaf_node H (records ! i) salt (nnum (L ! i)) (nden (L ! i)) = Some (L ! i)" using f by (simp add: leaf_node_iff)
  have cl: "climb H (path_up lv i) (nhash (L ! i), nnum (L ! i), nden (L ! i)) = Some (nhash rt, nnum rt, nden rt)"
    using path_climbs [OF k(2), of i] assms(2) k(4,5) by (simp add: node_state_def)
  have pn: "list_all (\<lambda>s. 0 \<le> s_num s \<and> 0 \<le> s_den s) (path_up lv i)" using path_nonneg [OF k(2) _ nn, of i] assms(2) k(5) by simp
  have bind: "bind_meta H (nhash rt) (int (length records)) (metric_id spec) asof (nnum rt) (nden rt) = Some (root_hash c)"
    using k(12) by (simp add: bind_meta_def bind_text_def)
  let ?x = "\<lparr>o_index = i, o_record = records ! i, o_salt = salt, o_num = nnum (L ! i), o_den = nden (L ! i), o_path = path_up lv i\<rparr>"
  have "open_leaf H records ms spec i = Some ?x" using assms(2) f k(1,13) by (simp add: open_leaf_def sum_path_def)
  moreover have "\<exists>r. verify_leaf H c spec ?x = Some r \<and> leaf_ok r"
    using f leaf cl pn bind k by (simp add: verify_leaf_def)
  ultimately show ?thesis by blast
qed

lemma leaf_facts_text:
  "leaf_facts H T ms spec i rec y \<Longrightarrow> \<exists>cm. text_hash H (leaf_text cm (nnum y) (nden y)) = Some (nhash y) \<and> leaf_text cm (nnum y) (nden y) \<in> T"
  unfolding leaf_facts_def by blast

lemma same_leaf:
  assumes "leaf_facts H T ms spec i rec y" and cm: "leaf_commit H rec' salt' = Some cm" "text_hash H (leaf_text cm num den) = Some (nhash y)"
    "leaf_text cm num den \<in> T" "record_text rec' salt' \<in> T"
  shows "(leaf_salt H ms i = Some salt' \<and> canonical_record rec' = canonical_record rec \<and>
      num_of spec rec = Some num \<and> den_of spec rec = Some den) \<or> collision H (utf8 ` T)"
proof -
  obtain salt cm' where f: "leaf_salt H ms i = Some salt" "leaf_commit H rec salt = Some cm'"
    "text_hash H (leaf_text cm' (nnum y) (nden y)) = Some (nhash y)" "num_of spec rec = Some (nnum y)"
    "den_of spec rec = Some (nden y)" "record_text rec salt \<in> T" "leaf_text cm' (nnum y) (nden y) \<in> T"
    using assms(1) unfolding leaf_facts_def by blast
  have "(cm = cm' \<and> num = nnum y \<and> den = nden y) \<or> collision H (utf8 ` T)"
    using text_hash_bind [OF cm(2) f(3) cm(3) f(7)] by (auto simp: leaf_text_def)
  moreover have "record_text rec' salt' = record_text rec salt \<or> collision H (utf8 ` T)" if "cm = cm'"
    using text_hash_bind [OF _ _ cm(4) f(6)] cm(1) f(2) that by (simp add: leaf_commit_text)
  ultimately show ?thesis using f by (auto simp: record_text_def)
qed

lemma opening_binds:
  assumes "commit_ledger H records ms spec asof = Some c" and v: "verify_leaf H c spec' x = Some r" "leaf_ok r"
  shows "(\<exists>i<length records. leaf_salt H ms i = Some (o_salt x) \<and> canonical_record (o_record x) = canonical_record (records ! i) \<and>
      num_of spec (records ! i) = Some (o_num x) \<and> den_of spec (records ! i) = Some (o_den x)) \<or>
    collision H (utf8 ` (commit_texts H records ms spec asof \<union> opening_texts H c x))"
    (is "?A \<or> collision H (utf8 ` ?T)")
proof -
  obtain L lv rt where k: "length L = length records" "\<forall>j<length records. leaf_facts H ?T ms spec j (records ! j) (L ! j)" "built H ?T L rt"
    "n_committed c = length records" "c_metric_id c = metric_id spec" "as_of c = asof" "num_total c = nnum rt" "den_total c = nden rt"
    "text_hash H (bind_text (nhash rt) (int (length records)) (metric_id spec) asof (nnum rt) (nden rt)) = Some (root_hash c)"
    "bind_text (nhash rt) (int (length records)) (metric_id spec) asof (nnum rt) (nden rt) \<in> ?T"
    by (rule committed [OF assms(1), of ?T]) blast+
  obtain leaf h num den where o: "leaf_node H (o_record x) (o_salt x) (o_num x) (o_den x) = Some leaf"
    "climb H (o_path x) (nhash leaf, o_num x, o_den x) = Some (h, num, den)"
    "bind_meta H h (int (n_committed c)) (c_metric_id c) (as_of c) (num_total c) (den_total c) = Some (root_hash c)"
    using v by (auto simp: verify_leaf_def Let_def split: bind_splits)
  have ot: "set (record_texts H (o_record x) (o_salt x) (o_num x) (o_den x)) \<subseteq> ?T" "set (climb_texts H (o_path x) (nhash leaf, o_num x, o_den x)) \<subseteq> ?T"
    "bind_text h (int (n_committed c)) (c_metric_id c) (as_of c) (num_total c) (den_total c) \<in> ?T"
    using o(1,2) by (auto simp: opening_texts_def Let_def)
  obtain cm where cm: "leaf_commit H (o_record x) (o_salt x) = Some cm" "text_hash H (leaf_text cm (o_num x) (o_den x)) = Some (nhash leaf)"
    "leaf_text cm (o_num x) (o_den x) \<in> ?T" "record_text (o_record x) (o_salt x) \<in> ?T"
    using o(1) ot(1) by (auto simp: leaf_node_iff record_texts_def)
  have "h = nhash rt \<or> collision H (utf8 ` ?T)"
    using text_hash_bind [OF o(3) [unfolded bind_meta_def, folded bind_text_def] k(9) ot(3) k(10)] k(4-8) by (auto simp: bind_text_def)
  moreover have "?A \<or> collision H (utf8 ` ?T)" if h: "h = nhash rt"
  proof -
    have lf: "\<forall>y\<in>set L. \<exists>cm. text_hash H (leaf_text cm (nnum y) (nden y)) = Some (nhash y) \<and> leaf_text cm (nnum y) (nden y) \<in> ?T"
    proof
      fix y assume "y \<in> set L"
      then obtain j where "j < length records" "y = L ! j" using k(1) by (auto simp: in_set_conv_nth)
      then show "\<exists>cm. text_hash H (leaf_text cm (nnum y) (nden y)) = Some (nhash y) \<and> leaf_text cm (nnum y) (nden y) \<in> ?T"
        using k(2) leaf_facts_text by blast
    qed
    have "(\<exists>i<length records. nhash leaf = nhash (L ! i)) \<or> collision H (utf8 ` ?T)"
      using climb_binds [OF lf cm(2,3) k(3) _ ot(2)] o(2) h k(1) unfolding in_set_conv_nth Bex_def by metis
    then show ?thesis
    proof
      assume "\<exists>i<length records. nhash leaf = nhash (L ! i)"
      then obtain i where i: "i < length records" "nhash leaf = nhash (L ! i)" by blast
      show ?thesis using same_leaf [OF k(2) [rule_format, OF i(1)] cm(1) cm(2) [unfolded i(2)] cm(3,4)] i(1) by blast
    qed simp
  qed
  ultimately show ?thesis by blast
qed

text \<open>The contributions of an accepted opening stay within the published totals.\<close>

lemma climb_sums:
  assumes "climb H sts (h, num, den) = Some (h', num', den')" "list_all (\<lambda>s. 0 \<le> s_num s \<and> 0 \<le> s_den s) sts"
  shows "num \<le> num' \<and> den \<le> den'"
  using assms by (induction sts arbitrary: h num den) (force simp: climb_step_iff split: bind_splits)+

lemma opening_bounds:
  assumes "verify_leaf H c spec x = Some r" "leaf_ok r"
  shows "0 \<le> o_num x \<and> o_num x \<le> num_total c \<and> 0 \<le> o_den x \<and> o_den x \<le> den_total c \<and>
    num_of spec (o_record x) = Some (o_num x) \<and> den_of spec (o_record x) = Some (o_den x)"
proof -
  obtain leaf h num den where c: "leaf_node H (o_record x) (o_salt x) (o_num x) (o_den x) = Some leaf"
    "climb H (o_path x) (nhash leaf, o_num x, o_den x) = Some (h, num, den)" "num = num_total c" "den = den_total c"
    and n: "list_all (\<lambda>s. 0 \<le> s_num s \<and> 0 \<le> s_den s) (o_path x)" "0 \<le> o_num x" "0 \<le> o_den x"
      "num_of spec (o_record x) = Some (o_num x)" "den_of spec (o_record x) = Some (o_den x)"
    using assms by (auto simp: verify_leaf_def Let_def split: bind_splits)
  show ?thesis using climb_sums [OF c(2) n(1)] c(3,4) n by simp
qed

lemma verify_open_leaf:
  assumes "verify_open H c spec xs = Some (True, rs)" "x \<in> set xs"
  shows "\<exists>r. verify_leaf H c spec x = Some r \<and> leaf_ok r"
proof -
  have "map Some rs = map (verify_leaf H c spec) xs" "list_all leaf_ok rs"
    using assms by (auto simp: verify_open_def those_Some split: if_splits)
  moreover obtain j where "j < length xs" "x = xs ! j" using assms(2) by (auto simp: in_set_conv_nth)
  ultimately show ?thesis by (metis length_map list_all_length nth_map)
qed

lemma honest_openings:
  assumes "commit_ledger H records ms spec asof = Some c" "\<forall>i\<in>set indices. i < length records"
  shows "\<exists>xs rs. open_leaves H records ms spec indices = Some xs \<and> length xs = length indices \<and>
    those (map (verify_leaf H c spec) xs) = Some rs \<and> list_all leaf_ok rs"
  using assms(2)
proof (induction indices)
  case (Cons i js)
  obtain xs rs where IH: "open_leaves H records ms spec js = Some xs" "length xs = length js"
    "those (map (verify_leaf H c spec) xs) = Some rs" "list_all leaf_ok rs" using Cons by auto
  obtain x r where "open_leaf H records ms spec i = Some x" "verify_leaf H c spec x = Some r" "leaf_ok r"
    using honest_opening [OF assms(1), of i] Cons(2) by auto
  then show ?case using IH by (simp add: open_leaves_def)
qed (simp add: open_leaves_def)

section \<open>Full recomputation\<close>

lemma level_up_inj:
  assumes "level_up H xs = Some xs'" "level_up H ys = Some ys'" "length xs = length ys" "map nhash xs' = map nhash ys'"
    "set (level_texts xs) \<subseteq> T" "set (level_texts ys) \<subseteq> T"
  shows "map nhash xs = map nhash ys \<or> collision H (utf8 ` T)"
  using assms
proof (induction H xs arbitrary: ys xs' ys' rule: level_up.induct)
  case (1 H l r rest)
  obtain l2 r2 rest2 where ys: "ys = l2 # r2 # rest2" using 1(4) by (cases ys; cases "tl ys") auto
  obtain a as where a: "combine H l r = Some a" "level_up H rest = Some as" "xs' = a # as" using 1(2) by (auto split: bind_splits)
  obtain b bs where b: "combine H l2 r2 = Some b" "level_up H rest2 = Some bs" "ys' = b # bs" using 1(3) ys by (auto split: bind_splits)
  have "node_text l r = node_text l2 r2 \<or> collision H (utf8 ` T)"
    using text_hash_bind [of H "node_text l r" "nhash a" "node_text l2 r2" T] a(1,3) b(1,3) 1(5,6,7) ys by (auto simp: combine_iff)
  moreover have "map nhash rest = map nhash rest2 \<or> collision H (utf8 ` T)"
    using 1(1) [OF a(1,2) b(2)] 1(4-7) ys a(3) b(3) by auto
  ultimately show ?case by (auto simp: ys node_text_def)
qed (auto simp: Suc_length_conv)

lemma levels_inj:
  assumes "levels_from H xs = Some lx" "levels_from H ys = Some ly" "xs \<noteq> []" "length xs = length ys" "nhash (hd (last lx)) = nhash (hd (last ly))"
    "set (concat (map level_texts lx)) \<subseteq> T" "set (concat (map level_texts ly)) \<subseteq> T"
  shows "map nhash xs = map nhash ys \<or> collision H (utf8 ` T)"
  using assms
proof (induction H xs arbitrary: ys lx ly rule: levels_from.induct)
  case (1 H xs)
  have ne: "ys \<noteq> []" using 1(4,5) by auto
  from 1(2,4) show ?case
  proof (cases rule: levels_cases)
    case x: (2 nx lx')
    from 1(3) ne show ?thesis
    proof (cases rule: levels_cases)
      case y: (2 ny ly')
      have len: "length nx = length ny" using level_up_length [OF x(2)] level_up_length [OF y(2)] 1(5) by simp
      have "map nhash nx = map nhash ny \<or> collision H (utf8 ` T)"
        using 1(1) [OF x(1,2,3) y(3) x(5) len] 1(6,7,8) x(4,6) y(4,6) by auto
      then show ?thesis using level_up_inj [OF x(2) y(2) 1(5), of T] 1(7,8) x(4) y(4) by auto
    qed (use x(1) 1(5) in auto)
  next
    case (1 x)
    from \<open>levels_from H ys = Some ly\<close> ne show ?thesis
      by (cases rule: levels_cases) (use 1 \<open>length xs = length ys\<close> \<open>nhash (hd (last lx)) = nhash (hd (last ly))\<close> in auto)
  qed
qed

lemma commit_texts_parts:
  assumes "build_leaves H records ms spec = Some L" "levels H L = Some lv"
  shows "set (concat (map level_texts lv)) \<subseteq> commit_texts H records ms spec asof"
  using assms by (auto simp: commit_texts_def)

lemma same_commitment:
  assumes "commit_ledger H records ms spec asof = Some c" "commit_ledger H records' ms' spec' asof = Some c'" "root_hash c' = root_hash c"
    and T: "commit_texts H records ms spec asof \<subseteq> T" "commit_texts H records' ms' spec' asof \<subseteq> T"
  shows "map canonical_record records' = map canonical_record records \<or> collision H (utf8 ` T)"
proof -
  obtain L lv rt where k: "build_leaves H records ms spec = Some L" "levels_from H L = Some lv" "L \<noteq> []" "last lv = [rt]" "length L = length records"
    "\<forall>j<length records. leaf_facts H T ms spec j (records ! j) (L ! j)"
    "text_hash H (bind_text (nhash rt) (int (length records)) (metric_id spec) asof (nnum rt) (nden rt)) = Some (root_hash c)"
    "bind_text (nhash rt) (int (length records)) (metric_id spec) asof (nnum rt) (nden rt) \<in> T" "levels H L = Some lv"
    by (rule committed [OF assms(1) T(1)]) blast
  obtain L' lv' rt' where k': "build_leaves H records' ms' spec' = Some L'" "levels_from H L' = Some lv'" "L' \<noteq> []" "last lv' = [rt']"
    "length L' = length records'" "\<forall>j<length records'. leaf_facts H T ms' spec' j (records' ! j) (L' ! j)"
    "text_hash H (bind_text (nhash rt') (int (length records')) (metric_id spec') asof (nnum rt') (nden rt')) = Some (root_hash c')"
    "bind_text (nhash rt') (int (length records')) (metric_id spec') asof (nnum rt') (nden rt') \<in> T" "levels H L' = Some lv'"
    by (rule committed [OF assms(2) T(2)]) blast
  have "nhash rt = nhash rt' \<and> length records = length records' \<or> collision H (utf8 ` T)"
    using text_hash_bind [OF k(7) _ k(8) k'(8)] k'(7) assms(3) by (auto simp: bind_text_def)
  moreover have "map canonical_record records' = map canonical_record records \<or> collision H (utf8 ` T)"
    if e: "nhash rt = nhash rt'" "length records = length records'"
  proof -
    have "map nhash L = map nhash L' \<or> collision H (utf8 ` T)"
      using levels_inj [OF k(2) k'(2) k(3), of T] e k(4,5) k'(4,5) T
        commit_texts_parts [OF k(1,9), of asof] commit_texts_parts [OF k'(1,9), of asof] by auto
    moreover have "canonical_record (records' ! j) = canonical_record (records ! j) \<or> collision H (utf8 ` T)"
      if m: "map nhash L = map nhash L'" and j: "j < length records" for j
    proof -
      have h: "nhash (L' ! j) = nhash (L ! j)" using m j k(5) by (metis length_map nth_map)
      obtain salt cm where "leaf_commit H (records' ! j) salt = Some cm" "text_hash H (leaf_text cm (nnum (L' ! j)) (nden (L' ! j))) = Some (nhash (L' ! j))"
        "leaf_text cm (nnum (L' ! j)) (nden (L' ! j)) \<in> T" "record_text (records' ! j) salt \<in> T"
        using k'(6) j e(2) unfolding leaf_facts_def by metis
      then show ?thesis using same_leaf [of H T ms spec j "records ! j" "L ! j"] k(6) j h by auto
    qed
    moreover have "map canonical_record records' = map canonical_record records"
      if "\<forall>j<length records. canonical_record (records' ! j) = canonical_record (records ! j)"
      using that e(2) by (auto intro: nth_equalityI)
    ultimately show ?thesis by blast
  qed
  ultimately show ?thesis by blast
qed

end
