(* ===== verification/Attestation_Theorems.thy ===== *)
theory Attestation_Theorems
  imports Attestation_Binding
begin

text \<open>
  The public side of a committed ledger: the attestation of the portfolio-at-risk ratio passes both offline checks, the
  totals it publishes are the sums over the records, and the challenge loop ends with distinct positions.
\<close>

section \<open>Rounded quotients of a bounded ratio\<close>

lemma half_even_le:
  assumes "n \<le> m * d" "0 < d"
  shows "half_even n d \<le> m"
proof (cases "n div d = m")
  case True
  then have "n mod d = 0" using assms div_mult_mod_eq [of n d] by (simp add: mult.commute)
  then show ?thesis using True assms(2) by (simp add: half_even_def)
next
  case False
  moreover have "n div d \<le> m" using div_le_mono [OF assms(1), of d] assms(2) by simp
  ultimately show ?thesis by (auto simp: half_even_def Let_def)
qed

lemma digits_mono: "n \<le> d \<Longrightarrow> digits n \<le> digits d"
proof (induction n arbitrary: d rule: digits.induct)
  case (1 n)
  show ?case
  proof (cases "n < 10")
    case True
    then show ?thesis by (simp add: digits.simps [of n] digits.simps [of d])
  next
    case False
    then show ?thesis using 1(1) [of "d div 10"] 1(2) by (simp add: digits.simps [of n] digits.simps [of d] div_le_mono)
  qed
qed

lemma dec_div_bounded:
  assumes "0 \<le> num" "num \<le> den" "0 < den"
  obtains c sh where "dec_div num den = Dec False c (- int sh)" "c \<le> 10 ^ sh" "27 \<le> sh"
proof -
  let ?n = "nat num" and ?d = "nat den"
  have "digits ?n \<le> digits ?d" using digits_mono [of ?n ?d] assms by simp
  then obtain k where k: "digits ?d = digits ?n + k" using le_Suc_ex by blast
  define sh where "sh = (if ?n * 10 ^ (28 + k) div ?d < 10 ^ PREC then 28 + k else 27 + k)"
  have "27 \<le> sh" by (simp add: sh_def)
  moreover have e: "int PREC + int (digits ?d) - int (digits ?n) = int (28 + k)" by (simp add: PREC_def k)
  have "nat \<bar>num\<bar> = ?n" "nat \<bar>den\<bar> = ?d" "\<not> num < 0" "\<not> den < 0" using assms by auto
  then have "dec_div num den = dec_round False ?n ?d (if ?n * 10 ^ (28 + k) div ?d < 10 ^ PREC then int (28 + k) else int (28 + k) - 1)"
    unfolding dec_div_def Let_def by (simp only: e if_True nat_int of_nat_0_le_iff simp_thms)
  then have "dec_div num den = dec_round False ?n ?d (int sh)" by (simp add: sh_def split: if_splits)
  then have "dec_div num den = Dec False (half_even (?n * 10 ^ sh) ?d) (- int sh)"
    by (simp add: dec_round_def)
  moreover have "half_even (?n * 10 ^ sh) ?d \<le> 10 ^ sh"
    using assms by (intro half_even_le) (auto simp: mult.commute nat_le_iff)
  ultimately show ?thesis using that by blast
qed

lemma ratio_bounded:
  assumes "0 \<le> num" "num \<le> den" "0 < den"
  shows "ratio_le_1 num den \<and> (\<exists>c. ratio_text num den = Some (dec_fixed 6 False c) \<and> c < 10 ^ PREC)"
proof -
  obtain c sh where d: "dec_div num den = Dec False c (- int sh)" "c \<le> 10 ^ sh" "27 \<le> sh" by (rule dec_div_bounded [OF assms])
  have "(10 :: nat) ^ 6 * 10 ^ (sh - 6) = 10 ^ sh" using d(3) by (simp only: power_add [symmetric]) simp
  then have h: "half_even c (10 ^ (sh - 6)) \<le> 10 ^ 6" using d(2) by (intro half_even_le) auto
  have s: "nat (- (- int sh + 6)) = sh - 6" using d(3) by simp
  have "half_even c (10 ^ (sh - 6)) < 10 ^ PREC" using h by (simp add: PREC_def)
  moreover from this have "quantize 6 (dec_div num den) = Some (Dec False (half_even c (10 ^ (sh - 6))) (- 6))"
    using d(3) s unfolding d(1) by (simp add: Let_def)
  ultimately show ?thesis using d by (auto simp: ratio_text_def ratio_le_1_def)
qed

section \<open>Texts that encode\<close>

lemma scalar_esc_raw: "list_all scalar (esc_raw c) \<longleftrightarrow> scalar c"
  by (auto simp: esc_raw_def scalar_def hex4_def hex_digit_def)

lemma scalar_raw_str: "list_all scalar (raw_str s) \<longleftrightarrow> list_all scalar s"
proof -
  have "list_all scalar (concat (map esc_raw s)) \<longleftrightarrow> list_all scalar s" by (induction s) (auto simp: scalar_esc_raw)
  then show ?thesis by (simp add: raw_str_def) (simp add: scalar_def)
qed

lemma scalar_join: "scalar 44 \<Longrightarrow> list_all scalar (join [44] xs) \<longleftrightarrow> list_all (list_all scalar) xs"
  by (induction xs) (auto simp: join_Cons)

lemma encodable_parts: "encodable (enc_parts ps) \<longleftrightarrow> list_all encodable ps"
proof -
  have "list_all scalar (enc_parts ps) \<longleftrightarrow> list_all (list_all scalar) ps"
    by (simp add: enc_parts_def comp_def scalar_join scalar_raw_str list.pred_map) (simp add: scalar_def scalar_join scalar_raw_str list.pred_map comp_def)
  moreover have "encodable = list_all scalar" by (rule ext) (rule encodable_scalar)
  ultimately show ?thesis by simp
qed

lemma text_hash_defined: "encodable s \<longleftrightarrow> (\<exists>h. text_hash H s = Some h)"
  by (auto simp: text_hash_def encodable_def)

lemma encodable_int_str [simp]: "encodable (int_str n)" "list_all scalar (int_str n)"
proof -
  have "list_all scalar (nat_str m)" for m
    using nat_str_digits [of _ m] by (fastforce simp: list_all_iff is_digit_def scalar_def)
  then show "list_all scalar (int_str n)" by (simp add: int_str_def) (simp add: scalar_def)
  then show "encodable (int_str n)" by (simp add: encodable_scalar)
qed

section \<open>The attested portfolio at risk\<close>

lemma leaf_contributions:
  assumes "\<forall>j<length records. leaf_facts H T ms spec j (records ! j) (L ! j)" "length L = length records"
  shows "map nnum L = map (\<lambda>r. the (num_of spec r)) records" "map nden L = map (\<lambda>r. the (den_of spec r)) records"
proof -
  have "num_of spec (records ! j) = Some (nnum (L ! j)) \<and> den_of spec (records ! j) = Some (nden (L ! j))" if "j < length records" for j
    using assms(1) that unfolding leaf_facts_def by blast
  then show "map nnum L = map (\<lambda>r. the (num_of spec r)) records" "map nden L = map (\<lambda>r. the (den_of spec r)) records"
    using assms(2) by (auto intro!: nth_equalityI)
qed

lemma par30_bounded:
  assumes "num_of (SPEC_PAR30 lower) r = Some n" "den_of (SPEC_PAR30 lower) r = Some d" "0 \<le> d"
  shows "n \<le> d"
  using assms by (auto simp: SPEC_PAR30_def split: if_splits)

lemma par30_totals:
  assumes "commit_ledger H records ms (SPEC_PAR30 lower) asof = Some c"
  shows "0 \<le> num_total c" "num_total c \<le> den_total c"
    "num_total c = (\<Sum>r\<leftarrow>records. the (num_of (SPEC_PAR30 lower) r))" "den_total c = (\<Sum>r\<leftarrow>records. the (outstanding r))"
    "c_metric_id c = lit ''PAR30''" "as_of c = asof" "encodable asof"
    "bind_meta H (tree_root c) (int (n_committed c)) (c_metric_id c) (as_of c) (num_total c) (den_total c) = Some (root_hash c)"
    "\<exists>t. text_hash H t = Some (tree_root c)"
proof -
  let ?S = "SPEC_PAR30 lower"
  obtain L lv rt where k: "length L = length records" "\<forall>j<length records. leaf_facts H UNIV ms ?S j (records ! j) (L ! j)"
    "num_total c = nnum rt" "den_total c = nden rt" "n_committed c = length records" "c_metric_id c = metric_id ?S" "as_of c = asof"
    "tree_root c = nhash rt" "built H UNIV L rt"
    "text_hash H (bind_text (nhash rt) (int (length records)) (metric_id ?S) asof (nnum rt) (nden rt)) = Some (root_hash c)"
    "nnum rt = sum_list (map nnum L)" "nden rt = sum_list (map nden L)"
    by (rule committed [OF assms(1) subset_UNIV]) blast
  have b: "\<forall>y\<in>set L. 0 \<le> nnum y \<and> nnum y \<le> nden y"
  proof
    fix y assume "y \<in> set L"
    then obtain j where "j < length records" "y = L ! j" using k(1) by (auto simp: in_set_conv_nth)
    then show "0 \<le> nnum y \<and> nnum y \<le> nden y"
      using k(2) par30_bounded [of lower "records ! j" "nnum y" "nden y"] unfolding leaf_facts_def by blast
  qed
  show "0 \<le> num_total c" "num_total c \<le> den_total c" using b k(3,4,11,12) by (auto intro!: sum_list_nonneg sum_list_mono)
  show "num_total c = (\<Sum>r\<leftarrow>records. the (num_of ?S r))" "den_total c = (\<Sum>r\<leftarrow>records. the (outstanding r))"
    using leaf_contributions [OF k(2,1)] k(3,4,11,12) by (simp_all add: SPEC_PAR30_def)
  show "c_metric_id c = lit ''PAR30''" "as_of c = asof" using k(6,7) by (simp_all add: SPEC_PAR30_def)
  show "encodable asof" using text_hash_some [OF k(10)] by (simp add: bind_text_def encodable_parts)
  show "bind_meta H (tree_root c) (int (n_committed c)) (c_metric_id c) (as_of c) (num_total c) (den_total c) = Some (root_hash c)"
    using k by (simp add: bind_meta_def bind_text_def)
  have lf: "\<exists>t. text_hash H t = Some (nhash y)" if "y \<in> set L" for y
    using that k(1,2) leaf_facts_text by (metis in_set_conv_nth)
  show "\<exists>t. text_hash H t = Some (tree_root c)"
    using k(9) unfolding k(8)
  proof (cases rule: built.cases)
    case (built_node l r)
    then show "\<exists>t. text_hash H t = Some (nhash rt)" using combine_iff [of H l r rt] by blast
  qed (rule lf)
qed

section \<open>The challenge\<close>

lemma challenge_loop_ends:
  assumes "map (\<lambda>i. draw H root nonce i n) [0..<length ds] = map Some ds" "min k n \<le> card (set ds)"
  shows "ctr \<le> length ds \<Longrightarrow> set out = set (take ctr ds) \<Longrightarrow> distinct out \<Longrightarrow> length out \<le> min k n \<Longrightarrow>
    \<exists>res. challenge_loop H root nonce k n ctr out = Some res \<and> distinct res \<and> length res = min k n \<and> set res \<subseteq> set ds"
proof (induction "length ds - ctr" arbitrary: ctr out)
  case 0
  then have "card (set ds) = length out" using distinct_card [of out] by simp
  then show ?case using 0 assms(2) by (subst challenge_loop.simps) auto
next
  case (Suc m)
  show ?case
  proof (cases "length out < min k n")
    case True
    have c: "ctr < length ds" using Suc(2) by simp
    then have d: "draw H root nonce ctr n = Some (ds ! ctr)" using arg_cong [OF assms(1), of "\<lambda>xs. xs ! ctr"] by simp
    have "take (Suc ctr) ds = take ctr ds @ [ds ! ctr]" using c by (rule take_Suc_conv_app_nth)
    then have st: "set (if ds ! ctr \<in> set out then out else out @ [ds ! ctr]) = set (take (Suc ctr) ds)"
      using Suc(4) by auto
    have "challenge_loop H root nonce k n ctr out =
        challenge_loop H root nonce k n (Suc ctr) (if ds ! ctr \<in> set out then out else out @ [ds ! ctr])"
      using True d by (subst challenge_loop.simps) simp
    then show ?thesis using Suc(1) [OF _ _ st] Suc(2,5) True c by auto
  next
    case False
    then show ?thesis using Suc(4-6) set_take_subset [of ctr ds] by (subst challenge_loop.simps) auto
  qed
qed

section \<open>When a ledger can be committed\<close>

lemma encodable_hex [simp]: "encodable (hex_of bs)"
proof -
  have "list_all scalar (hex_of bs)"
    using hex_of_fullmatch [of "2 * length bs" bs] by (auto simp: hex_fullmatch_def list_all_iff lower_hex_def scalar_def)
  then show ?thesis by (simp add: encodable_scalar)
qed

lemma encodable_Cons_scalar: "encodable (c # t) \<longleftrightarrow> scalar c \<and> encodable t"
  by (simp add: encodable_scalar)

lemma hash_defined: "encodable s \<Longrightarrow> \<exists>h. text_hash H s = Some h \<and> encodable h"
  using text_hash_defined [of s H] text_hash_some [of H s] by fastforce

lemma combine_defined:
  assumes "encodable (nhash l)" "encodable (nhash r)"
  shows "\<exists>x. combine H l r = Some x \<and> encodable (nhash x)"
  using hash_defined [of "node_text l r" H] assms
  by (auto simp: combine_def node_text_def encodable_parts encodable_Cons_scalar scalar_def Let_def)

lemma level_up_defined:
  "\<forall>x\<in>set xs. encodable (nhash x) \<Longrightarrow> \<exists>ys. level_up H xs = Some ys \<and> (\<forall>y\<in>set ys. encodable (nhash y))"
proof (induction H xs rule: level_up.induct)
  case (1 H l r rest)
  obtain x where "combine H l r = Some x" "encodable (nhash x)" using combine_defined [of l r H] 1(2) by auto
  moreover obtain ys where "level_up H rest = Some ys" "\<forall>y\<in>set ys. encodable (nhash y)" using 1 calculation(1) by auto
  ultimately show ?case by simp
qed auto

lemma levels_defined: "\<forall>x\<in>set cur. encodable (nhash x) \<Longrightarrow> cur \<noteq> [] \<Longrightarrow> \<exists>lv. levels_from H cur = Some lv \<and> (\<forall>x\<in>set (last lv). encodable (nhash x))"
proof (induction H cur rule: levels_from.induct)
  case (1 H cur)
  show ?case
  proof (cases "length cur > 1")
    case True
    obtain nxt where n: "level_up H cur = Some nxt" "\<forall>y\<in>set nxt. encodable (nhash y)" using level_up_defined 1(2) by blast
    have "nxt \<noteq> []" using level_up_length [OF n(1)] True by auto
    then obtain lv where lv: "levels_from H nxt = Some lv" "\<forall>x\<in>set (last lv). encodable (nhash x)"
      using 1(1) [OF True n(1)] n(2) by blast
    moreover have "lv \<noteq> []" using levels_cases [OF lv(1) \<open>nxt \<noteq> []\<close>] by blast
    ultimately show ?thesis using True n(1) by (subst levels_from.simps) auto
  next
    case False
    then show ?thesis using 1(2) by (subst levels_from.simps) auto
  qed
qed

lemma build_defined:
  assumes "encodable ms" "\<forall>r\<in>set rs. encodable (canonical_record r) \<and> (\<exists>n d. num_of spec r = Some n \<and> den_of spec r = Some d \<and> 0 \<le> n \<and> 0 \<le> d)"
  shows "\<exists>L. build_leaves_from H ms spec i rs = Some L \<and> length L = length rs \<and> (\<forall>y\<in>set L. encodable (nhash y))"
  using assms(2)
proof (induction rs arbitrary: i)
  case (Cons r rs)
  obtain n d where nd: "num_of spec r = Some n" "den_of spec r = Some d" "0 \<le> n" "0 \<le> d" "encodable (canonical_record r)" using Cons(2) by auto
  obtain salt where s: "leaf_salt H ms i = Some salt" "encodable salt"
    using hash_defined [of "ms @ lit ''|leaf|'' @ nat_str i" H] assms(1) encodable_int_str(1) [of "int i"]
    by (auto simp: leaf_salt_def int_str_def encodable_Cons_scalar scalar_def)
  obtain cm where c: "leaf_commit H r salt = Some cm" "encodable cm"
    using hash_defined [of "record_text r salt" H] s(2) nd(5) by (auto simp: leaf_commit_text record_text_def encodable_parts encodable_Cons_scalar scalar_def)
  obtain h where h: "text_hash H (leaf_text cm n d) = Some h" "encodable h"
    using hash_defined [of "leaf_text cm n d" H] c(2) by (auto simp: leaf_text_def encodable_parts encodable_Cons_scalar scalar_def)
  have leaf: "leaf_node H r salt n d = Some \<lparr>nhash = h, nnum = n, nden = d\<rparr>" using c(1) h(1) by (simp add: leaf_node_iff)
  obtain L where "build_leaves_from H ms spec (Suc i) rs = Some L" "length L = length rs" "\<forall>y\<in>set L. encodable (nhash y)"
    using Cons by force
  then show ?case using nd s leaf h(2) by simp
qed simp

text \<open>Commitment fails only on an empty ledger, a text that cannot be encoded, or a contribution that is no number or negative.\<close>

lemma commit_defined:
  assumes "rs \<noteq> []" "encodable ms" "encodable asof" "encodable (metric_id spec)"
    "\<forall>r\<in>set rs. encodable (canonical_record r) \<and> (\<exists>n d. num_of spec r = Some n \<and> den_of spec r = Some d \<and> 0 \<le> n \<and> 0 \<le> d)"
  shows "\<exists>c. commit_ledger H rs ms spec asof = Some c"
proof -
  obtain L where L: "build_leaves H rs ms spec = Some L" "length L = length rs" "\<forall>y\<in>set L. encodable (nhash y)"
    using build_defined [OF assms(2,5), of H 0] by (auto simp: build_leaves_def)
  then have ne: "L \<noteq> []" using assms(1) by auto
  obtain lv where lv: "levels_from H L = Some lv" "\<forall>x\<in>set (last lv). encodable (nhash x)" using levels_defined [OF L(3) ne] by blast
  obtain rt where "last lv = [rt]" using levels_root [OF lv(1) ne] by auto
  then show ?thesis
    using L ne lv hash_defined [of "bind_text (nhash rt) (int (length rs)) (metric_id spec) asof (nnum rt) (nden rt)" H] assms(3,4)
    by (auto simp: commit_ledger_def levels_def Let_def bind_meta_def bind_text_def encodable_parts SPEC_VERSION_def encodable_Cons_scalar scalar_def)
qed

section \<open>A concrete ledger\<close>

definition example_loans :: "loan list" where
  "example_loans =
     [[(lit ''principal_outstanding'', JStr (lit ''100.50'')), (lit ''days_overdue'', JInt 45)],
      [(lit ''principal_outstanding'', JInt 300), (lit ''days_overdue'', JInt 0), (lit ''status'', JStr (lit ''current''))]]"

definition example_commitment :: commitment where
  "example_commitment = the (commit_ledger example_hash example_loans (lit ''s'') (SPEC_PAR30 (\<lambda>s. s)) (lit ''2026''))"

lemma example_outstanding: "outstanding (example_loans ! 0) = Some 10050" "outstanding (example_loans ! 1) = Some 30000"
  by (simp_all add: outstanding_def example_loans_def get_or_def lit_def to_minor_def dec_parse_def py_strip_def py_space_def c_space_def
      to_ascii_digit_def unicode_spaces_def dec_number_def is_digit_def dec_exponent_def digits_val_def PREC_def dec_of_int_def Let_def)

lemma example_contributions:
  "\<forall>r\<in>set example_loans. encodable (canonical_record r) \<and>
     (\<exists>n d. num_of (SPEC_PAR30 (\<lambda>s. s)) r = Some n \<and> den_of (SPEC_PAR30 (\<lambda>s. s)) r = Some d \<and> 0 \<le> n \<and> 0 \<le> d)"
proof -
  have e: "encodable (canonical_record (example_loans ! 0))" "encodable (canonical_record (example_loans ! 1))"
    by (simp_all add: example_loans_def canonical_record_def lit_def raw_str_def esc_raw_def encodable_scalar scalar_def int_str_def nat_str.simps)
  have "set example_loans = {example_loans ! 0, example_loans ! 1}" by (auto simp: example_loans_def)
  then show ?thesis using example_outstanding e by (simp add: SPEC_PAR30_def)
qed

lemma example_committed:
  "commit_ledger example_hash example_loans (lit ''s'') (SPEC_PAR30 (\<lambda>s. s)) (lit ''2026'') = Some example_commitment"
proof -
  have "\<exists>c. commit_ledger example_hash example_loans (lit ''s'') (SPEC_PAR30 (\<lambda>s. s)) (lit ''2026'') = Some c"
    by (rule commit_defined [OF _ _ _ _ example_contributions])
      (simp_all add: example_loans_def SPEC_PAR30_def encodable_Cons_scalar scalar_def)
  then show ?thesis by (auto simp: example_commitment_def)
qed

lemma example_opening:
  "\<exists>xs rs. open_leaves example_hash example_loans (lit ''s'') (SPEC_PAR30 (\<lambda>s. s)) [1, 0] = Some xs \<and> length xs = 2 \<and>
     verify_open example_hash example_commitment (SPEC_PAR30 (\<lambda>s. s)) xs = Some (True, rs)"
proof -
  obtain xs rs where "open_leaves example_hash example_loans (lit ''s'') (SPEC_PAR30 (\<lambda>s. s)) [1, 0] = Some xs" "length xs = length [1 :: nat, 0]"
    "those (map (verify_leaf example_hash example_commitment (SPEC_PAR30 (\<lambda>s. s))) xs) = Some rs" "list_all leaf_ok rs"
    using honest_openings [OF example_committed, of "[1, 0]"] by (auto simp: example_loans_def)
  moreover from this have "xs \<noteq> []" by auto
  ultimately show ?thesis by (auto simp: verify_open_def)
qed

section \<open>The theorems\<close>

text \<open>
  C26. A selective opening is honest: when \<^verbatim>\<open>verify_open\<close> accepts openings against a commitment made by \<^verbatim>\<open>commit_ledger\<close>, each
  opened record contributes what the verifier's metric says of it, between zero and the published totals, and it has the
  canonical form and the salt of a committed record whose committed contributions are the opened ones; or two different
  texts that were hashed for the commitment or for the opening have one digest.
\<close>

theorem accepted_opening_is_committed:
  assumes "commit_ledger H records ms spec asof = Some c" "verify_open H c spec' xs = Some (True, rs)" "x \<in> set xs"
  shows "num_of spec' (o_record x) = Some (o_num x) \<and> den_of spec' (o_record x) = Some (o_den x) \<and>
    0 \<le> o_num x \<and> o_num x \<le> num_total c \<and> 0 \<le> o_den x \<and> o_den x \<le> den_total c \<and>
    ((\<exists>i<length records. leaf_salt H ms i = Some (o_salt x) \<and> canonical_record (o_record x) = canonical_record (records ! i) \<and>
        num_of spec (records ! i) = Some (o_num x) \<and> den_of spec (records ! i) = Some (o_den x)) \<or>
      collision H (utf8 ` (commit_texts H records ms spec asof \<union> opening_texts H c x)))"
proof -
  obtain r where r: "verify_leaf H c spec' x = Some r" "leaf_ok r" using verify_open_leaf [OF assms(2,3)] by blast
  show ?thesis using opening_bounds [OF r] opening_binds [OF assms(1) r] by blast
qed

theorem accepted_opening_is_committed_witness:
  "\<exists>c xs rs. commit_ledger example_hash example_loans (lit ''s'') (SPEC_PAR30 (\<lambda>s. s)) (lit ''2026'') = Some c \<and>
     verify_open example_hash c (SPEC_PAR30 (\<lambda>s. s)) xs = Some (True, rs) \<and> length xs = 2 \<and>
     0 \<le> o_num (hd xs) \<and> o_num (hd xs) \<le> num_total c"
proof -
  obtain xs rs where o: "verify_open example_hash example_commitment (SPEC_PAR30 (\<lambda>s. s)) xs = Some (True, rs)" "length xs = 2"
    using example_opening by blast
  then have "hd xs \<in> set xs" by (cases xs) auto
  then show ?thesis using accepted_opening_is_committed [OF example_committed o(1), of "hd xs"] o example_committed by blast
qed

text \<open>
  The openings the committing party computes are accepted: for any non-empty choice of positions in the ledger,
  \<^verbatim>\<open>open_leaves\<close> succeeds and \<^verbatim>\<open>verify_open\<close> answers \<^verbatim>\<open>all_ok\<close> for its result.
\<close>

theorem computed_openings_verify:
  assumes "commit_ledger H records ms spec asof = Some c" "indices \<noteq> []" "list_all (\<lambda>i. i < length records) indices"
  shows "\<exists>xs rs. open_leaves H records ms spec indices = Some xs \<and> verify_open H c spec xs = Some (True, rs)"
proof -
  obtain xs rs where "open_leaves H records ms spec indices = Some xs" "length xs = length indices"
    "those (map (verify_leaf H c spec) xs) = Some rs" "list_all leaf_ok rs"
    using honest_openings [OF assms(1), of indices] assms(3) by (auto simp: list_all_iff)
  moreover from this have "xs \<noteq> []" using assms(2) by auto
  ultimately show ?thesis by (auto simp: verify_open_def)
qed

theorem computed_openings_verify_witness:
  "\<exists>xs rs. open_leaves example_hash example_loans (lit ''s'') (SPEC_PAR30 (\<lambda>s. s)) [1, 0] = Some xs \<and>
     verify_open example_hash example_commitment (SPEC_PAR30 (\<lambda>s. s)) xs = Some (True, rs)"
  by (rule computed_openings_verify [OF example_committed]) (simp_all add: example_loans_def)

text \<open>
  C27. The regulator's recomputation is tamper-evident and complete in number: when \<^verbatim>\<open>verify_full\<close> accepts a ledger against a
  commitment made from another one, under any salt and metric, both have the same records in the same order (in canonical
  form), as many as the expected count, or two different texts that were hashed for the two commitments have one digest.
\<close>

theorem full_recomputation_binds:
  assumes "commit_ledger H records ms spec asof = Some c" "verify_full H records' ms' spec' c expected = Some f" "full_ok f"
  shows "(case expected of None \<Rightarrow> True | Some n \<Rightarrow> int (length records') = n) \<and>
    (map canonical_record records' = map canonical_record records \<or>
     collision H (utf8 ` (commit_texts H records ms spec asof \<union> commit_texts H records' ms' spec' asof)))"
proof -
  obtain lv rt where c: "n_committed c = length records" "as_of c = asof" by (rule committed [OF assms(1) subset_UNIV]) blast
  obtain c' where c': "commit_ledger H records' ms' spec' asof = Some c'" "root_hash c' = root_hash c" "n_committed c' = n_committed c"
    "case expected of None \<Rightarrow> True | Some n \<Rightarrow> int (n_committed c) = n"
    using assms(2,3) c(2) by (auto simp: verify_full_def Let_def)
  have "n_committed c' = length records'" by (rule committed [OF c'(1) subset_UNIV]) blast
  then have n: "length records' = n_committed c" using c'(3) by simp
  show ?thesis unfolding n using same_commitment [OF assms(1) c'(1,2) Un_upper1 Un_upper2] c'(4) by blast
qed

theorem full_recomputation_binds_witness:
  "\<exists>f. verify_full example_hash example_loans (lit ''s'') (SPEC_PAR30 (\<lambda>s. s)) example_commitment (Some 2) = Some f \<and> full_ok f \<and>
     int (length example_loans) = 2"
proof -
  have "n_committed example_commitment = 2 \<and> as_of example_commitment = lit ''2026''"
    by (rule committed [OF example_committed subset_UNIV]) (simp add: example_loans_def)
  then obtain f where "verify_full example_hash example_loans (lit ''s'') (SPEC_PAR30 (\<lambda>s. s)) example_commitment (Some 2) = Some f" "full_ok f"
    using example_committed by (simp add: verify_full_def Let_def del: lit_Cons)
  then show ?thesis using full_recomputation_binds [OF example_committed, of example_loans "lit ''s''" _ "Some 2" f] by auto
qed

text \<open>
  C28. The public attestation of the portfolio-at-risk ratio: its totals are the sums of the records' contributions, the
  numerator is between zero and the denominator, \<^verbatim>\<open>attestation\<close> succeeds, and both offline checks, \<^verbatim>\<open>verify_attestation\<close> (the
  totals are bound to the root, the ratio is theirs to six places) and \<^verbatim>\<open>verify_metric_consistency\<close> with the verifier's own
  table, accept it. The hash function has 32-octet values.
\<close>

theorem attested_par30:
  assumes "\<And>b. length (H b) = 32" "commit_ledger H records ms (SPEC_PAR30 lower) asof = Some c"
  shows "0 \<le> num_total c \<and> num_total c \<le> den_total c \<and>
    num_total c = (\<Sum>r\<leftarrow>records. the (num_of (SPEC_PAR30 lower) r)) \<and> den_total c = (\<Sum>r\<leftarrow>records. the (outstanding r)) \<and>
    (\<exists>att. attestation H c = Some att \<and> verify_attestation H att = Some True \<and>
       map_option fst (verify_metric_consistency H att None) = Some True)"
proof -
  note t = par30_totals [OF assms(2)]
  obtain t where "tree_root c = hex_of (H (utf8 t))" using t(9) text_hash_some by blast
  then have "length (tree_root c) = 64" using assms(1) [of "utf8 t"] by simp
  then have tr: "tree_root c \<noteq> []" by auto
  obtain nh where nh: "metric_numerical_hash H SPEC_VERSION (c_metric_id c) (as_of c) (num_total c) (den_total c) = Some nh"
    using t(5-7) text_hash_defined [of "enc_parts [lit ''CLDMA-NUM'', SPEC_VERSION, lit ''PAR30'', asof, int_str (num_total c), int_str (den_total c)]" H]
    unfolding metric_numerical_hash_def encodable_parts by (auto simp: SPEC_VERSION_def encodable_scalar lit_def scalar_def)
  obtain r where r: "(if den_total c \<noteq> 0 then ratio_text (num_total c) (den_total c) else Some (lit ''0.000000'')) = Some r"
    and v: "den_total c \<noteq> 0 \<Longrightarrow> ratio_le_1 (num_total c) (den_total c) \<and> (\<exists>q. ratio_text (num_total c) (den_total c) = Some (dec_fixed 6 False q) \<and> q < 10 ^ PREC)"
    using ratio_bounded [of "num_total c" "den_total c"] t(1,2) by (cases "den_total c = 0") auto
  obtain att where att: "attestation H c = Some att" using r nh by (simp add: attestation_def del: lit_Cons)
  have "verify_attestation H att = Some True"
  proof (cases "den_total c = 0")
    case True
    then show ?thesis using att r nh tr t(8) by (auto simp: attestation_def verify_attestation_def)
  next
    case False
    then obtain q where q: "r = dec_fixed 6 False q" "q < 10 ^ PREC" using v r by auto
    show ?thesis using att r nh tr t(8) False dec_parse_fixed [of 6 False q] quantize_id [OF q(2), of 6 False]
      by (auto simp: attestation_def verify_attestation_def q(1))
  qed
  moreover have "map_option fst (verify_metric_consistency H att None) = Some True"
    using att r nh t(1,2,5) v by (auto simp: attestation_def verify_metric_consistency_def KNOWN_BOUNDED_def Let_def)
  ultimately show ?thesis using t att by blast
qed

theorem attested_par30_witness:
  "\<exists>att. attestation example_hash example_commitment = Some att \<and> verify_attestation example_hash att = Some True \<and>
     num_total example_commitment \<le> den_total example_commitment"
  using attested_par30 [OF length_example_hash example_committed] by blast

text \<open>
  C29. The challenge loop ends: as soon as the first draws from the root and the nonce hold as many distinct positions as the
  challenge needs, \<^verbatim>\<open>challenge\<close> returns, with exactly \<^verbatim>\<open>min(k, n)\<close> distinct positions, all of them drawn and all of them records of
  the ledger.
\<close>

theorem challenge_terminates:
  assumes "map (\<lambda>i. draw H root nonce i n) [0..<length ds] = map Some ds" "min k n \<le> card (set ds)"
  shows "\<exists>res. challenge H root nonce k n = Some res \<and> distinct res \<and> length res = min k n \<and> set res \<subseteq> set ds \<and>
    set res \<subseteq> {0..<int n}"
proof -
  obtain res where r: "challenge_loop H root nonce k n 0 [] = Some res" "distinct res" "length res = min k n" "set res \<subseteq> set ds"
    using challenge_loop_ends [OF assms, of 0 "[]"] by auto
  have "x \<in> {0..<int n}" if x: "x \<in> set ds" "0 < n" for x
  proof -
    obtain i where "i < length ds" "x = ds ! i" using x(1) unfolding in_set_conv_nth by blast
    then have "draw H root nonce i n = Some x" using arg_cong [OF assms(1), of "\<lambda>xs. xs ! i"] by simp
    then show ?thesis using x(2) by (auto simp: draw_def split: bind_splits)
  qed
  then have "set res \<subseteq> {0..<int n}" using r(3,4) by (cases "n = 0") auto
  then show ?thesis using r by (auto simp: challenge_def)
qed

theorem challenge_terminates_witness:
  "\<exists>res. challenge example_hash (lit ''ab'') (lit ''n'') 1 2 = Some res \<and> length res = 1"
proof -
  have "draw example_hash (lit ''ab'') (lit ''n'') 0 2 \<noteq> None" by code_simp
  then obtain d where "draw example_hash (lit ''ab'') (lit ''n'') 0 2 = Some d" by blast
  then show ?thesis using challenge_terminates [of example_hash "lit ''ab''" "lit ''n''" 2 "[d]" 1] by auto
qed

end
