(* ===== verification/Ledger_File.thy ===== *)
theory Ledger_File
  imports Py_Decimal Ledger Merkle_Inclusion
begin

text \<open>
  Ledger files as the Merkle commands, the monitor and the ingestor read them (\<^verbatim>\<open>leaves_from_ledger\<close>, \<^verbatim>\<open>tree_head\<close> and \<^verbatim>\<open>main\<close> of
  \<^verbatim>\<open>src/cryptovalid_merkle.py\<close>): text mode with universal newlines, one JSON object per non-blank line, plain \<^verbatim>\<open>json.loads\<close>.
  A line outside the acceptance profile (a float, a repeated key, a large integer, deep nesting, a lone surrogate), which
  plain \<^verbatim>\<open>json.loads\<close> may read to a value that the model has no place for, gives \<open>Beyond\<close>.
\<close>

section \<open>Reading\<close>

datatype 'a attempt = Done 'a | Raising | Beyond

fun bind_attempt :: "'a attempt \<Rightarrow> ('a \<Rightarrow> 'b attempt) \<Rightarrow> 'b attempt" where
  "bind_attempt (Done x) f = f x"
| "bind_attempt Raising f = Raising"
| "bind_attempt Beyond f = Beyond"

lemma bind_attempt_Done: "bind_attempt m f = Done y \<longleftrightarrow> (\<exists>x. m = Done x \<and> f x = Done y)"
  by (cases m) auto

fun all_done :: "'a attempt list \<Rightarrow> 'a list attempt" where
  "all_done [] = Done []"
| "all_done (x # xs) = bind_attempt x (\<lambda>y. bind_attempt (all_done xs) (\<lambda>ys. Done (y # ys)))"

lemma all_done_map: "(\<And>x. x \<in> set xs \<Longrightarrow> f x = Done (g x)) \<Longrightarrow> all_done (map f xs) = Done (map g xs)"
  by (induction xs) auto

text \<open>\<open>Broken\<close> is a \<^verbatim>\<open>JSONDecodeError\<close>.\<close>

datatype line_read = Value json | Broken | Other

definition text_loads :: "pystr \<Rightarrow> line_read" where
  "text_loads s = (case loads_strict s of Inr v \<Rightarrow> Value v | Inl Decode_Error \<Rightarrow> Broken | Inl _ \<Rightarrow> Other)"

text \<open>Text mode: \<^verbatim>\<open>CR LF\<close> and a lone \<^verbatim>\<open>CR\<close> read as \<^verbatim>\<open>LF\<close>.\<close>

fun universal_newlines :: "pystr \<Rightarrow> pystr" where
  "universal_newlines [] = []"
| "universal_newlines [c] = [if c = 13 then 10 else c]"
| "universal_newlines (c # d # s) =
     (if c = 13 \<and> d = 10 then 10 # universal_newlines s
      else (if c = 13 then 10 else c) # universal_newlines (d # s))"

lemma universal_newlines_plain: "13 \<notin> set s \<Longrightarrow> universal_newlines s = s"
  by (induction s rule: universal_newlines.induct) auto

definition text_lines :: "bytes \<Rightarrow> pystr list option" where
  "text_lines b = map_option (\<lambda>s. filter (\<lambda>l. \<not> list_all py_space l) (split_lines (universal_newlines s))) (utf8_decode b)"

definition leaf_of_line :: "pystr \<Rightarrow> bytes attempt" where
  "leaf_of_line l =
     (case text_loads l of
        Value (JObj e) \<Rightarrow> Done (canonical_payload e)
      | Value _ \<Rightarrow> Raising
      | Broken \<Rightarrow> Raising
      | Other \<Rightarrow> Beyond)"

definition leaves_from_ledger :: "bytes \<Rightarrow> bytes list attempt" where
  "leaves_from_ledger file = (case text_lines file of None \<Rightarrow> Raising | Some ls \<Rightarrow> all_done (map leaf_of_line ls))"

section \<open>The Merkle commands\<close>

definition tree_head_note :: pystr where
  "tree_head_note = lit ''unsigned; sign it with cryptovalid_receipt.signed_tree_head and/or submit root_sha256 to a qualified TSP for a QUALIFIED RFC 3161 timestamp''"

definition tree_head :: "hashf \<Rightarrow> bytes list \<Rightarrow> entry" where
  "tree_head H leaves =
     [(lit ''tree_size'', JInt (int (length leaves))), (lit ''root_sha256'', JStr (hex_of (mth H leaves))),
      (lit ''signed'', JBool False), (lit ''note'', JStr tree_head_note)]"

datatype merkle_command = Sth | Prove int | Verify int

text \<open>What a command emits, with its exit code; an index outside the ledger fails the assertion of \<^verbatim>\<open>inclusion_proof\<close>.\<close>

definition merkle_main :: "hashf \<Rightarrow> bytes \<Rightarrow> merkle_command \<Rightarrow> (json \<times> int) attempt" where
  "merkle_main H file cmd =
     bind_attempt (leaves_from_ledger file) (\<lambda>lv.
       let rt = mth H lv in
       case cmd of
         Sth \<Rightarrow> Done (JObj (tree_head H lv), 0)
       | Prove i \<Rightarrow>
           (case inclusion_proof H i lv of
              None \<Rightarrow> Raising
            | Some pr \<Rightarrow> Done (JObj [(lit ''index'', JInt i), (lit ''tree_size'', JInt (int (length lv))),
                (lit ''root_sha256'', JStr (hex_of rt)), (lit ''audit_path'', JArr (map (\<lambda>h. JStr (hex_of h)) pr))], 0))
       | Verify i \<Rightarrow>
           (case inclusion_proof H i lv of
              None \<Rightarrow> Raising
            | Some pr \<Rightarrow>
                if verify_inclusion H i (int (length lv)) (lv ! nat i) pr rt
                then Done (JStr (lit ''INCLUSION VALID''), 0) else Done (JStr (lit ''INCLUSION INVALID''), 1)))"

section \<open>Written ledgers\<close>

text \<open>
  The text of a line as the ingestor writes it, with sorted keys; \<open>stored e\<close> is the entry it reads back to.
\<close>

definition stored :: "entry \<Rightarrow> entry" where
  "stored e = (case sorted_keys (JObj e) of JObj s \<Rightarrow> s | _ \<Rightarrow> [])"

lemma stored_sort: "stored e = sort_key fst (map (\<lambda>(k, v). (k, sorted_keys v)) e)"
  by (simp add: stored_def)

lemma JObj_stored: "JObj (stored e) = sorted_keys (JObj e)"
  by (simp add: stored_sort)

lemma sort_key_map_pair: "sort_key fst (map (\<lambda>(k, v). (k, f v)) xs) = map (\<lambda>(k, v). (k, f v)) (sort_key fst xs)"
proof -
  have "insort_key fst (k, f v) (map (\<lambda>(k, v). (k, f v)) ys) = map (\<lambda>(k, v). (k, f v)) (insort_key fst (k, v) ys)" for k v ys
    by (induction ys) auto
  note ins = this
  show ?thesis
  proof (induction xs)
    case (Cons x xs)
    then show ?case using ins by (cases x) (simp only: list.simps sort_key_simps prod.case)
  qed simp
qed

lemma sort_key_twice [simp]: "sort_key f (sort_key f xs) = sort_key f xs"
  by (rule sort_key_id_if_sorted) (rule sorted_sort_key)

lemma sorted_keys_idem [simp]: "sorted_keys (sorted_keys v) = sorted_keys v"
proof (induction v rule: sorted_keys.induct)
  case (2 kvs)
  let ?n = "\<lambda>(k, v). (k, sorted_keys v)"
  have "map ?n (map ?n (sort_key fst kvs)) = map ?n (sort_key fst kvs)" using 2 by (fastforce simp: comp_def)
  then show ?case by (simp only: sorted_keys.simps sort_key_map_pair sort_key_twice)
qed auto

lemma stored_norm: "map (\<lambda>(k, v). (k, sorted_keys v)) (stored e) = stored e"
proof -
  let ?n = "\<lambda>(k, v). (k, sorted_keys v)"
  have "?n (?n x) = ?n x" for x :: "pystr \<times> json" by (cases x) simp
  then show ?thesis by (simp add: stored_sort sort_key_map_pair del: map_map) (simp add: comp_def)
qed

lemma sorted_content: "sorted_keys (JObj (content (stored e))) = sorted_keys (JObj (content e))"
proof -
  have c: "map (\<lambda>(k, v). (k, sorted_keys v)) (content x) = content (map (\<lambda>(k, v). (k, sorted_keys v)) x)" for x
    by (induction x) (auto simp: content_def)
  have "content (stored e) = sort_key fst (content (map (\<lambda>(k, v). (k, sorted_keys v)) e))"
    by (simp add: content_def stored_sort filter_sort)
  moreover have "map (\<lambda>(k, v). (k, sorted_keys v)) (content (stored e)) = content (stored e)" using c [of "stored e"] stored_norm by simp
  ultimately show ?thesis by (simp add: c)
qed

lemma canonical_payload_stored [simp]: "canonical_payload (stored e) = canonical_payload e"
  using sorted_content [of e] by (simp add: canonical_payload_def canonical_bytes_def canonical_dumps_def del: sorted_keys.simps)

lemma get_stored:
  assumes "distinct (map fst e)"
  shows "get (stored e) k = sorted_keys (get e k)"
  using map_of_sorted_keys [OF assms, of "stored e" "lit k"] by (simp add: JObj_stored get_def split: option.split)

lemma stored_keys: "set (map fst (stored e)) = set (map fst e)"
  by (auto simp: stored_sort) force+

lemma stored_wf: "entry_wf e \<Longrightarrow> entry_wf (stored e)"
  using sorted_keys_wf [of "JObj e"] by (simp only: entry_wf_def JObj_stored)

text \<open>The Merkle commands read a written ledger to the canonical payloads of its entries.\<close>

lemma ledger_text_ascii: "c \<in> set (ledger_text es) \<Longrightarrow> c < 128 \<and> c \<noteq> 13"
proof -
  assume "c \<in> set (ledger_text es)"
  then obtain e where "c = 10 \<or> c \<in> set (dumps (JObj e))" by (auto simp: ledger_text_def entry_line_def simp del: dumps_sep.simps split: if_splits)
  then show ?thesis using dumps_printable [of c "JObj e"] by auto
qed

definition ledger_bytes :: "entry list \<Rightarrow> bytes" where
  "ledger_bytes es = ascii_bytes (ledger_text es)"

lemma decode_ledger_bytes: "utf8_decode (ledger_bytes es) = Some (ledger_text es)"
  using utf8_ascii [of "ledger_text es"] ledger_text_ascii [of _ es] utf8_decode_encode by (auto simp: ledger_bytes_def)

lemma entry_line_loads: "entry_fits e \<Longrightarrow> loads_strict (entry_line e) = Inr (JObj e)"
  unfolding entry_line_def by (rule loads_strict_dumps_blanks) (auto simp: entry_fits_def entry_wf_def skip_ws_def)

lemma leaves_of_ledger_bytes:
  assumes "\<forall>e\<in>set es. entry_fits e"
  shows "leaves_from_ledger (ledger_bytes es) = Done (map canonical_payload es)"
proof -
  have "universal_newlines (ledger_text es) = ledger_text es" using ledger_text_ascii by (blast intro: universal_newlines_plain)
  moreover have "\<not> list_all py_space (entry_line e)" for e by (simp add: entry_line_def py_space_def c_space_def unicode_spaces_def)
  ultimately have "text_lines (ledger_bytes es) = Some (map entry_line es)"
    by (simp add: text_lines_def decode_ledger_bytes split_ledger_text filter_id_conv)
  moreover have "leaf_of_line (entry_line e) = Done (canonical_payload e)" if "e \<in> set es" for e
    using assms that entry_line_loads by (simp add: leaf_of_line_def text_loads_def)
  ultimately show ?thesis by (simp add: leaves_from_ledger_def all_done_map)
qed

end
