(* ===== verification/Archive.thy ===== *)
theory Archive
  imports Verifier Ledger_File Checkpoint
begin

text \<open>
  The auditor's side of an ingestion archive (\<^verbatim>\<open>_sth_canonical_hash\<close>, \<^verbatim>\<open>_check_signature\<close>, \<^verbatim>\<open>_load_json_object\<close> and \<^verbatim>\<open>verify_archive\<close> of
  \<^verbatim>\<open>src/cryptovalid_ingest.py\<close>): segments with their sealed tree heads, the chain of the heads, the manifest of the archive.
  A sidecar file is modelled by the document it holds. The check of a timestamp token's CMS signature (openssl) is an
  argument; the opt-in lookup of the EU trusted lists (a network service) is not modelled.
\<close>

section \<open>Documents\<close>

datatype doc_file = No_File | Bad_Doc | Doc entry

definition sth_body :: "entry \<Rightarrow> entry" where
  "sth_body d = filter (\<lambda>(k, _). k \<noteq> lit ''signature'' \<and> k \<noteq> lit ''signer'') d"

definition sth_canonical_hash :: "('x crypto_scheme) \<Rightarrow> entry \<Rightarrow> pystr" where
  "sth_canonical_hash C sth = hex_of (sha256 C (canonical_bytes (JObj (sth_body sth))))"

text \<open>
  \<^verbatim>\<open>base64.b64decode\<close> without validation: characters outside the alphabet are skipped, a completed padding ends the text,
  an incomplete group is an error (\<open>None\<close>), a character beyond ASCII too.
\<close>

fun a2b :: "nat \<Rightarrow> nat \<Rightarrow> nat \<Rightarrow> pystr \<Rightarrow> bytes option" where
  "a2b pos left pads [] = (if pos = 0 then Some [] else None)"
| "a2b pos left pads (c # s) =
     (if c = 61 then (if 2 \<le> pos \<and> 4 \<le> pos + pads + 1 then Some [] else a2b pos left (if 2 \<le> pos then pads + 1 else pads) s)
      else case b64_val c of
          None \<Rightarrow> a2b pos left pads s
        | Some v \<Rightarrow>
            if pos = 0 then a2b 1 v 0 s
            else if pos = 1 then map_option (Cons (of_nat (left * 4 + v div 16))) (a2b 2 (v mod 16) 0 s)
            else if pos = 2 then map_option (Cons (of_nat (left * 16 + v div 4))) (a2b 3 (v mod 4) 0 s)
            else map_option (Cons (of_nat (left * 64 + v))) (a2b 0 0 0 s))"

definition b64_lenient :: "pystr \<Rightarrow> bytes option" where
  "b64_lenient s = (if list_all (\<lambda>c. c < 128) s then a2b 0 0 0 s else None)"

datatype sig_fault = Signer_Mismatch | Signature_Invalid

text \<open>\<open>pins\<close> are the trusted keys (one key, or a set of keys; empty when none is given). Every exception inside is an invalid signature.\<close>

definition check_signature :: "('x crypto_scheme) \<Rightarrow> entry \<Rightarrow> pystr list \<Rightarrow> sig_fault option" where
  "check_signature C d pins =
     (let signer = get d ''signer'' in
      if pins \<noteq> [] \<and> (case signer of JArr _ \<Rightarrow> True | JObj _ \<Rightarrow> True | _ \<Rightarrow> False) then Some Signature_Invalid
      else if pins \<noteq> [] \<and> \<not> (case signer of JStr k \<Rightarrow> k \<in> set pins | _ \<Rightarrow> False) then Some Signer_Mismatch
      else case (signer, get d ''signature'') of
          (JStr k, JStr s) \<Rightarrow>
            (case (fromhex k, b64_lenient s) of
               (Some pk, Some sg) \<Rightarrow>
                 if length pk = 32 \<and> ed_verify C pk sg (ascii_bytes (sth_canonical_hash C d)) then None else Some Signature_Invalid
             | _ \<Rightarrow> Some Signature_Invalid)
        | _ \<Rightarrow> Some Signature_Invalid)"

section \<open>The archive on disk\<close>

text \<open>The segment files in the order of their names; a segment with a head file is sealed.\<close>

record segment =
  seg_name :: pystr
  seg_file :: bytes
  seg_sth :: doc_file
  seg_tip :: "pystr option option"
  seg_token :: "bytes option"

record archive =
  arc_segments :: "segment list"
  arc_head :: doc_file

definition MAX_INPUT_BYTES :: nat where
  "MAX_INPUT_BYTES = 256 * 1024 * 1024"

definition ledger_state :: "bytes \<Rightarrow> file_state" where
  "ledger_state b =
     (if length b > MAX_INPUT_BYTES then Too_Large
      else case utf8_decode b of Some s \<Rightarrow> Text s | None \<Rightarrow> Unreadable (lit ''UnicodeDecodeError''))"

definition default_options :: options where
  "default_options = \<lparr>opt_algo = None, opt_pubkey = None, opt_require_tip = False, opt_not_before = None, opt_ledger_id = None,
     opt_pq_pubkey = None\<rparr>"

fun contains :: "bytes \<Rightarrow> bytes \<Rightarrow> bool" where
  "contains pat [] = (pat = [])"
| "contains pat (x # xs) = (take (length pat) (x # xs) = pat \<or> contains pat xs)"

text \<open>\<^verbatim>\<open>token_contains_digest\<close> for a digest of 32 octets: its DER octet string occurs in the token.\<close>

definition token_contains_digest :: "bytes \<Rightarrow> bytes \<Rightarrow> bool" where
  "token_contains_digest token digest = contains (4 # of_nat (length digest) # digest) token"

section \<open>Auditing the segments\<close>

datatype fault =
    Hash_Chain_Fail
  | Sth_Unreadable
  | Merkle_Root_Mismatch
  | Sth_Chain_Break
  | Sth_Signature sig_fault
  | Sth_Unsigned
  | Token_Cms_Invalid
  | Token_Digest_Mismatch
  | Head_Unreadable
  | Head_Count_Mismatch
  | Head_Last_Sth_Mismatch
  | Head_Signature sig_fault
  | Head_Unsigned_But_Pinned

record audit =
  prev_sth :: json
  signed_segments :: nat
  signers :: "json list"
  timestamped :: nat
  cms_unverified :: nat
  faults :: "(pystr \<times> fault) list"

definition add_fault :: "pystr \<Rightarrow> fault \<Rightarrow> audit \<Rightarrow> audit" where
  "add_fault name f a = a\<lparr>faults := faults a @ [(name, f)]\<rparr>"

definition fault_if :: "bool \<Rightarrow> pystr \<Rightarrow> fault \<Rightarrow> audit \<Rightarrow> audit" where
  "fault_if b name f a = (if b then add_fault name f a else a)"

definition hashable :: "json \<Rightarrow> bool" where
  "hashable v = (case v of JArr _ \<Rightarrow> False | JObj _ \<Rightarrow> False | _ \<Rightarrow> True)"

text \<open>\<^verbatim>\<open>signers.add(sth.get("signer"))\<close> raises on a list or a dictionary.\<close>

definition audit_signature :: "('x crypto_scheme) \<Rightarrow> pystr list \<Rightarrow> pystr \<Rightarrow> entry \<Rightarrow> audit \<Rightarrow> audit attempt" where
  "audit_signature C pins name sth a =
     (if truthy (get sth ''signature'') then
        (if \<not> hashable (get sth ''signer'') then Raising
         else
           let v = get sth ''signer'';
               b = a\<lparr>signed_segments := signed_segments a + 1, signers := (if list_ex (py_eq v) (signers a) then signers a else signers a @ [v])\<rparr>
           in Done (case check_signature C sth pins of Some f \<Rightarrow> add_fault name (Sth_Signature f) b | None \<Rightarrow> b))
      else Done (fault_if (pins \<noteq> []) name Sth_Unsigned a))"

definition audit_token :: "(bytes \<Rightarrow> bool option) \<Rightarrow> pystr \<Rightarrow> bytes option \<Rightarrow> bytes \<Rightarrow> audit \<Rightarrow> audit" where
  "audit_token cms name token digest a =
     (case token of
        None \<Rightarrow> a
      | Some t \<Rightarrow>
          if cms t = Some False then add_fault name Token_Cms_Invalid a
          else if \<not> token_contains_digest t digest then add_fault name Token_Digest_Mismatch a
          else a\<lparr>timestamped := timestamped a + 1, cms_unverified := cms_unverified a + (if cms t = None then 1 else 0)\<rparr>)"

definition audit_segment :: "crypto \<Rightarrow> (bytes \<Rightarrow> bool option) \<Rightarrow> pystr list \<Rightarrow> segment \<Rightarrow> audit \<Rightarrow> audit attempt" where
  "audit_segment C cms pins s a =
     (let name = seg_name s in
      if verdict (verify_ledger C default_options (ledger_state (seg_file s)) (seg_tip s)) \<noteq> PASS
      then Done (add_fault name Hash_Chain_Fail a)
      else case seg_sth s of
          Doc sth \<Rightarrow>
            bind_attempt (leaves_from_ledger (seg_file s)) (\<lambda>leaves.
              let a1 = fault_if (JStr (hex_of (mth (sha256 C) leaves)) \<noteq> get sth ''root_sha256'' \<or>
                                 \<not> py_eq (JInt (int (length leaves))) (get sth ''tree_size'')) name Merkle_Root_Mismatch a;
                  a2 = fault_if (get sth ''prev_sth_sha256'' \<noteq> prev_sth a1) name Sth_Chain_Break a1
              in bind_attempt (audit_signature C pins name sth a2) (\<lambda>a3.
                   Done (audit_token cms name (seg_token s) (sha256 C (canonical_bytes (JObj (sth_body sth))))
                     (a3\<lparr>prev_sth := JStr (sth_canonical_hash C sth)\<rparr>))))
        | _ \<Rightarrow> Done ((add_fault name Sth_Unreadable a)\<lparr>prev_sth := JNull\<rparr>))"

fun audit_segments :: "crypto \<Rightarrow> (bytes \<Rightarrow> bool option) \<Rightarrow> pystr list \<Rightarrow> segment list \<Rightarrow> audit \<Rightarrow> audit attempt" where
  "audit_segments C cms pins [] a = Done a"
| "audit_segments C cms pins (s # ss) a = bind_attempt (audit_segment C cms pins s a) (audit_segments C cms pins ss)"

section \<open>The manifest and the verdict\<close>

definition sealed :: "segment \<Rightarrow> bool" where
  "sealed s \<longleftrightarrow> seg_sth s \<noteq> No_File"

definition HEAD_NAME :: pystr where
  "HEAD_NAME = lit ''HEAD''"

definition head_faults :: "('x crypto_scheme) \<Rightarrow> pystr list \<Rightarrow> nat \<Rightarrow> json \<Rightarrow> doc_file \<Rightarrow> fault list" where
  "head_faults C pins n last_sth head =
     (case head of
        No_File \<Rightarrow> []
      | Bad_Doc \<Rightarrow> [Head_Unreadable]
      | Doc h \<Rightarrow>
          (if py_eq (get h ''segments_sealed'') (JInt (int n)) then [] else [Head_Count_Mismatch]) @
          (if n > 0 \<and> get h ''last_sth_sha256'' \<noteq> last_sth then [Head_Last_Sth_Mismatch] else []) @
          (if truthy (get h ''signature'') then (case check_signature C h pins of Some f \<Rightarrow> [Head_Signature f] | None \<Rightarrow> [])
           else if pins \<noteq> [] then [Head_Unsigned_But_Pinned] else []))"

definition head_signed :: "doc_file \<Rightarrow> bool" where
  "head_signed head = (case head of Doc h \<Rightarrow> truthy (get h ''signature'') | _ \<Rightarrow> False)"

datatype warning = No_Head_Manifest | Head_Unsigned | Unsigned_Archive | No_Pinned_Pubkey | No_Rfc3161_Anchor | Tsa_Cms_Unverified nat

definition warnings :: "pystr list \<Rightarrow> nat \<Rightarrow> doc_file \<Rightarrow> audit \<Rightarrow> warning list" where
  "warnings pins n head a =
     (if n > 0 \<and> head = No_File then [No_Head_Manifest] else []) @
     (if n > 0 \<and> \<not> head_signed head then [Head_Unsigned] else []) @
     (if n > 0 \<and> signed_segments a = 0 then [Unsigned_Archive] else []) @
     (if n > 0 \<and> pins = [] then [No_Pinned_Pubkey] else []) @
     (if n > 0 \<and> timestamped a = 0 then [No_Rfc3161_Anchor] else []) @
     (if cms_unverified a > 0 then [Tsa_Cms_Unverified (cms_unverified a)] else [])"

text \<open>\<^verbatim>\<open>sorted(signers)\<close> raises on values that Python does not order.\<close>

definition sortable :: "json list \<Rightarrow> bool" where
  "sortable vs \<longleftrightarrow> length vs \<le> 1 \<or> list_all (\<lambda>v. case v of JStr _ \<Rightarrow> True | _ \<Rightarrow> False) vs \<or> list_all (\<lambda>v. as_int v \<noteq> None) vs"

record archive_report =
  rep_ok :: bool
  segments_verified :: nat
  unsealed_segments :: nat
  rep_signed :: nat
  rep_timestamped :: nat
  rep_head_present :: bool
  rep_head_signed :: bool
  rep_warnings :: "warning list"
  rep_failures :: "(pystr \<times> fault) list"

definition start_audit :: audit where
  "start_audit = \<lparr>prev_sth = JStr GENESIS_PREV, signed_segments = 0, signers = [], timestamped = 0, cms_unverified = 0, faults = []\<rparr>"

definition verify_archive :: "crypto \<Rightarrow> (bytes \<Rightarrow> bool option) \<Rightarrow> pystr list \<Rightarrow> archive \<Rightarrow> archive_report attempt" where
  "verify_archive C cms pins arc =
     (let segs = arc_segments arc; ss = filter sealed segs; n = length ss; head = arc_head arc in
      bind_attempt (audit_segments C cms pins ss start_audit) (\<lambda>a.
        let fs = faults a @ map (Pair HEAD_NAME) (head_faults C pins n (prev_sth a) head)
        in if \<not> sortable (signers a) then Raising
           else Done \<lparr>rep_ok = (n > 0 \<and> fs = []), segments_verified = n, unsealed_segments = length segs - n,
             rep_signed = signed_segments a, rep_timestamped = timestamped a, rep_head_present = (head \<noteq> No_File),
             rep_head_signed = head_signed head, rep_warnings = warnings pins n head a, rep_failures = fs\<rparr>))"

end
