(* ===== verification/Ingest.thy ===== *)
theory Ingest
  imports Archive
begin

text \<open>
  The ingestor (class \<^verbatim>\<open>Ingestor\<close> of \<^verbatim>\<open>src/cryptovalid_ingest.py\<close>): batched appends to the active segment, sealing with a head
  chained to the previous one and a manifest of the archive, and recovery after a crash. The segments of the directory are
  the ones the ingestor made, numbered from 0 and below a million, where the order of the file names is the order of the
  numbers. The lock makes every operation one step. Not modelled: the timestamp of a sealed head (\<^verbatim>\<open>_anchor\<close>, a network service).
\<close>

section \<open>Configuration, environment, state\<close>

record config =
  prefix :: pystr
  batch :: nat
  rotate :: nat
  do_fsync :: bool
  backend :: "signing_key option"
  tip_key :: "signing_key option"

text \<open>
  What the outside answers during one operation: the clock, the system calls of the append, the fate of each file written
  whole (the error of \<^verbatim>\<open>_fsync_dir\<close> comes after the file is in place), whether the signing backend answers.
\<close>

datatype doc_write = Written | Not_Written | Written_Then_Raised

record env =
  utc_now :: pystr
  append_sys :: sys
  tip_ts :: pystr
  tip_write :: doc_write
  backend_ok :: bool
  sealed_utc :: pystr
  sth_write :: doc_write
  updated_utc :: pystr
  head_write :: doc_write

record ingestor =
  disk :: archive
  seq :: nat
  idx :: nat
  prev :: pystr
  first :: pystr
  buf :: "pystr list"
  recovered_bytes :: nat

definition segment_name :: "config \<Rightarrow> nat \<Rightarrow> pystr" where
  "segment_name cfg n = prefix cfg @ 45 # pad 6 (nat_str n) @ lit ''.jsonl''"

definition fresh_segment :: "config \<Rightarrow> nat \<Rightarrow> segment" where
  "fresh_segment cfg n = \<lparr>seg_name = segment_name cfg n, seg_file = [], seg_sth = No_File, seg_tip = None, seg_token = None\<rparr>"

definition active :: "ingestor \<Rightarrow> segment" where
  "active st = arc_segments (disk st) ! seq st"

definition set_active :: "segment \<Rightarrow> ingestor \<Rightarrow> ingestor" where
  "set_active s st = st\<lparr>disk := (disk st)\<lparr>arc_segments := (arc_segments (disk st))[seq st := s]\<rparr>\<rparr>"

section \<open>Appending\<close>

text \<open>\<^verbatim>\<open>flush\<close>: the flag says whether it returned. The tip of the active segment is written after the batch is on disk.\<close>

definition write_active_tip :: "config \<Rightarrow> env \<Rightarrow> ingestor \<Rightarrow> bool \<times> ingestor" where
  "write_active_tip cfg env st =
     (case tip_key cfg of
        None \<Rightarrow> (True, st)
      | Some sk \<Rightarrow>
          let tip = write_tip (sk_sign sk) (sk_public sk) (int (idx st)) (first st) (prev st) (tip_ts env);
              st' = set_active ((active st)\<lparr>seg_tip := Some (Some (canonical_dumps tip))\<rparr>) st
          in (case tip_write env of Written \<Rightarrow> (True, st') | Not_Written \<Rightarrow> (False, st) | Written_Then_Raised \<Rightarrow> (False, st')))"

definition flush :: "config \<Rightarrow> env \<Rightarrow> ingestor \<Rightarrow> bool \<times> ingestor" where
  "flush cfg env st =
     (if buf st = [] then (True, st)
      else case append_line (append_sys env) (seg_file (active st)) (ascii_bytes (join [10] (buf st) @ [10])) (do_fsync cfg) of
          None \<Rightarrow> (False, st)
        | Some (Inl _, file) \<Rightarrow> (False, set_active ((active st)\<lparr>seg_file := file\<rparr>) st)
        | Some (Inr _, file) \<Rightarrow> write_active_tip cfg env ((set_active ((active st)\<lparr>seg_file := file\<rparr>) st)\<lparr>buf := []\<rparr>))"

text \<open>The entry of an event, hashed over its canonical form and stored with sorted keys.\<close>

definition event_entry :: "crypto \<Rightarrow> nat \<Rightarrow> pystr \<Rightarrow> json \<Rightarrow> pystr \<Rightarrow> entry" where
  "event_entry C i ts data pv =
     (let e = [(lit ''idx'', JInt (int i)), (lit ''ts'', JStr ts), (lit ''data'', data), (lit ''prev_hash'', JStr pv)]
      in e @ [(lit ''self_hash'', JStr (hash_with C Sha256 (canonical_bytes (JObj e))))])"

definition queue_event :: "crypto \<Rightarrow> env \<Rightarrow> json \<Rightarrow> ingestor \<Rightarrow> ingestor" where
  "queue_event C env data st =
     (let e = event_entry C (idx st) (utc_now env) data (prev st); sh = text_of (get e ''self_hash'')
      in st\<lparr>buf := buf st @ [canonical_dumps (JObj e)], first := (if idx st = 0 then sh else first st), prev := sh, idx := idx st + 1\<rparr>)"

section \<open>Sealing\<close>

definition prev_sth_hash :: "('x crypto_scheme) \<Rightarrow> ingestor \<Rightarrow> pystr attempt" where
  "prev_sth_hash C st =
     (if seq st > 0
      then (case seg_sth (arc_segments (disk st) ! (seq st - 1)) of
              Doc d \<Rightarrow> Done (sth_canonical_hash C d)
            | Bad_Doc \<Rightarrow> Raising
            | No_File \<Rightarrow> Done GENESIS_PREV)
      else Done GENESIS_PREV)"

text \<open>The fields a backend adds: the signature over the text of the hash, in base64, and its public key.\<close>

definition sign_doc :: "('x crypto_scheme) \<Rightarrow> signing_key option \<Rightarrow> entry \<Rightarrow> entry" where
  "sign_doc C key d =
     (case key of
        None \<Rightarrow> d
      | Some sk \<Rightarrow> d @ [(lit ''signature'', JStr (b64encode (sk_sign sk (ascii_bytes (sth_canonical_hash C d))))),
                       (lit ''signer'', JStr (hex_of (sk_public sk)))])"

definition segment_head :: "('x crypto_scheme) \<Rightarrow> config \<Rightarrow> env \<Rightarrow> nat \<Rightarrow> bytes list \<Rightarrow> pystr \<Rightarrow> pystr \<Rightarrow> entry" where
  "segment_head C cfg env n leaves last_self_hash prev_hash =
     tree_head (sha256 C) leaves @
     [(lit ''segment'', JStr (segment_name cfg n)), (lit ''sealed_utc'', JStr (sealed_utc env)),
      (lit ''last_self_hash'', JStr last_self_hash), (lit ''prev_sth_sha256'', JStr prev_hash)]"

definition archive_head :: "('x crypto_scheme) \<Rightarrow> config \<Rightarrow> env \<Rightarrow> nat \<Rightarrow> entry \<Rightarrow> entry" where
  "archive_head C cfg env n last_sth =
     [(lit ''prefix'', JStr (prefix cfg)), (lit ''segments_sealed'', JInt (int n)), (lit ''last_segment'', get last_sth ''segment''),
      (lit ''last_sth_sha256'', JStr (sth_canonical_hash C last_sth)), (lit ''updated_utc'', JStr (updated_utc env))]"

definition write_head :: "('x crypto_scheme) \<Rightarrow> config \<Rightarrow> env \<Rightarrow> entry \<Rightarrow> ingestor \<Rightarrow> bool \<times> ingestor" where
  "write_head C cfg env sth st =
     (let n = length (filter sealed (arc_segments (disk st)));
          head = sign_doc C (backend cfg) (archive_head C cfg env n sth);
          st' = st\<lparr>disk := (disk st)\<lparr>arc_head := Doc head\<rparr>\<rparr>
      in if backend cfg \<noteq> None \<and> \<not> backend_ok env then (False, st)
         else case head_write env of Written \<Rightarrow> (True, st') | Not_Written \<Rightarrow> (False, st) | Written_Then_Raised \<Rightarrow> (False, st'))"

definition next_segment :: "config \<Rightarrow> ingestor \<Rightarrow> ingestor" where
  "next_segment cfg st =
     st\<lparr>disk := (disk st)\<lparr>arc_segments := arc_segments (disk st) @ [fresh_segment cfg (seq st + 1)]\<rparr>, seq := seq st + 1,
        idx := 0, prev := GENESIS_PREV, first := GENESIS_PREV\<rparr>"

text \<open>\<^verbatim>\<open>seal\<close>: the head it returns (\<open>None\<close> when the segment is too short), or the exception, with the state it leaves.\<close>

definition seal_segment :: "crypto \<Rightarrow> config \<Rightarrow> env \<Rightarrow> nat \<Rightarrow> ingestor \<Rightarrow> entry option attempt \<times> ingestor" where
  "seal_segment C cfg env min_entries st =
     (case flush cfg env st of
        (False, st1) \<Rightarrow> (Raising, st1)
      | (True, st1) \<Rightarrow>
          if idx st1 < max 1 min_entries then (Done None, st1)
          else case bind_attempt (leaves_from_ledger (seg_file (active st1))) (\<lambda>leaves. bind_attempt (prev_sth_hash C st1) (\<lambda>p. Done (leaves, p))) of
              Raising \<Rightarrow> (Raising, st1)
            | Beyond \<Rightarrow> (Beyond, st1)
            | Done (leaves, p) \<Rightarrow>
                if backend cfg \<noteq> None \<and> \<not> backend_ok env then (Raising, st1)
                else
                  let sth = sign_doc C (backend cfg) (segment_head C cfg env (seq st1) leaves (prev st1) p);
                      st2 = set_active ((active st1)\<lparr>seg_sth := Doc sth\<rparr>) st1
                  in case sth_write env of
                      Not_Written \<Rightarrow> (Raising, st1)
                    | Written_Then_Raised \<Rightarrow> (Raising, st2)
                    | Written \<Rightarrow>
                        (case write_head C cfg env sth st2 of
                           (False, st3) \<Rightarrow> (Raising, st3)
                         | (True, st3) \<Rightarrow> (Done (Some sth), next_segment cfg st3)))"

text \<open>\<^verbatim>\<open>append\<close>: a full batch is flushed, a full segment is sealed; the flag says whether it returned.\<close>

definition append_event :: "crypto \<Rightarrow> config \<Rightarrow> env \<Rightarrow> json \<Rightarrow> ingestor \<Rightarrow> bool \<times> ingestor" where
  "append_event C cfg env data st =
     (let st1 = queue_event C env data st;
          (ok, st2) = (if length (buf st1) \<ge> batch cfg then flush cfg env st1 else (True, st1))
      in if \<not> ok then (False, st2)
         else if idx st2 \<ge> rotate cfg
         then (case seal_segment C cfg env (rotate cfg) st2 of (Done _, st3) \<Rightarrow> (True, st3) | (_, st3) \<Rightarrow> (False, st3))
         else (True, st2))"

definition close_ingestor :: "crypto \<Rightarrow> config \<Rightarrow> env \<Rightarrow> bool \<Rightarrow> ingestor \<Rightarrow> bool \<times> ingestor" where
  "close_ingestor C cfg env do_seal st =
     (if do_seal then (case seal_segment C cfg env 1 st of (Done _, st') \<Rightarrow> (True, st') | (_, st') \<Rightarrow> (False, st'))
      else flush cfg env st)"

section \<open>Recovery\<close>

text \<open>The lines of a binary file, each with its newline; \<^verbatim>\<open>json.loads\<close> of octets, which may take other encodings than UTF-8 (\<open>Other\<close>).\<close>

fun byte_lines :: "bytes \<Rightarrow> bytes list" where
  "byte_lines [] = []"
| "byte_lines (b # r) =
     (if b = 10 then [10] # byte_lines r
      else case byte_lines r of [] \<Rightarrow> [[b]] | l # ls \<Rightarrow> (b # l) # ls)"

definition other_encoding :: "bytes \<Rightarrow> bool" where
  "other_encoding b \<longleftrightarrow> 0 \<in> set (take 2 b) \<or> take 3 b = [239, 187, 191] \<or> take 2 b = [254, 255] \<or> take 2 b = [255, 254]"

definition line_loads :: "bytes \<Rightarrow> line_read" where
  "line_loads b = (if other_encoding b then Other else case utf8_decode b of Some s \<Rightarrow> text_loads s | None \<Rightarrow> Other)"

definition blank_bytes :: "bytes \<Rightarrow> bool" where
  "blank_bytes b = list_all (\<lambda>x. c_space (unat x)) b"

record progress =
  good_end :: nat
  p_idx :: nat
  p_prev :: pystr
  p_first :: pystr

text \<open>One complete line of \<^verbatim>\<open>_resume\<close>: \<open>Inl\<close> ends the loop.\<close>

definition resume_line :: "crypto \<Rightarrow> bytes \<Rightarrow> progress \<Rightarrow> (progress + progress) attempt" where
  "resume_line C l p =
     (if l = [] \<or> last l \<noteq> 10 then Done (Inl p)
      else if blank_bytes l then Done (Inr (p\<lparr>good_end := good_end p + length l\<rparr>))
      else case line_loads l of
          Broken \<Rightarrow> Done (Inl p)
        | Other \<Rightarrow> Beyond
        | Value (JObj e) \<Rightarrow>
            let recomputed = JStr (hash_with C Sha256 (canonical_payload e)) in
            if \<not> py_eq (get e ''idx'') (JInt (int (p_idx p))) \<or> get e ''prev_hash'' \<noteq> JStr (p_prev p) \<or> get e ''self_hash'' \<noteq> recomputed
            then Raising
            else Done (Inr \<lparr>good_end = good_end p + length l, p_idx = p_idx p + 1, p_prev = text_of (get e ''self_hash''),
                         p_first = (if p_idx p = 0 then text_of (get e ''self_hash'') else p_first p)\<rparr>)
        | Value _ \<Rightarrow> Raising)"

fun resume_loop :: "crypto \<Rightarrow> bytes list \<Rightarrow> progress \<Rightarrow> progress attempt" where
  "resume_loop C [] p = Done p"
| "resume_loop C (l # ls) p =
     bind_attempt (resume_line C l p) (\<lambda>r. case r of Inl q \<Rightarrow> Done q | Inr q \<Rightarrow> resume_loop C ls q)"

definition resume :: "crypto \<Rightarrow> bytes \<Rightarrow> progress attempt" where
  "resume C file = resume_loop C (byte_lines file) \<lparr>good_end = 0, p_idx = 0, p_prev = GENESIS_PREV, p_first = GENESIS_PREV\<rparr>"

text \<open>
  \<^verbatim>\<open>_open_or_resume\<close>: the last segment is resumed unless it is sealed, its torn tail cut off; else a new one is opened.
\<close>

definition open_or_resume :: "crypto \<Rightarrow> config \<Rightarrow> archive \<Rightarrow> ingestor attempt" where
  "open_or_resume C cfg arc =
     (let segs = arc_segments arc; n = length segs in
      if segs \<noteq> [] \<and> \<not> sealed (last segs)
      then bind_attempt (resume C (seg_file (last segs))) (\<lambda>p. Done
             \<lparr>disk = arc\<lparr>arc_segments := segs[n - 1 := (last segs)\<lparr>seg_file := take (good_end p) (seg_file (last segs))\<rparr>]\<rparr>,
              seq = n - 1, idx = p_idx p, prev = p_prev p, first = p_first p, buf = [],
              recovered_bytes = length (seg_file (last segs)) - good_end p\<rparr>)
      else Done \<lparr>disk = arc\<lparr>arc_segments := segs @ [fresh_segment cfg n]\<rparr>, seq = n, idx = 0, prev = GENESIS_PREV,
              first = GENESIS_PREV, buf = [], recovered_bytes = 0\<rparr>)"

text \<open>The constructor checks its two numbers first.\<close>

definition ingestor_init :: "crypto \<Rightarrow> config \<Rightarrow> archive \<Rightarrow> ingestor attempt" where
  "ingestor_init C cfg arc = (if batch cfg < 1 \<or> rotate cfg < 1 then Raising else open_or_resume C cfg arc)"

end
