(* ===== verification/Monitor.thy ===== *)
theory Monitor
  imports Receipt Ingest
begin

text \<open>
  The monitor of a ledger (\<^verbatim>\<open>src/cryptovalid_monitor.py\<close>): every run checks that the ledger grew append-only from the
  state saved by the last green run, and only a green run advances the state. Regular expressions (\<^verbatim>\<open>re\<close>) and the age of the
  state against the clock (\<^verbatim>\<open>datetime\<close>) are arguments. The state file is modelled by the value it holds.
\<close>

section \<open>Arguments and results\<close>

record mon_args =
  mon_key :: "signing_key option"
  silence :: "(json option \<Rightarrow> bool attempt) option"
  trusted_key :: "pystr option"
  published :: "json option"
  patterns :: "pystr list"
  ledger_path :: pystr

datatype alert =
    Snapshot_Verdict verdict
  | Timestamps_Not_Monotonic
  | State_Unsigned
  | State_Signature_Invalid
  | State_Differs_From_Head
  | Truncation int int
  | Rewrite
  | Fork int int
  | Log_Key_Changed
  | Silence

datatype state_auth =
    Auditor_Without_Key | Signed_With_Log_Key | Not_Authenticated
  | State_Without_Head | Head_Not_Valid | Incoherent_With_Head | Head_Verified

datatype growth_check = Not_Checked | Shrank | Same_Size bool | Nothing_To_Prove | Growth_Proven nat | Growth_Failed nat

record identity_match =
  im_index :: nat
  im_self_hash :: json
  im_pattern :: pystr
  im_snippet :: pystr

record identity_report =
  scanned :: nat
  all_matches :: "identity_match list"
  new_matches :: "identity_match list"

record mon_verdict =
  mon_ok :: bool
  mon_alerts :: "alert list"
  mon_tree_size :: nat
  mon_root :: pystr
  mon_previous :: "(json \<times> json \<times> json) option"
  mon_growth :: growth_check
  mon_auth :: state_auth
  mon_identity :: "identity_report option"
  mon_written :: bool
  mon_kept :: bool

section \<open>Search for identities\<close>

text \<open>
  \<^verbatim>\<open>find_matches\<close>: \<open>re_of\<close> is \<^verbatim>\<open>re.compile\<close> with \<^verbatim>\<open>search\<close>: \<open>None\<close> for a bad pattern, else the first match of a text by
  its bounds.
\<close>

type_synonym regex = "pystr \<Rightarrow> (nat \<times> nat) option"

definition match_entry :: "(pystr \<times> regex) list \<Rightarrow> nat \<Rightarrow> entry \<Rightarrow> identity_match list" where
  "match_entry regs i e =
     (let canon = canonical_dumps (JObj (content e)) in
      List.map_filter (\<lambda>(pat, rg).
        case rg canon of
          None \<Rightarrow> None
        | Some (a, b) \<Rightarrow>
            Some \<lparr>im_index = i, im_self_hash = get e ''self_hash'', im_pattern = pat,
                  im_snippet = take (min (length canon) (b + 40) - (a - 40)) (drop (a - 40) canon)\<rparr>) regs)"

fun match_lines :: "(pystr \<times> regex) list \<Rightarrow> nat \<Rightarrow> pystr list \<Rightarrow> identity_match list attempt" where
  "match_lines regs i [] = Done []"
| "match_lines regs i (l # ls) =
     (case text_loads l of
        Value (JObj e) \<Rightarrow> bind_attempt (match_lines regs (i + 1) ls) (\<lambda>ms. Done (match_entry regs i e @ ms))
      | Other \<Rightarrow> Beyond
      | _ \<Rightarrow> Raising)"

definition find_matches :: "(pystr \<Rightarrow> regex option) \<Rightarrow> bytes \<Rightarrow> pystr list \<Rightarrow> int \<Rightarrow> identity_report attempt" where
  "find_matches re_of file pats since =
     (case those (map (\<lambda>p. map_option (Pair p) (re_of p)) pats) of
        None \<Rightarrow> Raising
      | Some regs \<Rightarrow>
          (case text_lines file of
             None \<Rightarrow> Raising
           | Some ls \<Rightarrow>
               bind_attempt (match_lines regs 0 ls) (\<lambda>ms. Done
                 \<lparr>scanned = length ls, all_matches = ms, new_matches = filter (\<lambda>m. since \<le> int (im_index m)) ms\<rparr>)))"

section \<open>The checks of one run\<close>

definition snapshot_alerts :: "receipt \<Rightarrow> alert list" where
  "snapshot_alerts snap =
     (if receipt.verdict snap \<noteq> PASS then [Snapshot_Verdict (receipt.verdict snap)] else []) @
     (if rec_algorithm snap \<noteq> None \<and> \<not> ts_monotonic snap then [Timestamps_Not_Monotonic] else [])"

definition start_auth :: "mon_args \<Rightarrow> state_auth" where
  "start_auth A =
     (if given (trusted_key A) \<and> mon_key A = None then Auditor_Without_Key
      else if mon_key A \<noteq> None then Signed_With_Log_Key else Not_Authenticated)"

definition head_key :: "mon_args \<Rightarrow> pystr option" where
  "head_key A =
     (if given (trusted_key A) then trusted_key A
      else map_option (\<lambda>sk. hex_of (sk_public sk)) (mon_key A))"

text \<open>The saved head against the trusted key, and the top-level fields against the head.\<close>

definition check_saved_head :: "('x crypto_scheme) \<Rightarrow> mon_args \<Rightarrow> entry \<Rightarrow> (alert list \<times> state_auth) attempt" where
  "check_saved_head C A old =
     (if head_key A = None then Done ([], start_auth A)
      else if \<not> truthy (get old ''sth'') then Done ([State_Unsigned], State_Without_Head)
      else case get old ''sth'' of
          JObj sth \<Rightarrow>
            if \<not> sth_ok (verify_sth C sth (head_key A)) then Done ([State_Signature_Invalid], Head_Not_Valid)
            else (case (Option.bind (item sth ''tree_size'') py_int, Option.bind (item old ''tree_size'') py_int,
                        item sth ''root_sha256'', item old ''root_sha256'') of
                (Some a, Some b, Some r, Some q) \<Rightarrow>
                  if a \<noteq> b \<or> \<not> py_eq r q then Done ([State_Differs_From_Head], Incoherent_With_Head) else Done ([], Head_Verified)
              | _ \<Rightarrow> Raising)
        | _ \<Rightarrow> Raising)"

definition check_growth :: "('x crypto_scheme) \<Rightarrow> int \<Rightarrow> json \<Rightarrow> bytes list \<Rightarrow> (alert list \<times> growth_check) attempt" where
  "check_growth C n1 root1 leaves =
     (let H = sha256 C; n2 = int (length leaves); root2 = mth H leaves in
      if n2 < n1 then Done ([Truncation n1 n2], Shrank)
      else if n2 = n1 then (if root1 = JStr (hex_of root2) then Done ([], Same_Size True) else Done ([Rewrite], Same_Size False))
      else if n1 = 0 then Done ([], Nothing_To_Prove)
      else case consistency_proof H n1 leaves of
          None \<Rightarrow> Raising
        | Some p \<Rightarrow>
            (case hex_json root1 of
               None \<Rightarrow> Raising
             | Some r1 \<Rightarrow>
                 if verify_consistency H n1 n2 p r1 root2 then Done ([], Growth_Proven (length p))
                 else Done ([Fork n1 n2], Growth_Failed (length p))))"

definition key_alerts :: "mon_args \<Rightarrow> entry \<Rightarrow> alert list" where
  "key_alerts A old =
     (case mon_key A of
        None \<Rightarrow> []
      | Some sk \<Rightarrow>
          if truthy (get old ''log_pubkey_hex'') \<and> get old ''log_pubkey_hex'' \<noteq> JStr (hex_of (sk_public sk)) then [Log_Key_Changed] else [])"

definition silence_alerts :: "mon_args \<Rightarrow> entry \<Rightarrow> bool \<Rightarrow> alert list attempt" where
  "silence_alerts A old same_size =
     (case silence A of
        None \<Rightarrow> Done []
      | Some too_old \<Rightarrow>
          if same_size then bind_attempt (too_old (item old ''ts'')) (\<lambda>b. Done (if b then [Silence] else [])) else Done [])"

definition check_baseline :: "('x crypto_scheme) \<Rightarrow> mon_args \<Rightarrow> entry \<Rightarrow> bytes list \<Rightarrow> (alert list \<times> growth_check \<times> state_auth) attempt" where
  "check_baseline C A old leaves =
     bind_attempt (check_saved_head C A old) (\<lambda>(as1, auth).
       case (Option.bind (item old ''tree_size'') py_int, item old ''root_sha256'') of
         (Some n1, Some root1) \<Rightarrow>
           bind_attempt (check_growth C n1 root1 leaves) (\<lambda>(as2, growth).
             bind_attempt (silence_alerts A old (int (length leaves) = n1)) (\<lambda>as3.
               Done (as1 @ as2 @ key_alerts A old @ as3, growth, auth)))
       | _ \<Rightarrow> Raising)"

section \<open>Advancing the state\<close>

definition STATE_KIND :: pystr where
  "STATE_KIND = lit ''cryptovalid_monitor_state/1''"

definition plain_state :: "('x crypto_scheme) \<Rightarrow> mon_args \<Rightarrow> bytes list \<Rightarrow> pystr \<Rightarrow> entry" where
  "plain_state C A leaves now =
     [(lit ''kind'', JStr STATE_KIND), (lit ''tree_size'', JInt (int (length leaves))),
      (lit ''root_sha256'', JStr (hex_of (mth (sha256 C) leaves))), (lit ''ts'', JStr now), (lit ''ledger'', JStr (ledger_path A))]"

definition with_head :: "entry \<Rightarrow> json \<Rightarrow> json \<Rightarrow> entry" where
  "with_head s sth pk = s @ [(lit ''sth'', sth), (lit ''log_pubkey_hex'', pk)]"

text \<open>The head an auditor was given: a state of the writer or the bare head; anything else is none.\<close>

definition published_head :: "mon_args \<Rightarrow> entry option" where
  "published_head A =
     (case published A of
        Some (JObj d) \<Rightarrow>
          (case (case item d ''sth'' of Some v \<Rightarrow> v | None \<Rightarrow> JObj d) of JObj s \<Rightarrow> if s = [] then None else Some s | _ \<Rightarrow> None)
      | _ \<Rightarrow> None)"

definition heads_tree :: "('x crypto_scheme) \<Rightarrow> bytes list \<Rightarrow> entry \<Rightarrow> bool attempt" where
  "heads_tree C leaves d =
     (case Option.bind (item d ''tree_size'') py_int of
        None \<Rightarrow> Raising
      | Some n \<Rightarrow>
          if n \<noteq> int (length leaves) then Done False
          else (case item d ''root_sha256'' of None \<Rightarrow> Raising | Some r \<Rightarrow> Done (r = JStr (hex_of (mth (sha256 C) leaves)))))"

text \<open>The state a green run writes; \<open>None\<close>: an auditor without a signed head for the current tree keeps the old one.\<close>

definition next_state :: "('x crypto_scheme) \<Rightarrow> mon_args \<Rightarrow> entry option \<Rightarrow> bytes list \<Rightarrow> pystr \<Rightarrow> entry option attempt" where
  "next_state C A old leaves now =
     (let s = plain_state C A leaves now in
      case mon_key A of
        Some sk \<Rightarrow>
          let sth = signed_tree_head C sk leaves now in Done (Some (with_head s (JObj sth) (get sth ''log_pubkey_hex'')))
      | None \<Rightarrow>
          if \<not> given (trusted_key A) then Done (Some s)
          else
            bind_attempt
              (case published_head A of
                 Some sth \<Rightarrow> if sth_ok (verify_sth C sth (trusted_key A)) then heads_tree C leaves sth else Done False
               | None \<Rightarrow> Done False)
              (\<lambda>fresh.
                if fresh then Done (Some (with_head s (JObj (the (published_head A))) (JStr (the (trusted_key A)))))
                else case old of
                    None \<Rightarrow> Done None
                  | Some p \<Rightarrow>
                      if \<not> truthy (get p ''sth'') then Done None
                      else bind_attempt (heads_tree C leaves p) (\<lambda>same.
                        Done (if same then Some (with_head s (get p ''sth'') (get p ''log_pubkey_hex'')) else None))))"

section \<open>A run\<close>

text \<open>
  The saved state: \<open>Done None\<close> when there is no file. A value that is false for Python counts as no state, any other value that is not an
  object raises. The file after the run is the second result; \<open>w\<close> is what \<^verbatim>\<open>write_output\<close> does.
\<close>

type_synonym saved = "json option attempt"

definition prev_state :: "saved \<Rightarrow> entry option attempt" where
  "prev_state st =
     bind_attempt st (\<lambda>v. case v of
         None \<Rightarrow> Done None
       | Some j \<Rightarrow> if \<not> truthy j then Done None else (case j of JObj p \<Rightarrow> Done (Some p) | _ \<Rightarrow> Raising))"

definition run_checks ::
  "crypto \<Rightarrow> (pystr \<Rightarrow> regex option) \<Rightarrow> mon_args \<Rightarrow> pystr \<Rightarrow> bytes \<Rightarrow> pystr option option \<Rightarrow> saved \<Rightarrow> (mon_verdict \<times> entry option) attempt" where
  "run_checks C re_of A now file tip st =
     bind_attempt (leaves_from_ledger file) (\<lambda>leaves.
     bind_attempt (prev_state st) (\<lambda>old.
     bind_attempt
       (case old of None \<Rightarrow> Done ([], Not_Checked, start_auth A) | Some p \<Rightarrow> check_baseline C A p leaves)
       (\<lambda>(as, growth, auth).
         let alerts = snapshot_alerts (verify_ledger C default_options (ledger_state file) tip) @ as in
         bind_attempt
           (if patterns A = [] then Done None
            else bind_attempt
              (find_matches re_of file (patterns A)
                (case old of None \<Rightarrow> 0 | Some p \<Rightarrow> (case Option.bind (item p ''tree_size'') py_int of Some n \<Rightarrow> n | None \<Rightarrow> 0)))
              (\<lambda>m. Done (Some m)))
           (\<lambda>identity.
             bind_attempt (if alerts = [] then next_state C A old leaves now else Done None) (\<lambda>new. Done
               (\<lparr>mon_ok = (alerts = []), mon_alerts = alerts, mon_tree_size = length leaves, mon_root = hex_of (mth (sha256 C) leaves),
                 mon_previous = map_option (\<lambda>p. (get p ''tree_size'', get p ''root_sha256'', get p ''ts'')) old, mon_growth = growth,
                 mon_auth = auth, mon_identity = identity, mon_written = (new \<noteq> None), mon_kept = (alerts = [] \<and> new = None)\<rparr>, new))))))"

definition run_monitor ::
  "crypto \<Rightarrow> (pystr \<Rightarrow> regex option) \<Rightarrow> mon_args \<Rightarrow> pystr \<Rightarrow> doc_write \<Rightarrow> bytes \<Rightarrow> pystr option option \<Rightarrow> saved \<Rightarrow> mon_verdict attempt \<times> saved" where
  "run_monitor C re_of A now w file tip st =
     (case run_checks C re_of A now file tip st of
        Done (v, None) \<Rightarrow> (Done v, st)
      | Done (v, Some s) \<Rightarrow>
          (case w of
             Written \<Rightarrow> (Done v, Done (Some (JObj s)))
           | Not_Written \<Rightarrow> (Raising, st)
           | Written_Then_Raised \<Rightarrow> (Raising, Done (Some (JObj s))))
      | Raising \<Rightarrow> (Raising, st)
      | Beyond \<Rightarrow> (Beyond, st))"

end
