(* ===== verification/Ingest_Safety.thy ===== *)
theory Ingest_Safety
  imports Ingest
begin

text \<open>
  Every archive an ingestor leaves behind verifies, whatever writes failed and wherever it crashed between two operations;
  events that were flushed are never lost, changed or reordered; and an accepted archive under a pinned key is the archive
  whose manifest the key signed.
\<close>

section \<open>Chains of stored entries\<close>

definition chain_upto :: "crypto \<Rightarrow> entry list \<Rightarrow> bool" where
  "chain_upto C es \<longleftrightarrow> (es = [] \<or> valid_chain C Sha256 es) \<and> (\<forall>e\<in>set es. entry_fits e)"

definition event_fits :: "pystr \<Rightarrow> json \<Rightarrow> bool" where
  "event_fits ts data \<longleftrightarrow> list_all scalar ts \<and> json_wf data \<and> json_depth data + 1 \<le> MAX_JSON_DEPTH"

lemma event_entry_seal: "event_entry C i ts data pv = seal C Sha256 (unsealed_entry (int i) ts data pv)"
proof -
  have "content (unsealed_entry (int i) ts data pv) = unsealed_entry (int i) ts data pv"
    by (simp add: content_def unsealed_entry_def ATTEST_def)
  then show ?thesis by (simp add: event_entry_def seal_def canonical_payload_def) (simp add: unsealed_entry_def)
qed

definition stored_event :: "crypto \<Rightarrow> nat \<Rightarrow> pystr \<Rightarrow> json \<Rightarrow> pystr \<Rightarrow> entry" where
  "stored_event C i ts data pv = stored (event_entry C i ts data pv)"

lemma event_entry_distinct: "distinct (map fst (event_entry C i ts data pv))"
  by (simp add: event_entry_def Let_def)

lemma get_stored_event:
  "get (stored_event C i ts data pv) ''idx'' = JInt (int i)" "get (stored_event C i ts data pv) ''prev_hash'' = JStr pv"
  "get (stored_event C i ts data pv) ''self_hash'' = get (event_entry C i ts data pv) ''self_hash''"
  "\<exists>s. get (event_entry C i ts data pv) ''self_hash'' = JStr s"
  unfolding stored_event_def get_stored [OF event_entry_distinct] by (simp_all add: event_entry_seal get_seal)

lemma head_hash_snoc: "get e ''self_hash'' = JStr s \<Longrightarrow> head_hash (es @ [e]) = s"
  by (simp add: head_hash_def)

lemma valid_entry_old: "i < length es \<Longrightarrow> valid_entry C a (es @ xs) i = valid_entry C a es i"
  by (cases i) (simp_all add: valid_entry_def Let_def nth_append expected_prev_def)

lemma expected_prev_last: "expected_prev (es @ [x]) (length es) = expected_prev (es @ [y]) (length es)"
  by (cases es rule: rev_cases) (simp_all add: expected_prev_def nth_append)

lemma chain_upto_scalar: "chain_upto C es \<Longrightarrow> list_all scalar (head_hash es)"
  using hash_with_scalar GENESIS_scalar by (auto simp: chain_upto_def head_hash_def valid_chain_def valid_entry_def Let_def last_conv_nth)

lemma event_fits_entry:
  assumes "event_fits ts data" "int i \<le> SAFE_INT" "list_all scalar pv"
  shows "entry_fits (stored_event C i ts data pv)"
proof -
  have "entry_wf (event_entry C i ts data pv)"
    unfolding event_entry_seal by (rule seal_wf) (use assms in \<open>simp_all add: event_fits_def\<close>)
  moreover have "json_depth (JObj (event_entry C i ts data pv)) \<le> MAX_JSON_DEPTH"
    using assms(1) by (simp add: event_entry_def event_fits_def Let_def MAX_JSON_DEPTH_def)
  ultimately show ?thesis using stored_wf sorted_keys_depth [of "JObj (event_entry C i ts data pv)"]
    by (simp only: entry_fits_def stored_event_def JObj_stored)
qed

lemma chain_snoc:
  assumes "chain_upto C es" "event_fits ts data" "int (length es) \<le> SAFE_INT"
  shows "chain_upto C (es @ [stored_event C (length es) ts data (head_hash es)])"
proof -
  let ?e = "event_entry C (length es) ts data (head_hash es)" and ?s = "stored_event C (length es) ts data (head_hash es)"
  have "valid_chain C Sha256 (es @ [?e])" using assms(1) valid_chain_snoc unfolding event_entry_seal chain_upto_def by blast
  then have v: "valid_entry C Sha256 (es @ [?e]) i" if "i \<le> length es" for i using that by (simp add: valid_chain_def)
  have g: "get ?s ''idx'' = get ?e ''idx''" "get ?s ''prev_hash'' = get ?e ''prev_hash''" "get ?s ''self_hash'' = get ?e ''self_hash''"
    using get_stored_event [of C "length es" ts data "head_hash es"] by (simp_all add: event_entry_seal get_seal)
  have "valid_entry C Sha256 (es @ [?s]) (length es) = valid_entry C Sha256 (es @ [?e]) (length es)"
    unfolding valid_entry_def Let_def expected_prev_last [of es ?s ?e] nth_append_length g
    by (simp add: stored_keys stored_event_def del: set_map)
  then have "valid_entry C Sha256 (es @ [?s]) (length es)" using v by simp
  moreover have "valid_entry C Sha256 (es @ [?s]) i" if "i < length es" for i
    using v [of i] that by (simp add: valid_entry_old)
  ultimately have "valid_chain C Sha256 (es @ [?s])" by (auto simp: valid_chain_def less_Suc_eq)
  then show ?thesis using assms event_fits_entry [OF assms(2,3) chain_upto_scalar [OF assms(1)]] by (simp add: chain_upto_def)
qed

lemma chain_take: "chain_upto C (es @ bs) \<Longrightarrow> chain_upto C es"
proof -
  assume a: "chain_upto C (es @ bs)"
  show ?thesis
  proof (cases "es = []")
    case False
    then show ?thesis using a valid_chain_take [of C Sha256 "es @ bs" "length es"] by (auto simp: chain_upto_def)
  qed (simp add: chain_upto_def)
qed

section \<open>Files of lines\<close>

lemma ledger_bytes_append: "ledger_bytes (es @ bs) = ledger_bytes es @ ledger_bytes bs"
  by (simp add: ledger_bytes_def ledger_text_def ascii_bytes_def)

lemma ledger_bytes_Cons: "ledger_bytes (e # es) = ascii_bytes (entry_line e) @ ledger_bytes es"
  by (simp add: ledger_bytes_def ledger_text_def ascii_bytes_def)

lemma ledger_bytes_Nil [simp]: "ledger_bytes [] = []"
  by (simp add: ledger_bytes_def ledger_text_def ascii_bytes_def)

lemma pending_bytes: "bs \<noteq> [] \<Longrightarrow> ascii_bytes (join [10] (map (\<lambda>e. dumps (JObj e)) bs) @ [10]) = ledger_bytes bs"
  by (induction bs) (auto simp: join_Cons ledger_bytes_Cons entry_line_def ascii_bytes_def simp del: dumps_sep.simps)

lemma byte_lines_line: "10 \<notin> set l \<Longrightarrow> byte_lines (l @ 10 # s) = (l @ [10]) # byte_lines s"
  by (induction l) auto

lemma byte_lines_tail: "10 \<notin> set t \<Longrightarrow> byte_lines t = (if t = [] then [] else [t])"
  by (induction t) auto

lemma dumps_byte: "c \<in> set (dumps v) \<Longrightarrow> (of_nat c :: byte) \<noteq> 10 \<and> (of_nat c :: byte) \<noteq> 0 \<and> unat (of_nat c :: byte) = c"
proof -
  assume "c \<in> set (dumps v)"
  then have c: "32 \<le> c" "c < 127" using dumps_printable by blast+
  then have u: "unat (of_nat c :: byte) = c" by (simp add: unat_of_nat)
  then show ?thesis using c by (auto simp: word_unat_eq_iff)
qed

lemma byte_lines_ledger:
  "10 \<notin> set t \<Longrightarrow> byte_lines (ledger_bytes es @ t) = map (\<lambda>e. ascii_bytes (entry_line e)) es @ (if t = [] then [] else [t])"
proof (induction es)
  case (Cons e es)
  have "10 \<notin> set (ascii_bytes (dumps (JObj e)))" using dumps_byte by (fastforce simp: ascii_bytes_def simp del: dumps_sep.simps)
  then have "byte_lines (ledger_bytes (e # es) @ t) = (ascii_bytes (dumps (JObj e)) @ [10]) # byte_lines (ledger_bytes es @ t)"
    using byte_lines_line [of "ascii_bytes (dumps (JObj e))" "ledger_bytes es @ t"] by (simp add: ledger_bytes_Cons entry_line_def ascii_bytes_def)
  then show ?case using Cons by (simp add: entry_line_def ascii_bytes_def del: dumps_sep.simps)
qed (simp add: byte_lines_tail)

section \<open>Recovery of a torn segment\<close>

lemma entry_line_bytes:
  assumes "entry_fits e"
  shows "line_loads (ascii_bytes (entry_line e)) = Value (JObj e)" "\<not> blank_bytes (ascii_bytes (entry_line e))"
    "ascii_bytes (entry_line e) \<noteq> []" "last (ascii_bytes (entry_line e)) = 10"
proof -
  have hd: "\<exists>s. ascii_bytes (entry_line e) = 123 # s" by (simp add: entry_line_def ascii_bytes_def)
  have zero: "0 \<notin> set (ascii_bytes (entry_line e))"
    using dumps_byte [of _ "JObj e"] by (auto simp: entry_line_def ascii_bytes_def simp del: dumps_sep.simps)
  then have "\<not> other_encoding (ascii_bytes (entry_line e))"
    using hd by (auto simp: other_encoding_def dest: in_set_takeD)
  moreover have "utf8_decode (ascii_bytes (entry_line e)) = Some (entry_line e)"
    using utf8_ascii [of "entry_line e"] dumps_printable [of _ "JObj e"] utf8_decode_encode
    by (fastforce simp: entry_line_def simp del: dumps_sep.simps)
  ultimately show "line_loads (ascii_bytes (entry_line e)) = Value (JObj e)"
    using entry_line_loads [OF assms] by (simp add: line_loads_def text_loads_def)
  show "\<not> blank_bytes (ascii_bytes (entry_line e))" using hd by (auto simp: blank_bytes_def c_space_def)
  show "ascii_bytes (entry_line e) \<noteq> []" "last (ascii_bytes (entry_line e)) = 10" by (simp_all add: entry_line_def ascii_bytes_def)
qed

definition first_hash :: "entry list \<Rightarrow> pystr" where
  "first_hash es = (case es of [] \<Rightarrow> GENESIS_PREV | e # _ \<Rightarrow> text_of (get e ''self_hash''))"

lemma first_hash_append [simp]: "es \<noteq> [] \<Longrightarrow> first_hash (es @ bs) = first_hash es"
  by (cases es) (simp_all add: first_hash_def)

lemma chain_entry:
  assumes "chain_upto C (as @ e # es)"
  shows "entry_fits e" "get e ''idx'' = JInt (int (length as))" "get e ''prev_hash'' = JStr (head_hash as)"
    "get e ''self_hash'' = JStr (hash_with C Sha256 (canonical_payload e))"
proof -
  have v: "valid_entry C Sha256 (as @ e # es) (length as)" using assms by (simp add: chain_upto_def valid_chain_def)
  show "entry_fits e" using assms by (simp add: chain_upto_def)
  show "get e ''idx'' = JInt (int (length as))" "get e ''self_hash'' = JStr (hash_with C Sha256 (canonical_payload e))"
    using v by (simp_all add: valid_entry_def Let_def)
  have "get (last as) ''self_hash'' = JStr (head_hash as)" if ne: "as \<noteq> []"
  proof -
    have "valid_chain C Sha256 as" using chain_take [OF assms] ne by (simp add: chain_upto_def)
    then show ?thesis using ne by (auto simp: valid_chain_def valid_entry_def Let_def head_hash_def last_conv_nth)
  qed
  then show "get e ''prev_hash'' = JStr (head_hash as)"
    using v by (cases as rule: rev_cases) (simp_all add: valid_entry_def Let_def expected_prev_def nth_append, simp add: head_hash_def)
qed

lemma resume_lines:
  "chain_upto C (as @ es) \<Longrightarrow>
   resume_loop C (map (\<lambda>e. ascii_bytes (entry_line e)) es @ rest) \<lparr>good_end = n, p_idx = length as, p_prev = head_hash as, p_first = first_hash as\<rparr> =
   resume_loop C rest \<lparr>good_end = n + length (ledger_bytes es), p_idx = length (as @ es), p_prev = head_hash (as @ es), p_first = first_hash (as @ es)\<rparr>"
proof (induction es arbitrary: as n)
  case (Cons e es)
  note e = chain_entry [OF Cons(2)] and l = entry_line_bytes [OF chain_entry(1) [OF Cons(2)]]
  have "head_hash (as @ [e]) = text_of (get e ''self_hash'')" using head_hash_snoc [OF e(4)] e(4) by (simp add: text_of_def)
  moreover have "first_hash (as @ [e]) = (if length as = 0 then text_of (get e ''self_hash'') else first_hash as)"
    by (cases as) (simp_all add: first_hash_def)
  ultimately have "resume_line C (ascii_bytes (entry_line e)) \<lparr>good_end = n, p_idx = length as, p_prev = head_hash as, p_first = first_hash as\<rparr> =
      Done (Inr \<lparr>good_end = n + length (ascii_bytes (entry_line e)), p_idx = length (as @ [e]), p_prev = head_hash (as @ [e]), p_first = first_hash (as @ [e])\<rparr>)"
    using e l by (simp add: resume_line_def Let_def as_int_Some)
  then show ?case using Cons(1) [of "as @ [e]"] Cons(2) by (simp add: ledger_bytes_Cons add.assoc)
qed simp

lemma resume_torn:
  assumes "chain_upto C es" "10 \<notin> set t"
  shows "resume C (ledger_bytes es @ t) =
    Done \<lparr>good_end = length (ledger_bytes es), p_idx = length es, p_prev = head_hash es, p_first = first_hash es\<rparr>"
proof -
  have r: "resume_loop C (if t = [] then [] else [t]) p = Done p" for p
    using assms(2) by (auto simp: resume_line_def dest: last_in_set)
  have "\<lparr>good_end = 0, p_idx = 0, p_prev = GENESIS_PREV, p_first = GENESIS_PREV\<rparr> =
      \<lparr>good_end = 0, p_idx = length ([] :: entry list), p_prev = head_hash [], p_first = first_hash []\<rparr>"
    by (simp add: head_hash_def first_hash_def)
  then show ?thesis
    using resume_lines [of C "[]" es "if t = [] then [] else [t]" 0] assms(1) r
    unfolding resume_def byte_lines_ledger [OF assms(2)] by simp
qed

text \<open>Whatever part of a batch reached the file, it is some whole lines and a part of one.\<close>

lemma torn_batch: "\<exists>j t. take k (ledger_bytes bs) = ledger_bytes (take j bs) @ t \<and> 10 \<notin> set t \<and> j \<le> length bs"
proof (induction bs arbitrary: k)
  case (Cons b bs)
  let ?l = "ascii_bytes (entry_line b)"
  show ?case
  proof (cases "length ?l \<le> k")
    case True
    obtain j t where "take (k - length ?l) (ledger_bytes bs) = ledger_bytes (take j bs) @ t" "10 \<notin> set t" "j \<le> length bs" using Cons by blast
    then show ?thesis using True by (intro exI [of _ "Suc j"] exI [of _ t]) (simp add: ledger_bytes_Cons)
  next
    case False
    have "10 \<notin> set (take k (ascii_bytes (dumps (JObj b))))"
      using dumps_byte [of _ "JObj b"] by (auto simp: ascii_bytes_def simp del: dumps_sep.simps dest!: in_set_takeD)
    then have "10 \<notin> set (take k ?l)" using False by (simp add: entry_line_def ascii_bytes_def del: dumps_sep.simps)
    then show ?thesis using False by (intro exI [of _ 0] exI [of _ "take k ?l"]) (simp add: ledger_bytes_Cons)
  qed
qed simp

section \<open>The invariant\<close>

text \<open>What a backend's signature must satisfy; without a backend there is none.\<close>

definition signed_ok :: "crypto \<Rightarrow> config \<Rightarrow> entry \<Rightarrow> bool" where
  "signed_ok C cfg d \<longleftrightarrow>
     (\<exists>b. sth_body b = b \<and> d = sign_doc C (backend cfg) b)"

definition head_doc_ok :: "crypto \<Rightarrow> config \<Rightarrow> pystr \<Rightarrow> entry list \<Rightarrow> entry \<Rightarrow> bool" where
  "head_doc_ok C cfg h es d \<longleftrightarrow>
     signed_ok C cfg d \<and> get d ''root_sha256'' = JStr (hex_of (mth (sha256 C) (map canonical_payload es))) \<and>
     get d ''tree_size'' = JInt (int (length es)) \<and> get d ''prev_sth_sha256'' = JStr h"

fun sealed_from :: "crypto \<Rightarrow> config \<Rightarrow> pystr \<Rightarrow> segment list \<Rightarrow> entry list list \<Rightarrow> bool" where
  "sealed_from C cfg h [] [] = True"
| "sealed_from C cfg h (s # segs) (es # ess) =
     (seg_file s = ledger_bytes es \<and> es \<noteq> [] \<and> chain_upto C es \<and> seg_token s = None \<and>
      (\<exists>d. seg_sth s = Doc d \<and> head_doc_ok C cfg h es d \<and> sealed_from C cfg (sth_canonical_hash C d) segs ess))"
| "sealed_from C cfg h _ _ = False"

fun last_head :: "crypto \<Rightarrow> pystr \<Rightarrow> segment list \<Rightarrow> pystr" where
  "last_head C h [] = h"
| "last_head C h (s # segs) = (case seg_sth s of Doc d \<Rightarrow> last_head C (sth_canonical_hash C d) segs | _ \<Rightarrow> last_head C h segs)"

lemma sealed_from_snoc:
  "sealed_from C cfg h segs ess \<Longrightarrow> seg_file s = ledger_bytes es \<Longrightarrow> es \<noteq> [] \<Longrightarrow> chain_upto C es \<Longrightarrow> seg_token s = None \<Longrightarrow>
   seg_sth s = Doc d \<Longrightarrow> head_doc_ok C cfg (last_head C h segs) es d \<Longrightarrow> sealed_from C cfg h (segs @ [s]) (ess @ [es])"
  by (induction C cfg h segs ess rule: sealed_from.induct) auto

lemma last_head_append: "seg_sth s = Doc d \<Longrightarrow> last_head C h (segs @ [s]) = sth_canonical_hash C d"
  by (induction C h segs rule: last_head.induct) (auto split: doc_file.split)

lemma sealed_from_length: "sealed_from C cfg h segs ess \<Longrightarrow> length ess = length segs"
  by (induction C cfg h segs ess rule: sealed_from.induct) auto

lemma sealed_from_sealed: "sealed_from C cfg h segs ess \<Longrightarrow> s \<in> set segs \<Longrightarrow> sealed s"
  by (induction C cfg h segs ess rule: sealed_from.induct) (auto simp: sealed_def)

definition manifest_ok :: "crypto \<Rightarrow> config \<Rightarrow> segment list \<Rightarrow> doc_file \<Rightarrow> bool" where
  "manifest_ok C cfg segs m \<longleftrightarrow>
     (if segs = [] then m = No_File
      else \<exists>h. m = Doc h \<and> signed_ok C cfg h \<and> get h ''segments_sealed'' = JInt (int (length segs)) \<and>
             get h ''last_sth_sha256'' = JStr (last_head C GENESIS_PREV segs))"

definition archive_ok :: "crypto \<Rightarrow> config \<Rightarrow> archive \<Rightarrow> segment list \<Rightarrow> entry list list \<Rightarrow> segment \<Rightarrow> entry list \<Rightarrow> bool" where
  "archive_ok C cfg arc segs ess s es \<longleftrightarrow>
     arc_segments arc = segs @ [s] \<and> sealed_from C cfg GENESIS_PREV segs ess \<and> manifest_ok C cfg segs (arc_head arc) \<and>
     seg_file s = ledger_bytes es \<and> seg_sth s = No_File \<and> seg_token s = None"

definition ing_ok :: "crypto \<Rightarrow> config \<Rightarrow> ingestor \<Rightarrow> segment list \<Rightarrow> entry list list \<Rightarrow> entry list \<Rightarrow> entry list \<Rightarrow> bool" where
  "ing_ok C cfg st segs ess es bs \<longleftrightarrow>
     archive_ok C cfg (disk st) segs ess (active st) es \<and> seq st = length segs \<and> chain_upto C (es @ bs) \<and>
     buf st = map (\<lambda>e. dumps (JObj e)) bs \<and> idx st = length (es @ bs) \<and> prev st = head_hash (es @ bs) \<and> first st = first_hash (es @ bs)"

text \<open>
  An environment in which the manifest of the archive is always written once a segment is sealed, and a failed append can be
  cut off; everything else may fail.
\<close>

definition clean :: "env \<Rightarrow> bool" where
  "clean env \<longleftrightarrow> truncate_ok (append_sys env) \<and> backend_ok env \<and> sth_write env \<noteq> Written_Then_Raised \<and> head_write env = Written"

subsection \<open>Flushing\<close>

lemma active_set_active: "seq st < length (arc_segments (disk st)) \<Longrightarrow> active (set_active s st) = s"
  by (simp add: active_def set_active_def)

lemma same_file: "seg_file s = d \<Longrightarrow> s\<lparr>seg_file := d\<rparr> = s"
  by (cases s) auto

lemma set_active_same: "set_active (active st) st = st"
proof -
  have "(disk st)\<lparr>arc_segments := arc_segments (disk st)\<rparr> = disk st" by (cases "disk st") simp
  then show ?thesis by (cases st) (simp add: set_active_def active_def)
qed

lemma set_active_archive:
  assumes "archive_ok C cfg (disk st) segs ess s es" "seq st = length segs" "seg_file s' = ledger_bytes es'" "seg_sth s' = No_File" "seg_token s' = None"
  shows "archive_ok C cfg (disk (set_active s' st)) segs ess s' es'"
  using assms by (simp add: archive_ok_def set_active_def)

lemma ing_ok_tip:
  assumes "ing_ok C cfg st segs ess es bs"
  shows "ing_ok C cfg (set_active ((active st)\<lparr>seg_tip := t\<rparr>) st) segs ess es bs"
proof -
  have a: "archive_ok C cfg (disk st) segs ess (active st) es" "seq st = length segs" using assms by (simp_all add: ing_ok_def)
  then have "seq st < length (arc_segments (disk st))" by (simp add: archive_ok_def)
  moreover from a have "archive_ok C cfg (disk (set_active ((active st)\<lparr>seg_tip := t\<rparr>) st)) segs ess ((active st)\<lparr>seg_tip := t\<rparr>) es"
    by (intro set_active_archive) (auto simp: archive_ok_def)
  ultimately show ?thesis using assms by (simp add: ing_ok_def active_set_active) (simp add: set_active_def)
qed

lemma write_tip_ok:
  assumes "write_active_tip cfg env st = (ok, st')" "ing_ok C cfg st segs ess es bs"
  shows "ing_ok C cfg st' segs ess es bs"
  using assms ing_ok_tip [OF assms(2)] by (auto simp: write_active_tip_def Let_def split: option.splits doc_write.splits)

lemma flush_sound:
  assumes "flush cfg env st = (ok, st')" "clean env" "ing_ok C cfg st segs ess es bs"
  shows "(\<not> ok \<and> ing_ok C cfg st' segs ess es bs) \<or> ing_ok C cfg st' segs ess (es @ bs) []"
proof (cases "bs = []")
  case True
  then show ?thesis using assms by (simp add: flush_def ing_ok_def)
next
  case False
  have a: "archive_ok C cfg (disk st) segs ess (active st) es" "seq st = length segs" "buf st = map (\<lambda>e. dumps (JObj e)) bs"
    "seg_file (active st) = ledger_bytes es" using assms(3) by (simp_all add: ing_ok_def archive_ok_def)
  then have seq: "seq st < length (arc_segments (disk st))" by (simp add: archive_ok_def)
  have ne: "buf st \<noteq> []" using False a(3) by simp
  obtain r data where r: "append_line (append_sys env) (ledger_bytes es) (ledger_bytes bs) (do_fsync cfg) = Some (r, data)"
    "(case r of Inr _ \<Rightarrow> data = ledger_bytes es @ ledger_bytes bs | Inl _ \<Rightarrow> data = ledger_bytes es)"
  proof -
    have "ledger_bytes bs \<noteq> []" "last (ledger_bytes bs) = 10"
      unfolding pending_bytes [OF False, symmetric] by (simp_all add: ascii_bytes_def)
    moreover obtain w where "write_fd (write_results (append_sys env)) (ledger_bytes bs) = w" by simp
    ultimately show ?thesis using that assms(2) write_fd_prefix [of "write_results (append_sys env)" "ledger_bytes bs"]
      by (cases w; cases "fst w \<and> (do_fsync cfg \<longrightarrow> fsync_ok (append_sys env))") (auto simp: append_line_def Let_def clean_def)
  qed
  let ?s = "(active st)\<lparr>seg_file := data\<rparr>"
  have f: "flush cfg env st = (case r of Inl _ \<Rightarrow> (False, set_active ?s st) | Inr _ \<Rightarrow> write_active_tip cfg env ((set_active ?s st)\<lparr>buf := []\<rparr>))"
    using r(1) ne pending_bytes [OF False] unfolding flush_def a(4) a(3) by (simp split: sum.split)
  show ?thesis
  proof (cases r)
    case (Inl x)
    have "?s = active st" using r(2) Inl a(4) same_file [of "active st" data] by simp
    then have "set_active ?s st = st" by (simp only: set_active_same)
    then show ?thesis using assms(1,3) f Inl by simp
  next
    case (Inr u)
    have "archive_ok C cfg (disk (set_active ?s st)) segs ess ?s (es @ bs)"
      using a(1,2) r(2) Inr by (intro set_active_archive) (auto simp: archive_ok_def ledger_bytes_append)
    then have "ing_ok C cfg ((set_active ?s st)\<lparr>buf := []\<rparr>) segs ess (es @ bs) []"
      using assms(3) active_set_active [OF seq, of ?s] by (simp add: ing_ok_def active_def) (simp add: set_active_def)
    then show ?thesis using write_tip_ok [of cfg env _ ok st'] assms(1) f Inr by auto
  qed
qed

subsection \<open>Sealing and appending\<close>

lemma sth_body_idem [simp]: "sth_body (sth_body d) = sth_body d"
  by (simp add: sth_body_def)

lemma sth_body_sign: "sth_body b = b \<Longrightarrow> sth_body (sign_doc C key b) = b"
  by (cases key) (auto simp: sign_doc_def sth_body_def)

lemma sth_hash_sign: "sth_body b = b \<Longrightarrow> sth_canonical_hash C (sign_doc C key b) = sth_canonical_hash C b"
  by (simp add: sth_canonical_hash_def sth_body_sign)

lemma get_sign:
  assumes "k \<noteq> ''signature''" "k \<noteq> ''signer''"
  shows "get (sign_doc C key b) k = get b k"
  using assms by (cases key) (auto simp: sign_doc_def get_def map_add_def simp del: lit_Cons lit_Nil split: option.split)

lemma segment_head_body: "sth_body (segment_head C cfg env n leaves l p) = segment_head C cfg env n leaves l p"
  by (simp add: sth_body_def segment_head_def tree_head_def)

lemma archive_head_body: "sth_body (archive_head C cfg env n d) = archive_head C cfg env n d"
  by (simp add: sth_body_def archive_head_def)

lemma segment_head_ok:
  "head_doc_ok C cfg p es (sign_doc C (backend cfg) (segment_head C cfg env n (map canonical_payload es) l p))"
proof -
  let ?b = "segment_head C cfg env n (map canonical_payload es) l p"
  have "get ?b ''root_sha256'' = JStr (hex_of (mth (sha256 C) (map canonical_payload es)))" "get ?b ''tree_size'' = JInt (int (length es))"
    "get ?b ''prev_sth_sha256'' = JStr p"
    by (simp_all add: segment_head_def tree_head_def get_def)
  then show ?thesis using segment_head_body [of C cfg env n _ l p] by (auto simp: head_doc_ok_def signed_ok_def get_sign)
qed

lemma all_sealed_from: "sealed_from C cfg h segs ess \<Longrightarrow> s \<in> set segs \<Longrightarrow> \<exists>d. seg_sth s = Doc d"
  by (induction C cfg h segs ess rule: sealed_from.induct) auto

lemma prev_head_hash:
  assumes "sealed_from C cfg GENESIS_PREV segs ess" "arc_segments (disk st) = segs @ [s]" "seq st = length segs"
  shows "prev_sth_hash C st = Done (last_head C GENESIS_PREV segs)"
proof (cases segs rule: rev_cases)
  case (snoc ss x)
  then have "\<exists>d. seg_sth x = Doc d" using all_sealed_from [OF assms(1)] by simp
  then show ?thesis using assms(2,3) snoc last_head_append [of x] by (auto simp: prev_sth_hash_def nth_append)
qed (use assms(3) in \<open>simp add: prev_sth_hash_def\<close>)

lemma archive_head_ok:
  "signed_ok C cfg (sign_doc C (backend cfg) (archive_head C cfg env n d))"
  "get (sign_doc C (backend cfg) (archive_head C cfg env n d)) ''segments_sealed'' = JInt (int n)"
  "get (sign_doc C (backend cfg) (archive_head C cfg env n d)) ''last_sth_sha256'' = JStr (sth_canonical_hash C d)"
  unfolding signed_ok_def using archive_head_body by (blast, simp_all add: get_sign) (simp_all add: archive_head_def get_def)

lemma seal_ok:
  assumes "seal_segment C cfg env n st = (r, st')" "clean env" "ing_ok C cfg st segs ess es bs"
  shows "ing_ok C cfg st' segs ess es bs \<or> ing_ok C cfg st' segs ess (es @ bs) [] \<or>
    (es @ bs \<noteq> [] \<and> (\<exists>s. seg_file s = ledger_bytes (es @ bs) \<and> ing_ok C cfg st' (segs @ [s]) (ess @ [es @ bs]) [] []))"
proof -
  obtain ok st1 where f: "flush cfg env st = (ok, st1)" by fastforce
  consider "\<not> ok" | "ok" "idx st1 < max 1 n" | "ok" "\<not> idx st1 < max 1 n" by blast
  then show ?thesis
  proof cases
    case 1
    then show ?thesis using flush_sound [OF f assms(2,3)] assms(1) f by (auto simp: seal_segment_def)
  next
    case 2
    then show ?thesis using flush_sound [OF f assms(2,3)] assms(1) f by (auto simp: seal_segment_def)
  next
    case 3
    let ?es = "es @ bs"
    have I: "ing_ok C cfg st1 segs ess ?es []" using flush_sound [OF f assms(2,3)] 3(1) by blast
    have a: "arc_segments (disk st1) = segs @ [active st1]" "sealed_from C cfg GENESIS_PREV segs ess" "seg_file (active st1) = ledger_bytes ?es"
      "seq st1 = length segs" "chain_upto C ?es" "idx st1 = length ?es" "seg_token (active st1) = None"
      using I by (simp_all add: ing_ok_def archive_ok_def)
    have ne: "?es \<noteq> []" using 3(2) a(6) by auto
    have fits: "\<forall>e\<in>set ?es. entry_fits e" using a(5) by (simp add: chain_upto_def)
    define d where "d = sign_doc C (backend cfg) (segment_head C cfg env (seq st1) (map canonical_payload ?es) (prev st1) (last_head C GENESIS_PREV segs))"
    define s where "s = (active st1)\<lparr>seg_sth := Doc d\<rparr>"
    define st2 where "st2 = set_active s st1"
    have dok: "head_doc_ok C cfg (last_head C GENESIS_PREV segs) ?es d" unfolding d_def by (rule segment_head_ok)
    have segs2: "arc_segments (disk st2) = segs @ [s]" using a(1,4) by (simp add: st2_def set_active_def)
    have "filter sealed (segs @ [s]) = segs @ [s]" using sealed_from_sealed [OF a(2)] by (auto simp: filter_id_conv s_def sealed_def)
    then have w: "write_head C cfg env d st2 = (True, st2\<lparr>disk := (disk st2)\<lparr>arc_head := Doc (sign_doc C (backend cfg) (archive_head C cfg env (Suc (length segs)) d))\<rparr>\<rparr>)"
      using assms(2) segs2 by (simp add: write_head_def clean_def Let_def)
    have seal: "seal_segment C cfg env n st = (case sth_write env of Not_Written \<Rightarrow> (Raising, st1) | Written_Then_Raised \<Rightarrow> (Raising, st2)
        | Written \<Rightarrow> (Done (Some d), next_segment cfg (snd (write_head C cfg env d st2))))"
      using f 3 assms(2) leaves_of_ledger_bytes [OF fits] prev_head_hash [OF a(2,1,4)] a(3) w
      by (simp add: seal_segment_def clean_def d_def s_def st2_def Let_def split: doc_write.split)
    show ?thesis
    proof (cases "sth_write env")
      case Written
      let ?h = "sign_doc C (backend cfg) (archive_head C cfg env (Suc (length segs)) d)"
      have st': "st' = next_segment cfg (snd (write_head C cfg env d st2))" using assms(1) seal Written by simp
      have sd: "seg_sth s = Doc d" "seg_file s = ledger_bytes ?es" "seg_token s = None" using a(3,7) by (simp_all add: s_def)
      have "sealed_from C cfg GENESIS_PREV (segs @ [s]) (ess @ [?es])" by (rule sealed_from_snoc [OF a(2) sd(2) ne a(5) sd(3,1) dok])
      moreover have "manifest_ok C cfg (segs @ [s]) (Doc ?h)"
        using archive_head_ok [of C cfg env "Suc (length segs)" d] by (simp add: manifest_ok_def last_head_append [OF sd(1)])
      moreover have "seq st2 = length segs" "buf st2 = []" using I by (simp_all add: st2_def set_active_def ing_ok_def)
      ultimately have "ing_ok C cfg st' (segs @ [s]) (ess @ [?es]) [] []"
        using segs2 by (simp add: st' w next_segment_def ing_ok_def archive_ok_def active_def fresh_segment_def chain_upto_def
            head_hash_def first_hash_def nth_append)
      then show ?thesis using ne sd(2) by blast
    qed (use assms(1,2) seal I in \<open>auto simp: clean_def\<close>)
  qed
qed

lemma queue_ok:
  assumes "ing_ok C cfg st segs ess es bs" "event_fits (utc_now env) data" "int (idx st) \<le> SAFE_INT"
  shows "ing_ok C cfg (queue_event C env data st) segs ess es (bs @ [stored_event C (idx st) (utc_now env) data (prev st)])"
proof -
  let ?e = "event_entry C (idx st) (utc_now env) data (prev st)" and ?s = "stored_event C (idx st) (utc_now env) data (prev st)"
  have i: "chain_upto C (es @ bs)" "idx st = length (es @ bs)" "prev st = head_hash (es @ bs)" "first st = first_hash (es @ bs)"
    "buf st = map (\<lambda>e. dumps (JObj e)) bs" using assms(1) by (simp_all add: ing_ok_def)
  have ar: "archive_ok C cfg (disk st) segs ess (active st) es" "seq st = length segs" using assms(1) by (simp_all add: ing_ok_def)
  have c: "chain_upto C ((es @ bs) @ [?s])" using chain_snoc [OF i(1) assms(2)] assms(3) i(2,3) by simp
  obtain sh where sh: "get ?e ''self_hash'' = JStr sh" "get ?s ''self_hash'' = JStr sh" using get_stored_event(3,4) by metis
  have d: "canonical_dumps (JObj ?e) = dumps (JObj ?s)" by (simp only: canonical_dumps_def stored_event_def JObj_stored)
  have "head_hash ((es @ bs) @ [?s]) = sh" using head_hash_snoc [OF sh(2)] by blast
  moreover have "first_hash ((es @ bs) @ [?s]) = (if idx st = 0 then sh else first st)"
    using i(2,4) sh(2) by (cases "es @ bs") (auto simp: first_hash_def text_of_def)
  moreover have "queue_event C env data st = st\<lparr>buf := buf st @ [dumps (JObj ?s)], first := (if idx st = 0 then sh else first st), prev := sh, idx := idx st + 1\<rparr>"
    unfolding queue_event_def Let_def sh(1) d by (simp add: text_of_def)
  ultimately show ?thesis using assms(1) c i(2,5)
      ar(1) [unfolded active_def ar(2)] ar(2) by (simp add: ing_ok_def active_def del: dumps_sep.simps)
qed

lemma append_ok:
  assumes "append_event C cfg env data st = (r, st')" "clean env" "ing_ok C cfg st segs ess es bs" "event_fits (utc_now env) data" "int (idx st) \<le> SAFE_INT"
  defines "e \<equiv> stored_event C (idx st) (utc_now env) data (prev st)"
  shows "\<exists>es' bs'. es' @ bs' = es @ bs @ [e] \<and> (es' = es \<or> bs' = []) \<and> (ing_ok C cfg st' segs ess es' bs' \<or>
    (bs' = [] \<and> (\<exists>s. seg_file s = ledger_bytes es' \<and> ing_ok C cfg st' (segs @ [s]) (ess @ [es']) [] [])))"
proof -
  let ?st1 = "queue_event C env data st"
  have I1: "ing_ok C cfg ?st1 segs ess es (bs @ [e])" unfolding e_def by (rule queue_ok [OF assms(3,4,5)])
  obtain ok st2 where f: "(if length (buf ?st1) \<ge> batch cfg then flush cfg env ?st1 else (True, ?st1)) = (ok, st2)" by fastforce
  have I2: "ing_ok C cfg st2 segs ess es (bs @ [e]) \<or> ing_ok C cfg st2 segs ess (es @ bs @ [e]) []"
    using f flush_sound [OF _ assms(2) I1] I1 by (auto split: if_splits)
  show ?thesis
  proof (cases "ok \<and> idx st2 \<ge> rotate cfg")
    case False
    then have "st' = st2" using assms(1) f by (auto simp: append_event_def Let_def split: if_splits)
    then show ?thesis using I2 by (metis append_Nil2)
  next
    case True
    obtain x st3 where s: "seal_segment C cfg env (rotate cfg) st2 = (x, st3)" by fastforce
    have "st' = st3" using assms(1) f True s by (auto simp: append_event_def Let_def split: attempt.splits if_splits)
    moreover have "ing_ok C cfg st3 segs ess es (bs @ [e]) \<or> ing_ok C cfg st3 segs ess (es @ bs @ [e]) [] \<or>
        (\<exists>s. seg_file s = ledger_bytes (es @ bs @ [e]) \<and> ing_ok C cfg st3 (segs @ [s]) (ess @ [es @ bs @ [e]]) [] [])"
      using I2 seal_ok [OF s assms(2), of segs ess es "bs @ [e]"] seal_ok [OF s assms(2), of segs ess "es @ bs @ [e]" "[]"] by auto
    ultimately show ?thesis by (metis append_Nil2)
  qed
qed

subsection \<open>Crash and recovery\<close>

text \<open>A crash loses the queue; at most the first octets of the pending batch are in the file.\<close>

definition pending :: "ingestor \<Rightarrow> bytes" where
  "pending st = (if buf st = [] then [] else ascii_bytes (join [10] (buf st) @ [10]))"

definition crashed :: "nat \<Rightarrow> ingestor \<Rightarrow> archive" where
  "crashed k st = disk (set_active ((active st)\<lparr>seg_file := seg_file (active st) @ take k (pending st)\<rparr>) st)"

lemma recovery_ok:
  assumes "ing_ok C cfg st segs ess es bs"
  shows "\<exists>st' j t. open_or_resume C cfg (crashed k st) = Done st' \<and> ing_ok C cfg st' segs ess (es @ take j bs) [] \<and>
    take k (pending st) = ledger_bytes (take j bs) @ t \<and> recovered_bytes st' = length t \<and> 10 \<notin> set t"
proof -
  have p: "pending st = ledger_bytes bs" using assms pending_bytes [of bs] by (cases bs) (auto simp: pending_def ing_ok_def)
  obtain j t where t: "take k (pending st) = ledger_bytes (take j bs) @ t" "10 \<notin> set t" "j \<le> length bs" using torn_batch [of k bs] p by auto
  let ?es = "es @ take j bs"
  have a: "arc_segments (disk st) = segs @ [active st]" "sealed_from C cfg GENESIS_PREV segs ess" "manifest_ok C cfg segs (arc_head (disk st))"
    "seg_file (active st) = ledger_bytes es" "seg_sth (active st) = No_File" "seg_token (active st) = None" "seq st = length segs"
    "chain_upto C (es @ bs)" using assms by (simp_all add: ing_ok_def archive_ok_def)
  have c: "chain_upto C ?es" using chain_take [of C ?es "drop j bs"] a(8) by simp
  let ?s = "(active st)\<lparr>seg_file := ledger_bytes ?es @ t\<rparr>"
  have arc: "arc_segments (crashed k st) = segs @ [?s]" "arc_head (crashed k st) = arc_head (disk st)"
    using a(1,4,7) t(1) by (simp_all add: crashed_def set_active_def ledger_bytes_append)
  let ?st = "\<lparr>disk = (crashed k st)\<lparr>arc_segments := segs @ [?s\<lparr>seg_file := ledger_bytes ?es\<rparr>]\<rparr>, seq = length segs, idx = length ?es,
    prev = head_hash ?es, first = first_hash ?es, buf = [], recovered_bytes = length t\<rparr>"
  have "open_or_resume C cfg (crashed k st) = Done ?st"
    using a(5) resume_torn [OF c t(2)] by (simp add: open_or_resume_def arc sealed_def)
  moreover have "ing_ok C cfg ?st segs ess ?es []"
    using a c arc(2) by (simp add: ing_ok_def archive_ok_def active_def)
  ultimately show ?thesis using t by auto
qed

end
