(* ===== verification/Ledger_Pass.thy ===== *)
theory Ledger_Pass
  imports Ingest_Safety
begin

text \<open>What the verifier, the monitor and the archive auditor see of a ledger file that an ingestor wrote.\<close>

section \<open>The verifier on a written ledger\<close>

lemma detect_chain: "chain_upto C (e # es) \<Longrightarrow> detect_algo C (e # es) = Some Sha256"
proof -
  assume c: "chain_upto C (e # es)"
  have g: "get e ''self_hash'' = JStr (hash_with C Sha256 (canonical_payload e))"
    using chain_entry(4) [of C "[]" e es] c by simp
  then have "has_key e ''self_hash''" by (auto simp: get_def has_key_def split: option.splits)
  then show ?thesis using g by (simp add: detect_algo_def Let_def)
qed

lemma report_chain:
  assumes "chain_upto C es" "es \<noteq> []"
  shows "chain_report_of C None (ledger_text es) = chain_report_of C (Some Sha256) (ledger_text es)"
proof -
  have "\<forall>e\<in>set es. entry_fits e" using assms(1) by (simp add: chain_upto_def)
  then have "parse_lines 0 (raw_lines (ledger_text es)) = (es, [])" by (rule parse_ledger_text)
  moreover have "detect_algo C es = Some Sha256" using detect_chain assms by (cases es) auto
  ultimately show ?thesis by (simp add: chain_report_of_def)
qed

lemma ledger_state_bytes: "length (ledger_bytes es) \<le> MAX_INPUT_BYTES \<Longrightarrow> ledger_state (ledger_bytes es) = Text (ledger_text es)"
  by (simp add: ledger_state_def decode_ledger_bytes)

lemma chain_passes:
  assumes "chain_upto C es" "es \<noteq> []" "length (ledger_bytes es) \<le> MAX_INPUT_BYTES"
  shows "verdict (verify_ledger C default_options (ledger_state (ledger_bytes es)) tip) = PASS"
    "ts_monotonic (verify_ledger C default_options (ledger_state (ledger_bytes es)) tip) \<longleftrightarrow> ts_backwards es = []"
proof -
  have fits: "\<forall>e\<in>set es. entry_fits e" and v: "valid_chain C Sha256 es" using assms by (simp_all add: chain_upto_def)
  have rep: "chain_report_of C None (ledger_text es) = chain_report_of C (Some Sha256) (ledger_text es)" by (rule report_chain [OF assms(1,2)])
  have "chain_ok (chain_report_of C None (ledger_text es))" unfolding rep chain_report_ledger_text(3) [OF fits] by (rule v)
  moreover have "tip_satisfied C default_options es tip" for es by (simp add: tip_satisfied_def default_options_def given_def split: option.split)
  ultimately show "verdict (verify_ledger C default_options (ledger_state (ledger_bytes es)) tip) = PASS"
    unfolding ledger_state_bytes [OF assms(3)] verdict_text by (simp add: default_options_def)
  show "ts_monotonic (verify_ledger C default_options (ledger_state (ledger_bytes es)) tip) \<longleftrightarrow> ts_backwards es = []"
    unfolding ledger_state_bytes [OF assms(3)] using parse_ledger_text [OF fits, of 0]
    by (simp add: verify_ledger_def default_options_def chain_report_of_def Let_def split: prod.split)
qed

end
