(* ===== verification/Monitor_Safety.thy ===== *)
theory Monitor_Safety
  imports Monitor Ledger_Pass
begin

text \<open>
  What the monitor guarantees: the trees of the states it saved are prefixes of each other, in every mode and whatever
  files it was shown in between; and a log that only grows is never reported.
\<close>

section \<open>Runs that saved a state\<close>

definition saved_tree :: "('x crypto_scheme) \<Rightarrow> bytes list \<Rightarrow> entry \<Rightarrow> bool" where
  "saved_tree C leaves s \<longleftrightarrow>
     s \<noteq> [] \<and> item s ''tree_size'' = Some (JInt (int (length leaves))) \<and> item s ''root_sha256'' = Some (JStr (hex_of (mth (sha256 C) leaves)))"

lemma saved_plain: "saved_tree C leaves (plain_state C A leaves now)"
  by (simp add: saved_tree_def plain_state_def item_def)

lemma saved_with_head: "saved_tree C leaves (with_head (plain_state C A leaves now) sth pk)"
  by (simp add: saved_tree_def plain_state_def with_head_def item_def)

lemma next_state_saved: "next_state C A old leaves now = Done (Some s) \<Longrightarrow> saved_tree C leaves s"
  using saved_plain [of C leaves A now] saved_with_head [of C leaves A now]
  by (auto simp: next_state_def Let_def bind_attempt_Done split: option.splits if_splits)

lemma run_checks_saved:
  assumes "run_checks C re_of A now file tip st = Done (v, Some s)"
  shows "\<exists>leaves. leaves_from_ledger file = Done leaves \<and> saved_tree C leaves s \<and>
    (prev_state st = Done None \<or> (\<exists>p g. prev_state st = Done (Some p) \<and> check_baseline C A p leaves = Done ([], g)))"
proof -
  obtain leaves old where l: "leaves_from_ledger file = Done leaves" "prev_state st = Done old"
    using assms by (auto simp: run_checks_def bind_attempt_Done)
  obtain as gr auth where c: "(case old of None \<Rightarrow> Done ([], Not_Checked, start_auth A) | Some p \<Rightarrow> check_baseline C A p leaves) = Done (as, gr, auth)"
    using assms l by (auto simp: run_checks_def bind_attempt_Done)
  let ?al = "snapshot_alerts (verify_ledger C default_options (ledger_state file) tip) @ as"
  have "(if ?al = [] then next_state C A old leaves now else Done None) = Done (Some s)"
    using assms l c by (cases "?al = []") (auto simp: run_checks_def bind_attempt_Done Let_def)
  then have "?al = []" "next_state C A old leaves now = Done (Some s)" by (auto split: if_splits)
  then show ?thesis using l c next_state_saved by (cases old) auto
qed

section \<open>Histories\<close>

text \<open>A monitor that starts without a state; \<open>hist\<close> are the trees of the states it saved.\<close>

inductive monitored :: "crypto \<Rightarrow> saved \<Rightarrow> bytes list list \<Rightarrow> bool" for C where
  start: "monitored C (Done None) []"
| unsaved: "monitored C st hist \<Longrightarrow> run_monitor C re_of A now w file tip st = (r, st) \<Longrightarrow> monitored C st hist"
| saved: "monitored C st hist \<Longrightarrow> run_monitor C re_of A now w file tip st = (r, st') \<Longrightarrow> st' \<noteq> st \<Longrightarrow>
    leaves_from_ledger file = Done leaves \<Longrightarrow> monitored C st' (hist @ [leaves])"


definition tree_hd :: "hashf \<Rightarrow> bytes list \<Rightarrow> head" where
  "tree_hd H D = (int (length D), mth H D)"

text \<open>The proof a run checks between the saved tree and the current one.\<close>

definition growth_proof :: "hashf \<Rightarrow> bytes list \<Rightarrow> bytes list \<Rightarrow> bytes list" where
  "growth_proof H D E =
     (if length D = length E then [] else case consistency_proof H (int (length D)) E of Some p \<Rightarrow> p | None \<Rightarrow> [])"

fun tree_steps :: "hashf \<Rightarrow> bytes list \<Rightarrow> bytes list list \<Rightarrow> (head \<times> bytes list) list" where
  "tree_steps H D [] = []"
| "tree_steps H D (E # hs) = (tree_hd H E, growth_proof H D E) # tree_steps H E hs"

lemma tree_steps_append: "tree_steps H D (xs @ ys) = tree_steps H D xs @ tree_steps H (last (D # xs)) ys"
  by (induction xs arbitrary: D) auto

lemma last_tree_steps: "last (tree_hd H D # map fst (tree_steps H D hs)) = tree_hd H (last (D # hs))"
  by (induction hs arbitrary: D) (auto split: if_splits)

lemma growth_check_step:
  assumes h: "\<forall>x. length (sha256 C x) = 32" and ok: "check_growth C (int (length D)) (JStr (hex_of (mth (sha256 C) D))) E = Done ([], g)"
  shows "merkle_step (sha256 C) (tree_hd (sha256 C) D) (tree_hd (sha256 C) E) (growth_proof (sha256 C) D E)"
proof -
  let ?H = "sha256 C"
  have l: "length (mth ?H D) = 32" using length_mth h by blast
  have inj: "hex_of (mth ?H D) = hex_of (mth ?H E) \<Longrightarrow> mth ?H D = mth ?H E" by (metis fromhex_hex_of option.inject)
  consider "length E = length D" | "length D < length E" "D = []" | "length D < length E" "D \<noteq> []" | "length E < length D" by fastforce
  then show ?thesis
  proof cases
    case 1
    then have "mth ?H D = mth ?H E" using ok inj by (auto simp: check_growth_def Let_def split: if_splits)
    then show ?thesis using 1 l by (auto simp: merkle_step_def tree_hd_def growth_proof_def verify_consistency_def)
  next
    case 2
    have p: "\<forall>c\<in>set (growth_proof ?H D E). length c = 32"
      using 2 consistency_hashes [of ?H 0 E] length_mth [of ?H] h by (force simp: growth_proof_def split: option.split)
    then show ?thesis using 2 l by (simp add: merkle_step_def tree_hd_def)
  next
    case 3
    then obtain p where p: "consistency_proof ?H (int (length D)) E = Some p" "verify_consistency ?H (int (length D)) (int (length E)) p (mth ?H D) (mth ?H E)"
      using ok by (auto simp: check_growth_def Let_def fromhex_hex_of split: option.splits if_splits)
    have "\<forall>c\<in>set p. length c = 32" using consistency_hashes [OF p(1)] length_mth h by fastforce
    then show ?thesis using 3 p l by (simp add: merkle_step_def tree_hd_def growth_proof_def)
  qed (use ok in \<open>simp add: check_growth_def Let_def\<close>)
qed

definition history_ok :: "crypto \<Rightarrow> saved \<Rightarrow> bytes list list \<Rightarrow> bool" where
  "history_ok C st hist \<longleftrightarrow>
     (case hist of
        [] \<Rightarrow> st = Done None
      | D # hs \<Rightarrow> (\<exists>s. st = Done (Some (JObj s)) \<and> saved_tree C (last hist) s) \<and> follows (merkle_step (sha256 C)) (tree_hd (sha256 C) D) (tree_steps (sha256 C) D hs))"

lemma baseline_growth:
  assumes "check_baseline C A p E = Done ([], g)" "saved_tree C D p"
  shows "\<exists>g. check_growth C (int (length D)) (JStr (hex_of (mth (sha256 C) D))) E = Done ([], g)"
proof -
  let ?g = "check_growth C (int (length D)) (JStr (hex_of (mth (sha256 C) D))) E"
  have i: "Option.bind (item p ''tree_size'') py_int = Some (int (length D))" "item p ''root_sha256'' = Some (JStr (hex_of (mth (sha256 C) D)))"
    using assms(2) by (simp_all add: saved_tree_def)
  obtain a auth where h: "check_saved_head C A p = Done (a, auth)"
    using assms(1) by (auto simp: check_baseline_def bind_attempt_Done)
  obtain as2 gr where g: "?g = Done (as2, gr)" using assms(1) h i by (cases ?g) (auto simp: check_baseline_def)
  have "as2 = []" using assms(1) h i g by (auto simp: check_baseline_def bind_attempt_Done)
  then show ?thesis using g by simp
qed

lemma history_snoc:
  assumes h: "\<forall>x. length (sha256 C x) = 32" and ok: "history_ok C st hist" and l: "leaves_from_ledger file = Done leaves"
    and r: "run_checks C re_of A now file tip st = Done (v, Some s)"
  shows "history_ok C (Done (Some (JObj s))) (hist @ [leaves])"
proof -
  have s: "saved_tree C leaves s" "prev_state st = Done None \<or> (\<exists>p g. prev_state st = Done (Some p) \<and> check_baseline C A p leaves = Done ([], g))"
    using run_checks_saved [OF r] l by auto
  show ?thesis
  proof (cases hist)
    case Nil
    then show ?thesis using s(1) by (simp add: history_ok_def)
  next
    case (Cons D hs)
    obtain p where p: "st = Done (Some (JObj p))" "saved_tree C (last hist) p"
      and f: "follows (merkle_step (sha256 C)) (tree_hd (sha256 C) D) (tree_steps (sha256 C) D hs)"
      using ok Cons by (auto simp: history_ok_def)
    have "prev_state st = Done (Some p)" using p by (simp add: prev_state_def saved_tree_def)
    then obtain g where "check_baseline C A p leaves = Done ([], g)" using s(2) by auto
    then obtain g' where "check_growth C (int (length (last hist))) (JStr (hex_of (mth (sha256 C) (last hist)))) leaves = Done ([], g')"
      using baseline_growth [OF _ p(2)] by blast
    then have "merkle_step (sha256 C) (tree_hd (sha256 C) (last (D # hs))) (tree_hd (sha256 C) leaves) (growth_proof (sha256 C) (last (D # hs)) leaves)"
      using growth_check_step [OF h] Cons by blast
    moreover have "last (D # hs @ [leaves]) = leaves" by simp
    ultimately show ?thesis using s(1) f Cons last_tree_steps [of "sha256 C" D hs]
      by (simp add: history_ok_def tree_steps_append follows_append del: last.simps)
  qed
qed


lemma run_monitor_saved:
  assumes "run_monitor C re_of A now w file tip st = (r, st')" "st' \<noteq> st"
  shows "\<exists>v s. run_checks C re_of A now file tip st = Done (v, Some s) \<and> st' = Done (Some (JObj s))"
  using assms by (auto simp: run_monitor_def split: attempt.splits option.splits doc_write.splits)

lemma monitored_ok: "monitored C st hist \<Longrightarrow> \<forall>x. length (sha256 C x) = 32 \<Longrightarrow> history_ok C st hist"
proof (induction rule: monitored.induct)
  case start
  show ?case by (simp add: history_ok_def)
next
  case (saved st hist re_of A now w f tip r st' leaves)
  then show ?case using run_monitor_saved [OF saved(2,3)] history_snoc by blast
qed

text \<open>What was hashed for the trees from the \<open>i\<close>-th to the \<open>j\<close>-th.\<close>

definition monitor_inputs :: "hashf \<Rightarrow> bytes list list \<Rightarrow> nat \<Rightarrow> nat \<Rightarrow> bytes set" where
  "monitor_inputs H hist i j =
     mth_inputs H (hist ! i) \<union> prefix_inputs H (hist ! j) \<union>
     history_inputs (merkle_inputs H) (tree_hd H (hist ! i)) (tree_steps H (hist ! i) (take (j - i) (drop (i + 1) hist)))"

lemma history_between:
  assumes "follows acc (tree_hd H D) (tree_steps H D hs)" "i < j" "j \<le> length hs"
  shows "follows acc (tree_hd H ((D # hs) ! i)) (tree_steps H ((D # hs) ! i) (take (j - i) (drop i hs)))"
proof -
  have hs: "hs = take i hs @ take (j - i) (drop i hs) @ drop j hs"
    using assms(2) by (metis append.assoc append_take_drop_id drop_drop le_add_diff_inverse2 less_imp_le_nat)
  have l: "last (D # take i hs) = (D # hs) ! i" using assms(2,3) by (cases i) (auto simp: last_conv_nth)
  have "follows acc (tree_hd H D) (tree_steps H D (take i hs @ take (j - i) (drop i hs) @ drop j hs))" using assms(1) hs by simp
  then have "follows acc (last (tree_hd H D # map fst (tree_steps H D (take i hs)))) (tree_steps H (last (D # take i hs)) (take (j - i) (drop i hs) @ drop j hs))"
    unfolding tree_steps_append follows_append by simp
  then show ?thesis unfolding last_tree_steps l tree_steps_append follows_append by simp
qed

lemma monitored_prefix:
  assumes h: "\<forall>x. length (sha256 C x) = 32" and m: "monitored C st hist" and "i < j" "j < length hist" "hist ! i \<noteq> []"
  shows "length (hist ! i) \<le> length (hist ! j) \<and>
    (hist ! i = take (length (hist ! i)) (hist ! j) \<or> collision (sha256 C) (monitor_inputs (sha256 C) hist i j))"
proof -
  let ?H = "sha256 C" and ?D = "hist ! i" and ?E = "hist ! j"
  obtain D hs where hist: "hist = D # hs" using assms(3,4) by (cases hist) auto
  let ?p = "tree_steps ?H ?D (take (j - i) (drop i hs))"
  have f: "follows (merkle_step ?H) (int (length ?D), mth ?H ?D) ?p"
    using monitored_ok [OF m h] history_between [of "merkle_step ?H" ?H D hs i j] assms(3,4) by (simp add: history_ok_def hist tree_hd_def)
  have "last (?D # take (j - i) (drop i hs)) = ?E" using assms(3,4) hist
    by (cases j) (auto simp: last_conv_nth)
  then have l: "last ((int (length ?D), mth ?H ?D) # map fst ?p) = (int (length ?E), mth ?H ?E)"
    using last_tree_steps [of ?H ?D "take (j - i) (drop i hs)"] by (simp add: tree_hd_def del: last.simps)
  have le: "length ?D \<le> length ?E" using merkle.follows_grows [OF f] unfolding l by simp
  have in1: "prefix_inputs ?H ?E \<union> history_inputs (merkle_inputs ?H) (int (length ?D), mth ?H ?D) ?p \<subseteq> monitor_inputs ?H hist i j"
    by (auto simp: monitor_inputs_def tree_hd_def hist)
  have in2: "mth_inputs ?H ?D \<union> mth_inputs ?H (take (length ?D) ?E) \<subseteq> monitor_inputs ?H hist i j"
    by (auto simp: monitor_inputs_def prefix_inputs_def)
  have "mth ?H ?D = mth ?H (take (length ?D) ?E) \<or> collision ?H (monitor_inputs ?H hist i j)"
    using or_collision_mono [OF merkle.follows_extract [OF h f _ l] in1] assms(5) by simp
  moreover have "?D = take (length ?D) ?E \<or> collision ?H (monitor_inputs ?H hist i j)" if "mth ?H ?D = mth ?H (take (length ?D) ?E)"
    using or_collision_mono [OF mth_binding [OF _ _ that] in2] h le by simp
  ultimately show ?thesis using le by blast
qed


section \<open>A log that only grows\<close>

definition writer_state :: "crypto \<Rightarrow> mon_args \<Rightarrow> signing_key \<Rightarrow> bytes list \<Rightarrow> pystr \<Rightarrow> entry" where
  "writer_state C A sk leaves now =
     with_head (plain_state C A leaves now) (JObj (signed_tree_head C sk leaves now)) (JStr (hex_of (sk_public sk)))"

lemma writer_state_fields:
  "get (writer_state C A sk leaves now) ''sth'' = JObj (signed_tree_head C sk leaves now)"
  "get (writer_state C A sk leaves now) ''log_pubkey_hex'' = JStr (hex_of (sk_public sk))"
  "item (writer_state C A sk leaves now) ''tree_size'' = Some (JInt (int (length leaves)))"
  "item (writer_state C A sk leaves now) ''root_sha256'' = Some (JStr (hex_of (mth (sha256 C) leaves)))"
  "prev_state (Done (Some (JObj (writer_state C A sk leaves now)))) = Done (Some (writer_state C A sk leaves now))"
  by (simp_all add: writer_state_def with_head_def plain_state_def get_def item_def prev_state_def)

lemma grown_no_alert: "\<exists>g. check_growth C (int (length D)) (JStr (hex_of (mth (sha256 C) D))) (D @ E) = Done ([], g)"
proof -
  let ?H = "sha256 C" and ?n = "int (length D)"
  consider "E = []" | "E \<noteq> []" "D = []" | "E \<noteq> []" "D \<noteq> []" by blast
  then show ?thesis
  proof cases
    case 3
    then obtain p where p: "consistency_proof ?H ?n (D @ E) = Some p" using consistency_defined [of ?n "D @ E"] by auto
    have "verify_consistency ?H ?n (int (length (D @ E))) p (mth ?H D) (mth ?H (D @ E))" using consistency_accepts [OF p] by simp
    then show ?thesis using 3 p by (simp add: check_growth_def Let_def fromhex_hex_of)
  qed (simp_all add: check_growth_def Let_def)
qed

lemma writer_baseline:
  assumes "mon_key A = Some sk" "head_key A = Some (hex_of (sk_public sk))" "silence A = None" "honest_key C sk"
  shows "\<exists>g. check_baseline C A (writer_state C B sk D now) (D @ E) = Done ([], g)"
proof -
  let ?s = "writer_state C B sk D now"
  have "sth_ok (verify_sth C (signed_tree_head C sk D now) (head_key A))"
    unfolding assms(2) by (rule issued_sth) (rule honest_signs_head [OF assms(4)])
  moreover have "signed_tree_head C sk D now \<noteq> []" by (simp add: signed_tree_head_def Let_def)
  ultimately have "check_saved_head C A ?s = Done ([], Head_Verified)"
    using assms(2) by (simp add: check_saved_head_def writer_state_fields sth_fields)
  moreover obtain g where "check_growth C (int (length D)) (JStr (hex_of (mth (sha256 C) D))) (D @ E) = Done ([], g)" using grown_no_alert by blast
  moreover have "key_alerts A ?s = []" using assms(1) by (simp add: key_alerts_def writer_state_fields)
  ultimately show ?thesis using assms(3) by (simp add: check_baseline_def writer_state_fields silence_alerts_def)
qed

lemma writer_run:
  assumes es: "chain_upto C (es @ new)" "es @ new \<noteq> []" "length (ledger_bytes (es @ new)) \<le> MAX_INPUT_BYTES" "ts_backwards (es @ new) = []"
    and A: "mon_key A = Some sk" "head_key A = Some (hex_of (sk_public sk))" "silence A = None" "patterns A = []" "honest_key C sk"
    and st: "es = [] \<and> st = Done None \<or> st = Done (Some (JObj (writer_state C B sk (map canonical_payload es) ts)))"
  shows "\<exists>v. run_monitor C re_of A now Written (ledger_bytes (es @ new)) tip st =
      (Done v, Done (Some (JObj (writer_state C A sk (map canonical_payload (es @ new)) now)))) \<and> mon_ok v \<and> mon_tree_size v = length (es @ new)"
proof -
  let ?D = "map canonical_payload es" and ?E = "map canonical_payload new" and ?file = "ledger_bytes (es @ new)"
  have l: "leaves_from_ledger ?file = Done (?D @ ?E)" using leaves_of_ledger_bytes [of "es @ new"] es(1) by (simp add: chain_upto_def)
  have snap: "snapshot_alerts (verify_ledger C default_options (ledger_state ?file) tip) = []"
    using chain_passes [OF es(1-3), of tip] es(4) by (simp add: snapshot_alerts_def)
  obtain old g where old: "prev_state st = Done old"
    "(case old of None \<Rightarrow> Done ([], Not_Checked, start_auth A) | Some p \<Rightarrow> check_baseline C A p (?D @ ?E)) = Done ([], g)"
    using st writer_baseline [OF A(1-3,5), of B ?D ts ?E] writer_state_fields(5) [of C B sk ?D ts]
    by (fastforce simp: prev_state_def split: if_splits)
  have n: "next_state C A old (?D @ ?E) now = Done (Some (writer_state C A sk (?D @ ?E) now))"
    using A(1) by (simp add: next_state_def writer_state_def Let_def signed_tree_head_def get_def)
  obtain gr auth where g: "g = (gr, auth)" by fastforce
  show ?thesis using old n A(4) unfolding run_monitor_def run_checks_def l by (simp add: snap g)
qed


section \<open>The theorems\<close>

text \<open>
  C34. Append-only as the monitor sees it: in every run of a monitor (whatever mode, ledger files, published heads and failed writes),
  the trees of the states it saved only grow, each a prefix of every later one, or the hash function collides on inputs that were
  hashed for them. A rewritten, truncated or forked ledger never advances the state.
\<close>

theorem monitor_append_only:
  assumes "monitored C st hist" "\<forall>x. length (sha256 C x) = 32" "i < j" "j < length hist" "hist ! i \<noteq> []"
  shows "length (hist ! i) \<le> length (hist ! j) \<and>
    (hist ! i = take (length (hist ! i)) (hist ! j) \<or> collision (sha256 C) (monitor_inputs (sha256 C) hist i j))"
  by (rule monitored_prefix [OF assms(2,1,3-5)])

text \<open>
  C35. No false alarm: a monitor with the log key, shown the ledger its own last state was saved for with any entries appended
  (a valid chain whose timestamps do not go back, within the size bound), reports no alert and saves the new tree.
\<close>

theorem honest_growth_green:
  assumes "chain_upto C (es @ new)" "es @ new \<noteq> []" "length (ledger_bytes (es @ new)) \<le> MAX_INPUT_BYTES" "ts_backwards (es @ new) = []"
    and "mon_key A = Some sk" "head_key A = Some (hex_of (sk_public sk))" "silence A = None" "patterns A = []" "honest_key C sk"
    and "es = [] \<and> st = Done None \<or> st = Done (Some (JObj (writer_state C B sk (map canonical_payload es) ts)))"
  shows "\<exists>v. run_monitor C re_of A now Written (ledger_bytes (es @ new)) tip st =
      (Done v, Done (Some (JObj (writer_state C A sk (map canonical_payload (es @ new)) now)))) \<and> mon_ok v \<and> mon_tree_size v = length (es @ new)"
  by (rule writer_run [OF assms])

definition example_monitor :: mon_args where
  "example_monitor = \<lparr>mon_key = Some (example_key 1), silence = None, trusted_key = None, published = None, patterns = [], ledger_path = lit ''l''\<rparr>"

lemma example_monitor_fits:
  "mon_key example_monitor = Some (example_key 1)" "head_key example_monitor = Some (hex_of (sk_public (example_key 1)))"
  "silence example_monitor = None" "patterns example_monitor = []" "honest_key example_crypto (example_key 1)"
  by (simp_all add: example_monitor_def head_key_def given_def honest_key_def example_key_def example_sign_def example_crypto_def)

lemma example_ledger_chain: "chain_upto example_crypto example_ledger"
  using example_ledger_valid example_ledger_fits by (simp add: chain_upto_def)

lemma example_ledger_size: "length (ledger_bytes (take k example_ledger)) \<le> MAX_INPUT_BYTES"
proof -
  have "length (ledger_bytes example_ledger) \<le> 1000" by code_simp
  moreover have "length (ledger_bytes (take k example_ledger)) \<le> length (ledger_bytes example_ledger)"
    using ledger_bytes_append [of "take k example_ledger" "drop k example_ledger"] by simp
  ultimately show ?thesis by (simp add: MAX_INPUT_BYTES_def)
qed

lemma example_ledger_split: "take 1 example_ledger @ drop 1 example_ledger = example_ledger" "length example_ledger = 2"
  by (simp_all add: example_ledger_def Let_def)

lemma example_ledger_ts: "ts_backwards example_ledger = []" "ts_backwards (take 1 example_ledger) = []"
  by code_simp+

abbreviation example_tree :: "nat \<Rightarrow> bytes list" where
  "example_tree k \<equiv> map canonical_payload (take k example_ledger)"

text \<open>Two runs over the growing example ledger.\<close>

lemma example_runs:
  fixes now :: pystr
  defines "M \<equiv> run_monitor example_crypto (\<lambda>_. None) example_monitor now Written"
  shows "\<exists>v. M (ledger_bytes (take 1 example_ledger)) None (Done None) = (Done v, Done (Some (JObj (writer_state example_crypto example_monitor (example_key 1) (example_tree 1) now)))) \<and> mon_ok v"
    "\<exists>v. M (ledger_bytes example_ledger) None (Done (Some (JObj (writer_state example_crypto example_monitor (example_key 1) (example_tree 1) now)))) =
      (Done v, Done (Some (JObj (writer_state example_crypto example_monitor (example_key 1) (example_tree 2) now)))) \<and> mon_ok v \<and> mon_tree_size v = 2"
proof -
  have c1: "chain_upto example_crypto (take 1 example_ledger)"
    using chain_take [of example_crypto "take 1 example_ledger" "drop 1 example_ledger"] example_ledger_chain by simp
  have t2: "take 2 example_ledger = example_ledger" using example_ledger_split(2) by simp
  have ne: "take 1 example_ledger \<noteq> []" "example_ledger \<noteq> []" using example_ledger_split(2) by auto
  show "\<exists>v. M (ledger_bytes (take 1 example_ledger)) None (Done None) = (Done v, Done (Some (JObj (writer_state example_crypto example_monitor (example_key 1) (example_tree 1) now)))) \<and> mon_ok v"
    using writer_run [of example_crypto "[]" "take 1 example_ledger", OF _ _ _ _ example_monitor_fits disjI1] c1 ne example_ledger_size [of 1] example_ledger_ts(2)
    unfolding M_def by fastforce
  show "\<exists>v. M (ledger_bytes example_ledger) None (Done (Some (JObj (writer_state example_crypto example_monitor (example_key 1) (example_tree 1) now)))) =
      (Done v, Done (Some (JObj (writer_state example_crypto example_monitor (example_key 1) (example_tree 2) now)))) \<and> mon_ok v \<and> mon_tree_size v = 2"
    using writer_run [of example_crypto "take 1 example_ledger" "drop 1 example_ledger", OF _ _ _ _ example_monitor_fits disjI2 [OF refl], of "\<lambda>_. None" now None]
      example_ledger_chain ne example_ledger_size [of 2] example_ledger_ts(1) example_ledger_split
    unfolding M_def example_ledger_split t2 by simp
qed


lemma example_history:
  "\<exists>st. monitored example_crypto st [example_tree 1, example_tree 2]"
proof -
  let ?s = "\<lambda>k. writer_state example_crypto example_monitor (example_key 1) (example_tree k) []"
  obtain v1 v2 where r: "run_monitor example_crypto (\<lambda>_. None) example_monitor [] Written (ledger_bytes (take 1 example_ledger)) None (Done None) = (Done v1, Done (Some (JObj (?s 1))))"
    "run_monitor example_crypto (\<lambda>_. None) example_monitor [] Written (ledger_bytes example_ledger) None (Done (Some (JObj (?s 1)))) = (Done v2, Done (Some (JObj (?s 2))))"
    using example_runs [of "[]"] by blast
  have l: "leaves_from_ledger (ledger_bytes (take 1 example_ledger)) = Done (example_tree 1)" "leaves_from_ledger (ledger_bytes example_ledger) = Done (example_tree 2)"
    using leaves_of_ledger_bytes [of "take 1 example_ledger"] leaves_of_ledger_bytes [of example_ledger] example_ledger_fits example_ledger_split(2)
    by (auto dest: in_set_takeD)
  have "item (?s 1) ''tree_size'' \<noteq> item (?s 2) ''tree_size''" using example_ledger_split(2) by (simp add: writer_state_fields)
  then have d: "Done (Some (JObj (?s 2))) \<noteq> Done (Some (JObj (?s 1)))" by auto
  have "monitored example_crypto (Done (Some (JObj (?s 1)))) ([] @ [example_tree 1])"
    by (rule monitored.saved [OF monitored.start r(1) _ l(1)]) simp
  from monitored.saved [OF this r(2) d l(2)] show ?thesis by auto
qed

theorem monitor_append_only_witness:
  "\<exists>st. monitored example_crypto st [example_tree 1, example_tree 2] \<and> length (example_tree 1) \<le> length (example_tree 2) \<and>
    (example_tree 1 = take (length (example_tree 1)) (example_tree 2) \<or>
     collision (sha256 example_crypto) (monitor_inputs (sha256 example_crypto) [example_tree 1, example_tree 2] 0 1))"
proof -
  obtain st where m: "monitored example_crypto st [example_tree 1, example_tree 2]" using example_history by blast
  have "\<forall>x. length (sha256 example_crypto x) = 32" "example_tree 1 \<noteq> []" using example_ledger_split(2) by (auto simp: example_crypto_def)
  with monitor_append_only [OF m, of 0 1] m show ?thesis by auto
qed

theorem honest_growth_green_witness:
  "\<exists>v. run_monitor example_crypto (\<lambda>_. None) example_monitor [] Written (ledger_bytes (take 1 example_ledger @ drop 1 example_ledger)) None
       (Done (Some (JObj (writer_state example_crypto example_monitor (example_key 1) (example_tree 1) [])))) =
      (Done v, Done (Some (JObj (writer_state example_crypto example_monitor (example_key 1) (map canonical_payload (take 1 example_ledger @ drop 1 example_ledger)) [])))) \<and>
    mon_ok v \<and> mon_tree_size v = length (take 1 example_ledger @ drop 1 example_ledger)"
proof -
  have "example_ledger \<noteq> []" "length (ledger_bytes example_ledger) \<le> MAX_INPUT_BYTES" using example_ledger_split(2) example_ledger_size [of 2] by auto
  then show ?thesis
    using honest_growth_green [of example_crypto "take 1 example_ledger" "drop 1 example_ledger", OF _ _ _ _ example_monitor_fits disjI2 [OF refl]]
      example_ledger_chain example_ledger_ts(1) unfolding example_ledger_split(1) by blast
qed

end
