(* ===== verification/Archive_Audit.thy ===== *)
theory Archive_Audit
  imports Ledger_Pass
begin

text \<open>The auditor on the archive of an ingestor: every sealed segment, the chain of heads, the manifest and the signatures pass.\<close>

section \<open>Lenient base64 reads what was encoded\<close>

lemma three_octets:
  assumes "x < 256" "y < 256" "z < (256::nat)"
  shows "(65536 * x + 256 * y + z) div 65536 = x" "(65536 * x + 256 * y + z) div 256 mod 256 = y" "(65536 * x + 256 * y + z) mod 256 = z"
proof -
  show "(65536 * x + 256 * y + z) div 65536 = x" by (rule div_nat_eqI) (use assms in simp_all)
  have "(65536 * x + 256 * y + z) div 256 = 256 * x + y" by (rule div_nat_eqI) (use assms in simp_all)
  then show "(65536 * x + 256 * y + z) div 256 mod 256 = y" using assms by simp
  have "65536 * x + 256 * y + z = z + 256 * (256 * x + y)" by simp
  then show "(65536 * x + 256 * y + z) mod 256 = z" using assms by (simp only: mod_mult_self2) simp
qed

lemma quad_octets:
  assumes "a < 64" "b < 64" "c < 64" "d < (64::nat)"
  shows "(a * 262144 + b * 4096 + c * 64 + d) div 65536 = a * 4 + b div 16"
   "(a * 262144 + b * 4096 + c * 64 + d) div 256 mod 256 = b mod 16 * 16 + c div 4"
   "(a * 262144 + b * 4096 + c * 64 + d) mod 256 = c mod 4 * 64 + d"
proof -
  have b: "b = 16 * (b div 16) + b mod 16" "b mod 16 < 16" "b div 16 < 4" using assms by auto
  have c: "c = 4 * (c div 4) + c mod 4" "c mod 4 < 4" "c div 4 < 16" using assms by auto
  have n: "a * 262144 + b * 4096 + c * 64 + d = 65536 * (a * 4 + b div 16) + 256 * (b mod 16 * 16 + c div 4) + (c mod 4 * 64 + d)"
  proof -
    have "a * 262144 + (16 * p + q) * 4096 + (4 * r + s) * 64 + d = 65536 * (a * 4 + p) + 256 * (q * 16 + r) + (s * 64 + d)" for p q r s :: nat
      by simp
    from this [of "b div 16" "b mod 16" "c div 4" "c mod 4"] show ?thesis using b(1) c(1) by metis
  qed
  have l: "a * 4 + b div 16 < 256" "b mod 16 * 16 + c div 4 < 256" "c mod 4 * 64 + d < 256" using assms b c by linarith+
  show "(a * 262144 + b * 4096 + c * 64 + d) div 65536 = a * 4 + b div 16"
   "(a * 262144 + b * 4096 + c * 64 + d) div 256 mod 256 = b mod 16 * 16 + c div 4"
   "(a * 262144 + b * 4096 + c * 64 + d) mod 256 = c mod 4 * 64 + d"
    unfolding n by (rule three_octets [OF l])+
qed

lemma b64_val_bound: "b64_val q = Some v \<Longrightarrow> v < 64 \<and> q \<noteq> 61"
  by (auto simp: b64_val_def split: if_splits)

lemma a2b_decode: "b64decode s = Some bs \<Longrightarrow> a2b 0 l p s = Some bs"
proof (induction s arbitrary: bs l p rule: b64decode.induct)
  case (2 w x y z r)
  obtain a b where ab: "b64_val w = Some a" "b64_val x = Some b" using 2(2) by (auto split: option.splits)
  note va = b64_val_bound [OF ab(1)] and vb = b64_val_bound [OF ab(2)]
  show ?case
  proof (cases "y = 61 \<and> z = 61 \<and> r = []")
    case True
    then show ?thesis using 2(2) ab va vb quad_octets(1) [of a b 0 0] by simp
  next
    case y: False
    then obtain c where c: "b64_val y = Some c" using 2(2) ab by (auto split: option.splits)
    note vc = b64_val_bound [OF c]
    show ?thesis
    proof (cases "z = 61 \<and> r = []")
      case True
      then show ?thesis using 2(2) ab c va vb vc quad_octets [of a b c 0] by (simp add: Let_def)
    next
      case False
      then obtain d where d: "b64_val z = Some d" using 2(2) ab c y by (auto split: option.splits)
      note vd = b64_val_bound [OF d]
      have b: "b64decode (w # x # y # z # r) = map_option (\<lambda>bs. of_nat (a * 4 + b div 16) # of_nat (b mod 16 * 16 + c div 4) # of_nat (c mod 4 * 64 + d) # bs) (b64decode r)"
        using False y ab c d quad_octets [of a b c d] va vb vc vd unfolding b64decode.simps Let_def by simp
      then obtain q where q: "b64decode r = Some q" "bs = of_nat (a * 4 + b div 16) # of_nat (b mod 16 * 16 + c div 4) # of_nat (c mod 4 * 64 + d) # q"
        using 2(2) by auto
      have "a2b 0 0 0 r = Some q" by (rule 2(1) [OF refl ab y c False d refl q(1)])
      then show ?thesis using ab c d va vb vc vd q(2) by simp
    qed
  qed
qed auto

lemma b64_lenient_encode: "b64_lenient (b64encode bs) = Some bs"
  using b64encode_plain [of _ bs] a2b_decode [OF b64decode_encode] by (auto simp: b64_lenient_def list_all_iff)

section \<open>Signatures\<close>

text \<open>The keys an auditor pins for the backend of an ingestor.\<close>

definition pins_fit :: "crypto \<Rightarrow> signing_key option \<Rightarrow> pystr list \<Rightarrow> bool" where
  "pins_fit C key pins \<longleftrightarrow>
     (case key of None \<Rightarrow> pins = [] | Some sk \<Rightarrow> honest_key C sk \<and> (pins = [] \<or> hex_of (sk_public sk) \<in> set pins))"

lemma body_unsigned: "sth_body b = b \<Longrightarrow> map_of b (lit ''signature'') = None \<and> map_of b (lit ''signer'') = None"
  by (auto simp: sth_body_def filter_id_conv map_of_eq_None_iff)

lemma signed_fields:
  assumes "sth_body b = b"
  shows "get (sign_doc C (Some sk) b) ''signature'' = JStr (b64encode (sk_sign sk (ascii_bytes (sth_canonical_hash C b))))"
    "get (sign_doc C (Some sk) b) ''signer'' = JStr (hex_of (sk_public sk))"
    "get (sign_doc C None b) ''signature'' = JNull"
  using body_unsigned [OF assms] by (simp_all add: sign_doc_def get_def map_add_def del: lit_Cons lit_Nil)

lemma check_signed:
  assumes "sth_body b = b" "pins_fit C (Some sk) pins"
  shows "check_signature C (sign_doc C (Some sk) b) pins = None"
proof -
  let ?d = "sign_doc C (Some sk) b"
  have k: "length (sk_public sk) = 32" "ed_verify C (sk_public sk) (sk_sign sk m) m" for m using assms(2) by (simp_all add: pins_fit_def honest_key_def)
  show ?thesis using assms(2) k
    by (auto simp: check_signature_def signed_fields [OF assms(1)] sth_hash_sign [OF assms(1)] fromhex_hex_of b64_lenient_encode pins_fit_def)
qed

lemma signature_truthy:
  assumes "sth_body b = b" "pins_fit C key pins"
  shows "truthy (get (sign_doc C key b) ''signature'') \<longleftrightarrow> key \<noteq> None"
proof (cases key)
  case (Some sk)
  have "length (sk_sign sk m) = 64" for m using assms(2) Some by (simp add: pins_fit_def honest_key_def)
  then have "sk_sign sk m \<noteq> []" for m by (metis list.size(3) zero_neq_numeral)
  then have "b64encode (sk_sign sk m) \<noteq> []" for m by (metis b64decode.simps(1) b64decode_encode option.inject)
  then show ?thesis using Some by (simp add: signed_fields [OF assms(1)])
qed (simp add: signed_fields [OF assms(1)])

definition fits_signer :: "signing_key option \<Rightarrow> json list \<Rightarrow> bool" where
  "fits_signer key vs \<longleftrightarrow> vs = [] \<or> (\<exists>sk. key = Some sk \<and> vs = [JStr (hex_of (sk_public sk))])"

lemma audit_signed:
  assumes "signed_ok C cfg d" "pins_fit C (backend cfg) pins" "faults a = []" "fits_signer (backend cfg) (signers a)"
  shows "\<exists>a'. audit_signature C pins name d a = Done a' \<and> faults a' = [] \<and> prev_sth a' = prev_sth a \<and> fits_signer (backend cfg) (signers a')"
proof -
  obtain b where b: "sth_body b = b" "d = sign_doc C (backend cfg) b" using assms(1) by (auto simp: signed_ok_def)
  show ?thesis
  proof (cases "backend cfg")
    case None
    then have "pins = []" using assms(2) by (simp add: pins_fit_def)
    then show ?thesis using assms signature_truthy [OF b(1) assms(2)] None b(2) by (simp add: audit_signature_def fault_if_def)
  next
    case (Some sk)
    have "truthy (get d ''signature'')" using signature_truthy [OF b(1) assms(2)] Some b(2) by simp
    moreover have "get d ''signer'' = JStr (hex_of (sk_public sk))" using signed_fields(2) [OF b(1)] b(2) Some by simp
    moreover have "check_signature C d pins = None" using check_signed [OF b(1)] assms(2) b(2) Some by simp
    ultimately show ?thesis using assms(3,4) Some by (auto simp: audit_signature_def hashable_def fits_signer_def Let_def)
  qed
qed

section \<open>Sealed segments and the manifest\<close>

lemma audit_one:
  assumes s: "seg_file s = ledger_bytes es" "es \<noteq> []" "chain_upto C es" "seg_token s = None" "seg_sth s = Doc d" "head_doc_ok C cfg h es d"
    and size: "length (seg_file s) \<le> MAX_INPUT_BYTES" and pins: "pins_fit C (backend cfg) pins"
    and a: "faults a = []" "prev_sth a = JStr h" "fits_signer (backend cfg) (signers a)"
  shows "\<exists>a'. audit_segment C cms pins s a = Done a' \<and> faults a' = [] \<and> prev_sth a' = JStr (sth_canonical_hash C d) \<and> fits_signer (backend cfg) (signers a')"
proof -
  have p: "verdict (verify_ledger C default_options (ledger_state (seg_file s)) (seg_tip s)) = PASS"
    using chain_passes(1) [OF s(3,2), of "seg_tip s"] size s(1) by simp
  have l: "leaves_from_ledger (seg_file s) = Done (map canonical_payload es)"
    using leaves_of_ledger_bytes [of es] s(1,3) by (simp add: chain_upto_def)
  obtain a' where a': "audit_signature C pins (seg_name s) d a = Done a'" "faults a' = []" "fits_signer (backend cfg) (signers a')"
    using audit_signed [of C cfg d pins a "seg_name s"] s(6) pins a by (auto simp: head_doc_ok_def)
  show ?thesis using p l a' s(4,5,6) a
    by (simp add: audit_segment_def Let_def fault_if_def audit_token_def head_doc_ok_def)
qed

lemma audit_sealed:
  "sealed_from C cfg h segs ess \<Longrightarrow> \<forall>s\<in>set segs. length (seg_file s) \<le> MAX_INPUT_BYTES \<Longrightarrow> pins_fit C (backend cfg) pins \<Longrightarrow>
   faults a = [] \<Longrightarrow> prev_sth a = JStr h \<Longrightarrow> fits_signer (backend cfg) (signers a) \<Longrightarrow>
   \<exists>a'. audit_segments C cms pins segs a = Done a' \<and> faults a' = [] \<and> prev_sth a' = JStr (last_head C h segs) \<and> fits_signer (backend cfg) (signers a')"
proof (induction C cfg h segs ess arbitrary: a rule: sealed_from.induct)
  case (2 C cfg h s segs es ess)
  obtain d where d: "seg_sth s = Doc d" "head_doc_ok C cfg h es d" "sealed_from C cfg (sth_canonical_hash C d) segs ess"
    "seg_file s = ledger_bytes es" "es \<noteq> []" "chain_upto C es" "seg_token s = None" using 2(2) by auto
  obtain a1 where a1: "audit_segment C cms pins s a = Done a1" "faults a1 = []" "prev_sth a1 = JStr (sth_canonical_hash C d)" "fits_signer (backend cfg) (signers a1)"
    using audit_one [OF d(4-7,1,2) _ 2(4,5,6,7)] 2(3) by auto
  from 2(1) [OF d(3) _ 2(4) a1(2-4)] 2(3) show ?case using a1(1) d(1) by simp
qed auto

lemma manifest_passes:
  assumes "manifest_ok C cfg segs m" "pins_fit C (backend cfg) pins" "segs \<noteq> []"
  shows "head_faults C pins (length segs) (JStr (last_head C GENESIS_PREV segs)) m = []"
proof -
  obtain h b where h: "m = Doc h" "sth_body b = b" "h = sign_doc C (backend cfg) b" "get h ''segments_sealed'' = JInt (int (length segs))"
    "get h ''last_sth_sha256'' = JStr (last_head C GENESIS_PREV segs)"
    using assms(1,3) by (auto simp: manifest_ok_def signed_ok_def)
  have "if truthy (get h ''signature'') then check_signature C h pins = None else pins = []"
    using signature_truthy [OF h(2) assms(2)] check_signed [OF h(2)] assms(2) h(3) by (cases "backend cfg") (auto simp: pins_fit_def)
  then show ?thesis using h(1,4,5) by (simp add: head_faults_def as_int_Some split: if_splits)
qed

lemma archive_passes:
  assumes "archive_ok C cfg arc segs ess s es" "pins_fit C (backend cfg) pins" "\<forall>s\<in>set (arc_segments arc). length (seg_file s) \<le> MAX_INPUT_BYTES" "segs \<noteq> []"
  shows "\<exists>r. verify_archive C cms pins arc = Done r \<and> rep_ok r \<and> segments_verified r = length segs \<and> unsealed_segments r = 1 \<and> rep_failures r = []"
proof -
  have a: "arc_segments arc = segs @ [s]" "sealed_from C cfg GENESIS_PREV segs ess" "manifest_ok C cfg segs (arc_head arc)" "seg_sth s = No_File"
    using assms(1) by (simp_all add: archive_ok_def)
  have ss: "filter sealed (arc_segments arc) = segs" using sealed_from_sealed [OF a(2)] a(1,4) by (auto simp: filter_id_conv sealed_def)
  have "\<forall>s\<in>set segs. length (seg_file s) \<le> MAX_INPUT_BYTES" using assms(3) a(1) by simp
  from audit_sealed [OF a(2) this assms(2), of start_audit cms] obtain x where
    x: "audit_segments C cms pins segs start_audit = Done x" "faults x = []" "prev_sth x = JStr (last_head C GENESIS_PREV segs)" "fits_signer (backend cfg) (signers x)"
    by (auto simp: start_audit_def fits_signer_def)
  have "sortable (signers x)" using x(4) by (auto simp: fits_signer_def sortable_def)
  then show ?thesis using x manifest_passes [OF a(3) assms(2,4)] ss a(1) assms(4) by (simp add: verify_archive_def Let_def)
qed

end
