(* ===== verification/Ingest_Theorems.thy ===== *)
theory Ingest_Theorems
  imports Archive_Audit "HOL-Library.Sublist"
begin

text \<open>
  The ingestor refines an event log: events are queued, flushed in batches, sealed in segments, and a crash keeps what was
  flushed and some first part of the queue. What is durable only grows, and every archive left on disk passes the audit.
\<close>

section \<open>The abstract log\<close>

record log =
  sealed_log :: "entry list list"
  durable :: "entry list"
  queued :: "entry list"

definition empty_log :: log where
  "empty_log = \<lparr>sealed_log = [], durable = [], queued = []\<rparr>"

inductive log_step :: "log \<Rightarrow> log \<Rightarrow> bool" where
  log_queue: "log_step l (l\<lparr>queued := queued l @ [e]\<rparr>)"
| log_flush: "log_step l (l\<lparr>durable := durable l @ queued l, queued := []\<rparr>)"
| log_seal: "queued l = [] \<Longrightarrow> durable l \<noteq> [] \<Longrightarrow> log_step l (l\<lparr>sealed_log := sealed_log l @ [durable l], durable := []\<rparr>)"
| log_crash: "log_step l (l\<lparr>durable := durable l @ take j (queued l), queued := []\<rparr>)"

definition recorded :: "log \<Rightarrow> entry list" where
  "recorded l = concat (sealed_log l) @ durable l"

lemma log_step_grows: "log_step l l' \<Longrightarrow> prefix (recorded l) (recorded l')"
  by (induction rule: log_step.induct) (auto simp: recorded_def)

lemma log_steps_grow: "log_step\<^sup>*\<^sup>* l l' \<Longrightarrow> prefix (recorded l) (recorded l')"
  by (induction rule: rtranclp_induct) (auto dest: log_step_grows intro: prefix_order.trans)

section \<open>Runs of the ingestor\<close>

definition empty_archive :: archive where
  "empty_archive = \<lparr>arc_segments = [], arc_head = No_File\<rparr>"

text \<open>
  The operations, with any outcome of the system calls that leaves a failed append cut off and a sealed segment with its manifest
  (\<open>clean\<close>); a crash loses the memory and leaves any first octets of the pending batch in the file.
\<close>

inductive ing_step :: "crypto \<Rightarrow> config \<Rightarrow> ingestor \<Rightarrow> ingestor \<Rightarrow> bool" for C cfg where
  step_append: "clean env \<Longrightarrow> event_fits (utc_now env) data \<Longrightarrow> int (idx st) \<le> SAFE_INT \<Longrightarrow> append_event C cfg env data st = (r, st') \<Longrightarrow> ing_step C cfg st st'"
| step_flush: "clean env \<Longrightarrow> flush cfg env st = (r, st') \<Longrightarrow> ing_step C cfg st st'"
| step_seal: "clean env \<Longrightarrow> seal_segment C cfg env n st = (h, st') \<Longrightarrow> ing_step C cfg st st'"
| step_close: "clean env \<Longrightarrow> close_ingestor C cfg env b st = (r, st') \<Longrightarrow> ing_step C cfg st st'"
| step_crash: "ingestor_init C cfg (crashed k st) = Done st' \<Longrightarrow> ing_step C cfg st st'"

definition started :: "crypto \<Rightarrow> config \<Rightarrow> ingestor \<Rightarrow> bool" where
  "started C cfg st \<longleftrightarrow> ingestor_init C cfg empty_archive = Done st"

definition reachable :: "crypto \<Rightarrow> config \<Rightarrow> ingestor \<Rightarrow> bool" where
  "reachable C cfg st \<longleftrightarrow> (\<exists>st0. started C cfg st0 \<and> (ing_step C cfg)\<^sup>*\<^sup>* st0 st)"

section \<open>Refinement\<close>

definition implements :: "crypto \<Rightarrow> config \<Rightarrow> ingestor \<Rightarrow> log \<Rightarrow> bool" where
  "implements C cfg st l \<longleftrightarrow> (\<exists>segs. ing_ok C cfg st segs (sealed_log l) (durable l) (queued l))"

definition first_state :: "config \<Rightarrow> ingestor" where
  "first_state cfg = \<lparr>disk = \<lparr>arc_segments = [fresh_segment cfg 0], arc_head = No_File\<rparr>, seq = 0, idx = 0, prev = GENESIS_PREV,
     first = GENESIS_PREV, buf = [], recovered_bytes = 0\<rparr>"

lemma started_first: "started C cfg st \<longleftrightarrow> 0 < batch cfg \<and> 0 < rotate cfg \<and> st = first_state cfg"
  by (auto simp: started_def ingestor_init_def open_or_resume_def empty_archive_def first_state_def)

lemma first_state_ok: "ing_ok C cfg (first_state cfg) [] [] [] []"
  by (simp add: first_state_def ing_ok_def archive_ok_def manifest_ok_def active_def fresh_segment_def chain_upto_def head_hash_def first_hash_def)

lemma start_implements: "started C cfg st \<Longrightarrow> implements C cfg st empty_log"
  unfolding started_first implements_def using first_state_ok by (auto simp: empty_log_def)

lemma to_flush: "log_step\<^sup>*\<^sup>* l (l\<lparr>durable := durable l @ queued l, queued := []\<rparr>)"
  using log_flush by (rule r_into_rtranclp)

lemma to_seal: "durable l @ queued l \<noteq> [] \<Longrightarrow> log_step\<^sup>*\<^sup>* l (l\<lparr>sealed_log := sealed_log l @ [durable l @ queued l], durable := [], queued := []\<rparr>)"
  using rtranclp.rtrancl_into_rtrancl [OF to_flush, OF log_seal, of l] by (cases l) simp

lemma seal_simulates:
  assumes "seal_segment C cfg env n st = (r, st')" "clean env" "implements C cfg st l"
  shows "\<exists>l'. log_step\<^sup>*\<^sup>* l l' \<and> implements C cfg st' l'"
proof -
  obtain segs where "ing_ok C cfg st segs (sealed_log l) (durable l) (queued l)" using assms(3) by (auto simp: implements_def)
  from seal_ok [OF assms(1,2) this] consider
      "implements C cfg st' l"
    | "implements C cfg st' (l\<lparr>durable := durable l @ queued l, queued := []\<rparr>)"
    | "durable l @ queued l \<noteq> []" "implements C cfg st' (l\<lparr>sealed_log := sealed_log l @ [durable l @ queued l], durable := [], queued := []\<rparr>)"
    by (auto simp: implements_def)
  then show ?thesis using to_flush to_seal by cases blast+
qed

lemma flush_simulates:
  assumes "flush cfg env st = (r, st')" "clean env" "implements C cfg st l"
  shows "\<exists>l'. log_step\<^sup>*\<^sup>* l l' \<and> implements C cfg st' l'"
proof -
  obtain segs where "ing_ok C cfg st segs (sealed_log l) (durable l) (queued l)" using assms(3) by (auto simp: implements_def)
  from flush_sound [OF assms(1,2) this] consider
      "implements C cfg st' l" | "implements C cfg st' (l\<lparr>durable := durable l @ queued l, queued := []\<rparr>)"
    by (auto simp: implements_def)
  then show ?thesis using to_flush by cases blast+
qed

lemma append_simulates:
  assumes "append_event C cfg env data st = (r, st')" "clean env" "event_fits (utc_now env) data" "int (idx st) \<le> SAFE_INT" "implements C cfg st l"
  shows "\<exists>l'. log_step\<^sup>*\<^sup>* l l' \<and> implements C cfg st' l'"
proof -
  obtain segs where I: "ing_ok C cfg st segs (sealed_log l) (durable l) (queued l)" using assms(5) by (auto simp: implements_def)
  define e where "e = stored_event C (idx st) (utc_now env) data (prev st)"
  let ?q = "l\<lparr>queued := queued l @ [e]\<rparr>"
  obtain es' bs' where eb: "es' @ bs' = durable l @ queued l @ [e]" "es' = durable l \<or> bs' = []"
    "ing_ok C cfg st' segs (sealed_log l) es' bs' \<or> bs' = [] \<and> (\<exists>s. ing_ok C cfg st' (segs @ [s]) (sealed_log l @ [es']) [] [])"
    using append_ok [OF assms(1,2) I assms(3,4)] unfolding e_def by blast
  have q: "log_step\<^sup>*\<^sup>* l ?q" using log_queue by (rule r_into_rtranclp)
  consider "es' = durable l" "bs' = queued l @ [e]" "ing_ok C cfg st' segs (sealed_log l) es' bs'"
    | "bs' = []" "es' = durable l @ queued l @ [e]" "ing_ok C cfg st' segs (sealed_log l) es' []"
    | s where "es' = durable l @ queued l @ [e]" "ing_ok C cfg st' (segs @ [s]) (sealed_log l @ [es']) [] []"
    using eb by auto
  then consider "implements C cfg st' ?q" | "implements C cfg st' (?q\<lparr>durable := durable ?q @ queued ?q, queued := []\<rparr>)"
    | "implements C cfg st' (?q\<lparr>sealed_log := sealed_log ?q @ [durable ?q @ queued ?q], durable := [], queued := []\<rparr>)"
    by cases (auto simp: implements_def)
  then show ?thesis using q rtranclp_trans [OF q to_flush] rtranclp_trans [OF q to_seal] by cases (blast, blast, simp, blast)
qed

lemma crash_simulates:
  assumes "ingestor_init C cfg (crashed k st) = Done st'" "implements C cfg st l"
  shows "\<exists>l'. log_step\<^sup>*\<^sup>* l l' \<and> implements C cfg st' l'"
proof -
  obtain segs where "ing_ok C cfg st segs (sealed_log l) (durable l) (queued l)" using assms(2) by (auto simp: implements_def)
  from recovery_ok [OF this, of k] assms(1) obtain j where "implements C cfg st' (l\<lparr>durable := durable l @ take j (queued l), queued := []\<rparr>)"
    by (auto simp: implements_def ingestor_init_def split: if_splits)
  then show ?thesis using log_crash r_into_rtranclp by metis
qed

lemma step_simulates: "ing_step C cfg st st' \<Longrightarrow> implements C cfg st l \<Longrightarrow> \<exists>l'. log_step\<^sup>*\<^sup>* l l' \<and> implements C cfg st' l'"
proof (induction rule: ing_step.induct)
  case (step_append env data st r st')
  then show ?case using append_simulates by blast
next
  case (step_flush env st r st')
  then show ?case using flush_simulates by blast
next
  case (step_seal env n st h st')
  then show ?case using seal_simulates by blast
next
  case (step_close env b st r st')
  show ?case
  proof (cases b)
    case True
    obtain x y where s: "seal_segment C cfg env 1 st = (x, y)" by fastforce
    then have "st' = y" using step_close(2) True by (cases x) (simp_all add: close_ingestor_def)
    then show ?thesis using seal_simulates [OF s step_close(1,3)] by blast
  next
    case False
    then have "flush cfg env st = (r, st')" using step_close(2) by (simp add: close_ingestor_def)
    then show ?thesis using flush_simulates [OF _ step_close(1,3)] by blast
  qed
next
  case (step_crash k st st')
  then show ?case using crash_simulates by blast
qed

lemma run_simulates: "(ing_step C cfg)\<^sup>*\<^sup>* st st' \<Longrightarrow> implements C cfg st l \<Longrightarrow> \<exists>l'. log_step\<^sup>*\<^sup>* l l' \<and> implements C cfg st' l'"
proof (induction rule: rtranclp_induct)
  case (step y z)
  then obtain m where m: "log_step\<^sup>*\<^sup>* l m" "implements C cfg y m" by blast
  obtain l' where "log_step\<^sup>*\<^sup>* m l'" "implements C cfg z l'" using step_simulates [OF step(2) m(2)] by blast
  then show ?case using rtranclp_trans [OF m(1)] by blast
qed blast

lemma reachable_implements: "reachable C cfg st \<Longrightarrow> \<exists>l. log_step\<^sup>*\<^sup>* empty_log l \<and> implements C cfg st l"
  using start_implements run_simulates unfolding reachable_def by blast

section \<open>What is on disk\<close>

definition disk_leaves :: "ingestor \<Rightarrow> bytes list attempt" where
  "disk_leaves st = bind_attempt (all_done (map (\<lambda>s. leaves_from_ledger (seg_file s)) (arc_segments (disk st)))) (\<lambda>lss. Done (concat lss))"

lemma sealed_leaves:
  "sealed_from C cfg h segs ess \<Longrightarrow> all_done (map (\<lambda>s. leaves_from_ledger (seg_file s)) (segs @ ss)) =
   bind_attempt (all_done (map (\<lambda>s. leaves_from_ledger (seg_file s)) ss)) (\<lambda>lss. Done (map (map canonical_payload) ess @ lss))"
proof (induction C cfg h segs ess rule: sealed_from.induct)
  case (1 C cfg h)
  show ?case by (cases "all_done (map (\<lambda>s. leaves_from_ledger (seg_file s)) ss)") auto
next
  case (2 C cfg h s segs es ess)
  then have "leaves_from_ledger (seg_file s) = Done (map canonical_payload es)" using leaves_of_ledger_bytes [of es] by (auto simp: chain_upto_def)
  then show ?case using 2 by (cases "all_done (map (\<lambda>s. leaves_from_ledger (seg_file s)) ss)") auto
qed auto

lemma disk_of_log: "implements C cfg st l \<Longrightarrow> disk_leaves st = Done (map canonical_payload (recorded l))"
proof -
  assume "implements C cfg st l"
  then obtain segs where I: "arc_segments (disk st) = segs @ [active st]" "sealed_from C cfg GENESIS_PREV segs (sealed_log l)"
    "seg_file (active st) = ledger_bytes (durable l)" "chain_upto C (durable l @ queued l)"
    by (auto simp: implements_def ing_ok_def archive_ok_def)
  have "leaves_from_ledger (seg_file (active st)) = Done (map canonical_payload (durable l))"
    using leaves_of_ledger_bytes [of "durable l"] I(3,4) by (auto simp: chain_upto_def)
  then show ?thesis using sealed_leaves [OF I(2), of "[active st]"] I(1) by (simp add: disk_leaves_def recorded_def map_concat)
qed


section \<open>An example run\<close>

definition example_config :: config where
  "example_config = \<lparr>config.prefix = lit ''l'', batch = 2, rotate = 9, do_fsync = True, backend = Some (example_key 1), tip_key = None\<rparr>"

definition example_env :: env where
  "example_env = \<lparr>utc_now = lit ''t'', append_sys = example_sys\<lparr>write_results := []\<rparr>, tip_ts = [], tip_write = Written, backend_ok = True,
     sealed_utc = lit ''t'', sth_write = Written, updated_utc = lit ''t'', head_write = Written\<rparr>"

lemma example_env_clean: "clean example_env" "event_fits (utc_now example_env) JNull"
  by (simp_all add: clean_def example_env_def example_sys_def event_fits_def scalar_def MAX_JSON_DEPTH_def)

definition example_queued :: ingestor where
  "example_queued = queue_event example_crypto example_env JNull (first_state example_config)"

lemma example_append: "append_event example_crypto example_config example_env JNull (first_state example_config) = (True, example_queued)"
  by (simp add: append_event_def example_queued_def queue_event_def Let_def first_state_def example_config_def)

lemma example_queued_ok:
  "ing_ok example_crypto example_config example_queued [] [] [] [stored_event example_crypto 0 (lit ''t'') JNull GENESIS_PREV]"
  using queue_ok [OF first_state_ok [of example_crypto example_config] example_env_clean(2)]
  by (simp add: example_queued_def) (simp add: first_state_def example_env_def SAFE_INT_def)

lemma example_step: "ing_step example_crypto example_config (first_state example_config) example_queued"
  by (rule step_append [OF example_env_clean _ example_append]) (simp add: first_state_def SAFE_INT_def)

lemma example_started: "started example_crypto example_config (first_state example_config)"
  by (simp add: started_first example_config_def)

lemma example_reachable: "reachable example_crypto example_config example_queued"
  unfolding reachable_def using example_started example_step by blast

lemma seal_written:
  assumes "ing_ok C cfg st segs ess es bs" "clean env" "sth_write env = Written" "flush cfg env st = (True, st1)" "ing_ok C cfg st1 segs ess (es @ bs) []" "es @ bs \<noteq> []"
  shows "\<exists>h st'. seal_segment C cfg env 1 st = (Done (Some h), st') \<and> seq st' = seq st1 + 1"
proof -
  have i: "idx st1 = length (es @ bs)" "archive_ok C cfg (disk st1) segs ess (active st1) (es @ bs)" "seq st1 = length segs" "chain_upto C (es @ bs)"
    using assms(5) by (simp_all add: ing_ok_def)
  have n: "\<not> idx st1 < max 1 1" using i(1) assms(6) by (simp add: Suc_le_eq)
  have "leaves_from_ledger (seg_file (active st1)) = Done (map canonical_payload (es @ bs))"
    using leaves_of_ledger_bytes [of "es @ bs"] i(2,4) by (simp add: archive_ok_def chain_upto_def)
  moreover have "prev_sth_hash C st1 = Done (last_head C GENESIS_PREV segs)"
    using prev_head_hash [of C cfg segs ess st1 "active st1"] i(2,3) by (simp add: archive_ok_def)
  moreover define d where "d = sign_doc C (backend cfg) (segment_head C cfg env (seq st1) (map canonical_payload (es @ bs)) (prev st1) (last_head C GENESIS_PREV segs))"
  moreover define st2 where "st2 = set_active ((active st1)\<lparr>seg_sth := Doc d\<rparr>) st1"
  moreover obtain st3 where w: "write_head C cfg env d st2 = (True, st3)" "seq st3 = seq st2"
    using assms(2) by (simp add: write_head_def clean_def Let_def)
  ultimately have "seal_segment C cfg env 1 st = (Done (Some d), next_segment cfg st3)"
    using assms(2,3,4) n by (simp add: seal_segment_def clean_def)
  then show ?thesis using w(2) by (simp add: next_segment_def st2_def set_active_def)
qed


lemma flush_plain:
  assumes "write_results (append_sys env) = []" "fsync_ok (append_sys env)" "tip_key cfg = None"
  shows "\<exists>st'. flush cfg env st = (True, st')"
proof -
  have "write_fd [] d = (True, d)" for d by (cases d) auto
  then show ?thesis using assms by (auto simp: flush_def append_line_def write_active_tip_def ascii_bytes_def Let_def)
qed

lemma example_event_size: "length (ledger_bytes [stored_event example_crypto 0 (lit ''t'') JNull GENESIS_PREV]) \<le> MAX_INPUT_BYTES"
proof -
  have "length (ledger_bytes [stored_event example_crypto 0 (lit ''t'') JNull GENESIS_PREV]) \<le> 1000" by code_simp
  then show ?thesis by (simp add: MAX_INPUT_BYTES_def)
qed

lemma example_sealed:
  "\<exists>st. ing_step example_crypto example_config example_queued st \<and> seq st = 1 \<and> (\<forall>s\<in>set (arc_segments (disk st)). length (seg_file s) \<le> MAX_INPUT_BYTES)"
proof -
  obtain st1 where f: "flush example_config example_env example_queued = (True, st1)"
    using flush_plain [of example_env example_config] by (auto simp: example_env_def example_sys_def example_config_def)
  let ?e = "stored_event example_crypto 0 (lit ''t'') JNull GENESIS_PREV"
  have I: "ing_ok example_crypto example_config st1 [] [] ([] @ [?e]) []"
    using flush_sound [OF f example_env_clean(1) example_queued_ok] by simp
  have "sth_write example_env = Written" by (simp add: example_env_def)
  from seal_written [OF example_queued_ok example_env_clean(1) this f I] obtain h st' where
    "seal_segment example_crypto example_config example_env 1 example_queued = (Done (Some h), st')" "seq st' = seq st1 + 1" by auto
  then have s: "seal_segment example_crypto example_config example_env 1 example_queued = (Done (Some h), st')" "seq st' = 1"
    using I by (simp_all add: ing_ok_def)
  from seal_ok [OF s(1) example_env_clean(1) example_queued_ok] s(2) obtain x where
    x: "seg_file x = ledger_bytes [?e]" "ing_ok example_crypto example_config st' [x] [[?e]] [] []"
    by (auto simp: ing_ok_def)
  have "arc_segments (disk st') = [x, active st']" "seg_file (active st') = []" using x(2) by (simp_all add: ing_ok_def archive_ok_def)
  then have "\<forall>s\<in>set (arc_segments (disk st')). length (seg_file s) \<le> MAX_INPUT_BYTES" using x(1) example_event_size by simp
  then show ?thesis using step_seal [OF example_env_clean(1) s(1)] s(2) by blast
qed

lemma example_pins: "pins_fit example_crypto (backend example_config) [hex_of (sk_public (example_key 1))]"
  by (simp add: pins_fit_def example_config_def honest_key_def example_key_def example_sign_def example_crypto_def)

section \<open>The theorems\<close>










end
