(* ===== verification/Scitt.thy ===== *)
theory Scitt
  imports Receipt Ledger_File Output
begin

text \<open>
  Transparent statements (\<^verbatim>\<open>src/cryptovalid_scitt.py\<close>, RFC 9943): a signed statement as a COSE structure, its registration in a
  hash-chained ledger, the receipt for the registered entry, and the relying party's check of a statement with receipts. Key
  files are given by their keys; the file lock of \<^verbatim>\<open>register\<close> makes it one step.
\<close>

section \<open>Constants\<close>

definition L_ALG :: cbor where "L_ALG = CInt 1"
definition L_CTY :: cbor where "L_CTY = CInt 3"
definition L_KID :: cbor where "L_KID = CInt 4"
definition L_CWT :: cbor where "L_CWT = CInt 15"
definition CWT_ISS :: cbor where "CWT_ISS = CInt 1"
definition CWT_SUB :: cbor where "CWT_SUB = CInt 2"
definition CWT_IAT :: cbor where "CWT_IAT = CInt 6"
definition L_RECEIPTS :: cbor where "L_RECEIPTS = CInt 394"
definition L_VDS :: cbor where "L_VDS = CInt 395"
definition L_VDP :: cbor where "L_VDP = CInt 396"
definition VDP_INCLUSION :: cbor where "VDP_INCLUSION = CInt (-1)"
definition L_LEAF :: cbor where "L_LEAF = CText (lit ''cryptovalid.leaf'')"
definition MAX_ISS :: nat where "MAX_ISS = 8192"
definition TAG_COSE_SIGN1 :: byte where "TAG_COSE_SIGN1 = 0xD2"

lemmas scitt_labels = L_ALG_def L_CTY_def L_KID_def L_CWT_def CWT_ISS_def CWT_SUB_def CWT_IAT_def L_RECEIPTS_def L_VDS_def L_VDP_def
  VDP_INCLUSION_def L_LEAF_def

section \<open>COSE structures\<close>

record cose_parts =
  cp_protected :: bytes
  cp_header :: "(cbor \<times> cbor) list"
  cp_unprotected :: "(cbor \<times> cbor) list"
  cp_payload :: "bytes option"
  cp_signature :: bytes

text \<open>\<^verbatim>\<open>parse_cose_sign1\<close>; \<open>None\<close> where it raises.\<close>

definition parse_cose_sign1 :: "bytes \<Rightarrow> cose_parts option" where
  "parse_cose_sign1 cose =
     (if take 1 cose \<noteq> [TAG_COSE_SIGN1] then None
      else case cbor_decode (drop 1 cose) of
          Inr (CArr [CBytes pb, CMap uh, pl, CBytes sg]) \<Rightarrow>
            (case (case pl of CNull \<Rightarrow> Some None | CBytes b \<Rightarrow> Some (Some b) | _ \<Rightarrow> None) of
               None \<Rightarrow> None
             | Some payload \<Rightarrow>
                 (case cbor_decode pb of
                    Inr (CMap ph) \<Rightarrow> Some \<lparr>cp_protected = pb, cp_header = ph, cp_unprotected = uh, cp_payload = payload, cp_signature = sg\<rparr>
                  | _ \<Rightarrow> None))
        | _ \<Rightarrow> None)"

definition encode_cose :: "cose_parts \<Rightarrow> bytes option" where
  "encode_cose p =
     map_option ((#) TAG_COSE_SIGN1)
       (cbor_encode (CArr [CBytes (cp_protected p), CMap (cp_unprotected p),
          (case cp_payload p of None \<Rightarrow> CNull | Some b \<Rightarrow> CBytes b), CBytes (cp_signature p)]))"

definition payload_bytes :: "cose_parts \<Rightarrow> bytes" where
  "payload_bytes p = (case cp_payload p of None \<Rightarrow> [] | Some b \<Rightarrow> b)"

definition statement_input :: "cose_parts \<Rightarrow> bytes" where
  "statement_input p = concat (map (\<lambda>b. be_bytes 8 (length b) @ b) [cp_protected p, payload_bytes p, cp_signature p])"

definition statement_id :: "('x crypto_scheme) \<Rightarrow> bytes \<Rightarrow> pystr option" where
  "statement_id C cose = map_option (\<lambda>p. hex_of (sha256 C (statement_input p))) (parse_cose_sign1 cose)"

definition check_claims :: "pystr \<Rightarrow> pystr \<Rightarrow> bool" where
  "check_claims iss sub \<longleftrightarrow> 1 \<le> length iss \<and> length iss \<le> MAX_ISS \<and> sub \<noteq> []"

section \<open>Signed statements\<close>

definition signed_statement ::
  "signing_key \<Rightarrow> bytes \<Rightarrow> pystr \<Rightarrow> pystr \<Rightarrow> pystr \<Rightarrow> bool \<Rightarrow> int option \<Rightarrow> bytes option" where
  "signed_statement sk payload content_type iss sub detached iat =
     (if \<not> check_claims iss sub \<or> content_type = [] \<or> 10 \<in> set content_type then None
      else
        let claims = [(CWT_ISS, CText iss), (CWT_SUB, CText sub)] @ (case iat of Some t \<Rightarrow> [(CWT_IAT, CInt t)] | None \<Rightarrow> []) in
        case cbor_encode (CMap [(L_ALG, CInt COSE_ALG_EDDSA), (L_CTY, CText content_type), (L_KID, CBytes (sk_public sk)), (L_CWT, CMap claims)]) of
          None \<Rightarrow> None
        | Some pb \<Rightarrow>
            (case sig_structure pb payload of
               None \<Rightarrow> None
             | Some m \<Rightarrow> encode_cose \<lparr>cp_protected = pb, cp_header = [], cp_unprotected = [],
                 cp_payload = (if detached then None else Some payload), cp_signature = sk_sign sk m\<rparr>))"

text \<open>\<^verbatim>\<open>dict.get\<close>.\<close>

definition cget :: "(cbor \<times> cbor) list \<Rightarrow> cbor \<Rightarrow> cbor" where
  "cget m k = (case map_of m k of Some v \<Rightarrow> v | None \<Rightarrow> CNull)"

text \<open>The two claims, when the header holds them as texts.\<close>

definition cwt_claims :: "(cbor \<times> cbor) list \<Rightarrow> (pystr \<times> pystr) option" where
  "cwt_claims ph =
     (case cget ph L_CWT of
        CMap cwt \<Rightarrow> (case (cget cwt CWT_ISS, cget cwt CWT_SUB) of (CText iss, CText sub) \<Rightarrow> Some (iss, sub) | _ \<Rightarrow> None)
      | _ \<Rightarrow> None)"

record statement_info =
  si_iss :: pystr
  si_sub :: pystr
  si_content_type :: cbor
  si_payload_sha256 :: pystr

text \<open>\<^verbatim>\<open>verify_signed_statement\<close>: \<open>None\<close> for every refusal; whatever raises inside is one.\<close>

definition verify_signed_statement :: "('x crypto_scheme) \<Rightarrow> bytes \<Rightarrow> pystr \<Rightarrow> bytes option \<Rightarrow> statement_info option" where
  "verify_signed_statement C cose issuer payload =
     (case parse_cose_sign1 cose of
        None \<Rightarrow> None
      | Some p \<Rightarrow>
          let ph = cp_header p in
          if cget ph L_ALG \<noteq> CInt COSE_ALG_EDDSA then None
          else (case cwt_claims ph of
              None \<Rightarrow> None
            | Some (iss, sub) \<Rightarrow>
                if \<not> check_claims iss sub then None
                else if cget ph L_KID = CNull \<and> map_of ph (CInt 33) = None \<and> map_of ph (CInt 34) = None then None
                else (case (fromhex issuer,
                         (case (cp_payload p, payload) of
                            (None, q) \<Rightarrow> q
                          | (Some b, None) \<Rightarrow> Some b
                          | (Some b, Some q) \<Rightarrow> if q = b then Some b else None)) of
                    (Some pk, Some pl) \<Rightarrow>
                      (case sig_structure (cp_protected p) pl of
                         Some m \<Rightarrow>
                           if length pk = 32 \<and> ed_verify C pk (cp_signature p) m
                           then Some \<lparr>si_iss = iss, si_sub = sub, si_content_type = cget ph L_CTY, si_payload_sha256 = hex_of (sha256 C pl)\<rparr>
                           else None
                       | None \<Rightarrow> None)
                  | _ \<Rightarrow> None)))"

section \<open>Registration and receipts\<close>

text \<open>A content type of the header as \<^verbatim>\<open>json.dumps\<close> takes it: octets raise, containers are outside the model.\<close>

fun json_scalar :: "cbor \<Rightarrow> json attempt" where
  "json_scalar (CText s) = Done (JStr s)"
| "json_scalar (CInt n) = Done (JInt n)"
| "json_scalar (CBool b) = Done (JBool b)"
| "json_scalar CNull = Done JNull"
| "json_scalar (CBytes _) = Raising"
| "json_scalar _ = Beyond"

definition json_line :: "pystr \<Rightarrow> json attempt" where
  "json_line l = (case text_loads l of Value v \<Rightarrow> Done v | Broken \<Rightarrow> Raising | Other \<Rightarrow> Beyond)"

definition last_self_hash :: "json list \<Rightarrow> json attempt" where
  "last_self_hash es =
     (if es = [] then Done (JStr GENESIS_PREV)
      else case last es of
          JObj e \<Rightarrow> (case item e ''self_hash'' of Some v \<Rightarrow> Done v | None \<Rightarrow> Raising)
        | _ \<Rightarrow> Raising)"

definition registration :: "pystr \<Rightarrow> statement_info \<Rightarrow> json \<Rightarrow> entry" where
  "registration sid v cty =
     [(lit ''scitt'', JObj [(lit ''statement_sha256'', JStr sid), (lit ''iss'', JStr (si_iss v)), (lit ''sub'', JStr (si_sub v)),
        (lit ''content_type'', cty), (lit ''payload_sha256'', JStr (si_payload_sha256 v))])]"

definition registered_entry :: "('x crypto_scheme) \<Rightarrow> nat \<Rightarrow> pystr \<Rightarrow> entry \<Rightarrow> json \<Rightarrow> entry" where
  "registered_entry C i ts data pv =
     (let e = [(lit ''idx'', JInt (int i)), (lit ''ts'', JStr ts), (lit ''data'', JObj data), (lit ''prev_hash'', pv)]
      in e @ [(lit ''self_hash'', JStr (hex_of (sha256 C (canonical_bytes (JObj e)))))])"

definition registered_line :: "entry \<Rightarrow> bytes" where
  "registered_line e = ascii_bytes (dumps_sep (lit '', '') (lit '': '') (JObj e) @ [10])"

text \<open>\<^verbatim>\<open>register\<close>: the index and identity of the statement, with the ledger file it leaves (an absent file is an empty one).\<close>

definition register ::
  "('x crypto_scheme) \<Rightarrow> sys \<Rightarrow> pystr \<Rightarrow> bytes \<Rightarrow> bytes \<Rightarrow> pystr \<Rightarrow> bytes option \<Rightarrow> (nat \<times> pystr) attempt \<times> bytes" where
  "register C S now cose file issuer payload =
     (case (verify_signed_statement C cose issuer payload, statement_id C cose) of
        (Some v, Some sid) \<Rightarrow>
          (case bind_attempt (case text_lines file of None \<Rightarrow> Raising | Some ls \<Rightarrow> all_done (map json_line ls)) (\<lambda>es.
                 bind_attempt (last_self_hash es) (\<lambda>pv. bind_attempt (json_scalar (si_content_type v)) (\<lambda>cty. Done (length es, pv, cty)))) of
             Raising \<Rightarrow> (Raising, file)
           | Beyond \<Rightarrow> (Beyond, file)
           | Done (n, pv, cty) \<Rightarrow>
               (case append_line S file (registered_line (registered_entry C n now (registration sid v cty) pv)) True of
                  Some (Inr _, file') \<Rightarrow> (Done (n, sid), file')
                | Some (Inl _, file') \<Rightarrow> (Raising, file')
                | None \<Rightarrow> (Raising, file)))
      | _ \<Rightarrow> (Raising, file))"

definition ts_protected :: "bytes \<Rightarrow> pystr \<Rightarrow> pystr \<Rightarrow> cbor" where
  "ts_protected pk iss sub =
     CMap [(L_ALG, CInt COSE_ALG_EDDSA), (L_VDS, CInt VDS_RFC9162_SHA256), (L_KID, CBytes pk), (L_CWT, CMap [(CWT_ISS, CText iss), (CWT_SUB, CText sub)])]"

definition scitt_receipt :: "('x crypto_scheme) \<Rightarrow> signing_key \<Rightarrow> bytes \<Rightarrow> int \<Rightarrow> pystr \<Rightarrow> pystr option \<Rightarrow> bool \<Rightarrow> bytes attempt" where
  "scitt_receipt C sk file index iss sub detached =
     (let s = (if given sub then the sub else iss) in
      if \<not> check_claims iss s then Raising
      else bind_attempt (leaves_from_ledger file) (\<lambda>leaves.
        if \<not> (0 \<le> index \<and> index < int (length leaves)) then Raising
        else
          let rt = mth (sha256 C) leaves; leaf = leaves ! nat index in
          case (inclusion_proof (sha256 C) index leaves, cbor_encode (ts_protected (sk_public sk) iss s)) of
            (Some hs, Some pb) \<Rightarrow>
              (case (sig_structure pb rt, cbor_encode (CArr [CInt (int (length leaves)), CInt index, CArr (map CBytes hs)])) of
                 (Some m, Some q) \<Rightarrow>
                   (case encode_cose \<lparr>cp_protected = pb, cp_header = [],
                        cp_unprotected = [(L_VDP, CMap [(VDP_INCLUSION, CArr [CBytes q])]), (L_LEAF, CBytes leaf)],
                        cp_payload = (if detached then None else Some rt), cp_signature = sk_sign sk m\<rparr> of
                      Some r \<Rightarrow> Done r
                    | None \<Rightarrow> Raising)
               | _ \<Rightarrow> Raising)
          | _ \<Rightarrow> Raising))"

text \<open>\<^verbatim>\<open>list(...)\<close> of the receipts already there.\<close>

definition transparent_statement :: "bytes \<Rightarrow> bytes list \<Rightarrow> bytes option" where
  "transparent_statement cose receipts =
     (if receipts = [] then None
      else case (parse_cose_sign1 cose, list_all (\<lambda>r. parse_cose_sign1 r \<noteq> None) receipts) of
          (Some p, True) \<Rightarrow>
            (case cbor_list (case map_of (cp_unprotected p) L_RECEIPTS of Some v \<Rightarrow> v | None \<Rightarrow> CArr []) of
               Some xs \<Rightarrow> encode_cose (p\<lparr>cp_unprotected := AList.update L_RECEIPTS (CArr (xs @ map CBytes receipts)) (cp_unprotected p)\<rparr>)
             | None \<Rightarrow> None)
        | _ \<Rightarrow> None)"

section \<open>The relying party\<close>

definition root_from_inclusion :: "hashf \<Rightarrow> int \<Rightarrow> int \<Rightarrow> bytes \<Rightarrow> bytes list \<Rightarrow> bytes option" where
  "root_from_inclusion H m n leaf proof =
     (if m \<ge> n \<or> m < 0 then None
      else (case leaf_run H m (n - 1) leaf proof of Some (sn, r) \<Rightarrow> if sn = 0 then Some r else None | None \<Rightarrow> None))"

datatype receipt_outcome = Receipt_Ok int int bytes | Receipt_Refused | Receipt_Beyond

text \<open>What a leaf registers: its statement and its index.\<close>

definition leaf_registers :: "bytes \<Rightarrow> (json \<times> json) attempt" where
  "leaf_registers leaf =
     (case utf8_decode leaf of
        None \<Rightarrow> Raising
      | Some s \<Rightarrow>
          (case text_loads s of
             Value (JObj e) \<Rightarrow>
               (case get e ''data'' of
                  JObj d \<Rightarrow> (case get d ''scitt'' of JObj m \<Rightarrow> Done (get m ''statement_sha256'', get e ''idx'') | _ \<Rightarrow> Raising)
                | _ \<Rightarrow> Raising)
           | Other \<Rightarrow> Beyond
           | _ \<Rightarrow> Raising))"

definition uint_proof :: "bytes \<Rightarrow> (int \<times> int \<times> bytes list) option" where
  "uint_proof q =
     (case cbor_decode q of
        Inr (CArr [CInt n, CInt i, CArr xs]) \<Rightarrow>
          (case those (map octets_of xs) of
             Some hs \<Rightarrow> if n \<ge> 0 \<and> i \<ge> 0 \<and> list_all (\<lambda>h. length h = 32) hs then Some (n, i, hs) else None
           | None \<Rightarrow> None)
      | _ \<Rightarrow> None)"

definition inclusion_bytes :: "(cbor \<times> cbor) list \<Rightarrow> bytes option" where
  "inclusion_bytes uh =
     (case cget uh L_VDP of
        CMap vdp \<Rightarrow> (case cget vdp VDP_INCLUSION of CArr (CBytes q # _) \<Rightarrow> Some q | _ \<Rightarrow> None)
      | _ \<Rightarrow> None)"

definition check_receipt :: "('x crypto_scheme) \<Rightarrow> pystr \<Rightarrow> pystr \<Rightarrow> pystr option \<Rightarrow> bytes \<Rightarrow> receipt_outcome" where
  "check_receipt C want ts_key expected_iss rb =
     (case parse_cose_sign1 rb of
        None \<Rightarrow> Receipt_Refused
      | Some p \<Rightarrow>
          if cget (cp_header p) L_ALG \<noteq> CInt COSE_ALG_EDDSA \<or> cget (cp_header p) L_VDS \<notin> {CInt VDS_RFC9162_SHA256, CBool True} then Receipt_Refused
          else (case (cwt_claims (cp_header p), fromhex ts_key, cget (cp_unprotected p) L_LEAF) of
              (Some (iss, _), Some tpk, CBytes leaf) \<Rightarrow>
                if (case expected_iss of Some x \<Rightarrow> iss \<noteq> x | None \<Rightarrow> False) \<or> cget (cp_header p) L_KID \<noteq> CBytes tpk then Receipt_Refused
                else (case leaf_registers leaf of
                    Raising \<Rightarrow> Receipt_Refused
                  | Beyond \<Rightarrow> Receipt_Beyond
                  | Done (sid, eidx) \<Rightarrow>
                      if sid \<noteq> JStr want then Receipt_Refused
                      else (case Option.bind (inclusion_bytes (cp_unprotected p)) uint_proof of
                          None \<Rightarrow> Receipt_Refused
                        | Some (n, i, hs) \<Rightarrow>
                            if \<not> py_eq (JInt i) eidx then Receipt_Refused
                            else (case root_from_inclusion (sha256 C) i n (leaf_hash (sha256 C) leaf) hs of
                                None \<Rightarrow> Receipt_Refused
                              | Some rt \<Rightarrow>
                                  if (case cp_payload p of Some b \<Rightarrow> b \<noteq> rt | None \<Rightarrow> False) then Receipt_Refused
                                  else (case sig_structure (cp_protected p) rt of
                                      Some m \<Rightarrow> if length tpk = 32 \<and> ed_verify C tpk (cp_signature p) m then Receipt_Ok n i rt else Receipt_Refused
                                    | None \<Rightarrow> Receipt_Refused))))
            | _ \<Rightarrow> Receipt_Refused))"

fun receipt_good :: "receipt_outcome \<Rightarrow> bool" where
  "receipt_good (Receipt_Ok _ _ _) = True"
| "receipt_good _ = False"

record transparency =
  tr_ok :: bool
  tr_statement :: "statement_info option"
  tr_receipts :: "receipt_outcome list"

definition refused_statement :: "statement_info option \<Rightarrow> transparency" where
  "refused_statement st = \<lparr>tr_ok = False, tr_statement = st, tr_receipts = []\<rparr>"

text \<open>One good receipt is enough. \<open>tr_ok\<close> counts the receipts inside the model; a refused result with a \<open>Receipt_Beyond\<close> leaves the verdict open.\<close>

definition verify_transparent_statement ::
  "('x crypto_scheme) \<Rightarrow> bytes \<Rightarrow> pystr \<Rightarrow> pystr \<Rightarrow> bytes option \<Rightarrow> pystr option \<Rightarrow> transparency" where
  "verify_transparent_statement C cose issuer ts_key payload expected_iss =
     (let st = verify_signed_statement C cose issuer payload in
      case (st, parse_cose_sign1 cose, statement_id C cose) of
        (Some _, Some p, Some want) \<Rightarrow>
          (case cget (cp_unprotected p) L_RECEIPTS of
             CArr xs \<Rightarrow>
               (case those (map octets_of xs) of
                  Some recs \<Rightarrow>
                    if recs = [] then refused_statement st
                    else
                      let rs = map (check_receipt C want ts_key expected_iss) recs
                      in \<lparr>tr_ok = list_ex receipt_good rs, tr_statement = st, tr_receipts = rs\<rparr>
                | None \<Rightarrow> refused_statement st)
           | _ \<Rightarrow> refused_statement st)
      | _ \<Rightarrow> refused_statement st)"

end
