(* ===== verification/Scitt_Theorems.thy ===== *)
theory Scitt_Theorems
  imports Scitt
begin

text \<open>
  Transparent statements: a statement with the receipt of its registration verifies, and an accepted one is registered in a
  tree that the transparency service signed.
\<close>

section \<open>Soundness\<close>

text \<open>A service that signs nothing but the roots of some trees.\<close>

definition signs_roots :: "('x crypto_scheme) \<Rightarrow> bytes \<Rightarrow> bytes list set \<Rightarrow> bool" where
  "signs_roots C pk trees \<longleftrightarrow>
     (\<forall>sg m. ed_verify C pk sg m \<longrightarrow> (\<exists>leaves\<in>trees. leaves \<noteq> [] \<and> (\<exists>pb. sig_structure pb (mth (sha256 C) leaves) = Some m)))"

lemma sig_structure_inj:
  assumes "sig_structure p x = Some m" "sig_structure p' x' = Some m"
  shows "x = x'"
proof -
  have "cbor_decode m = Inr (CArr [CText (lit ''Signature1''), CBytes q, CBytes [], CBytes y])" if "sig_structure q y = Some m" for q y
    using cbor_decode_encode [OF that [unfolded sig_structure_def]] by (simp add: CBOR_MAX_DEPTH_def)
  from this [OF assms(1)] this [OF assms(2)] show ?thesis by simp
qed

lemma leaf_run_climb:
  "leaf_run H fn sn r ps = Some (s, q) \<Longrightarrow> q = climb H r (fst (dirs (length ps) fn sn)) ps"
proof -
  assume a: "leaf_run H fn sn r ps = Some (s, q)"
  have "(case foldl (inclusion_step H) (fn, sn, r) ps of (fn', sn', h) \<Rightarrow> h) = climb H r (fst (dirs (length ps) fn sn)) ps"
    unfolding foldl_inclusion_step by (simp add: case_prod_beta)
  then show ?thesis using a unfolding leaf_run_dirs by (auto split: if_splits prod.splits)
qed

lemma path_leads_to_leaf:
  assumes h: "\<And>x. length (H x) = 32" and ne: "leaves \<noteq> []" and ok: "root_from_inclusion H i n (leaf_hash H d) hs = Some (mth H leaves)"
  shows "d \<in> set leaves \<or> collision H (mth_inputs H leaves \<union> inclusion_inputs H i n d hs)"
proof -
  obtain sn where r: "leaf_run H i (n - 1) (leaf_hash H d) hs = Some (sn, mth H leaves)"
    using ok by (auto simp: root_from_inclusion_def split: if_splits option.splits)
  let ?ds = "fst (dirs (length hs) i (n - 1))"
  have c: "climb H (leaf_hash H d) ?ds hs = mth H leaves" using leaf_run_climb [OF r] by simp
  have ins: "insert (0 # d) (set (climb_inputs H (leaf_hash H d) ?ds hs)) = inclusion_inputs H i n d hs"
    by (simp add: inclusion_inputs_def inclusion_trace_climb)
  from climb_walk [OF h length_dirs ne c] show ?thesis unfolding ins by (auto simp: nth_mem)
qed

lemma check_receipt_ok:
  assumes "check_receipt C want ts_key exp rb = Receipt_Ok n i rt"
  obtains p tpk leaf eidx hs m where "parse_cose_sign1 rb = Some p" "fromhex ts_key = Some tpk" "cget (cp_unprotected p) L_LEAF = CBytes leaf"
    "leaf_registers leaf = Done (JStr want, eidx)" "py_eq (JInt i) eidx" "root_from_inclusion (sha256 C) i n (leaf_hash (sha256 C) leaf) hs = Some rt"
    "sig_structure (cp_protected p) rt = Some m" "ed_verify C tpk (cp_signature p) m"
  using assms by (auto simp: check_receipt_def split: option.splits if_splits prod.splits cbor.splits attempt.splits)


lemma transparent_registered:
  assumes h: "\<And>x. length (sha256 C x) = 32" and key: "fromhex ts_key = Some tpk" "signs_roots C tpk trees"
    and ok: "tr_ok (verify_transparent_statement C cose issuer ts_key payload exp)"
  shows "\<exists>sid leaves d i n hs. statement_id C cose = Some sid \<and> leaves \<in> trees \<and> (\<exists>eidx. leaf_registers d = Done (JStr sid, eidx) \<and> py_eq (JInt i) eidx) \<and>
    (d \<in> set leaves \<or> collision (sha256 C) (mth_inputs (sha256 C) leaves \<union> inclusion_inputs (sha256 C) i n d hs))"
proof -
  obtain sid rb n i rt where s: "statement_id C cose = Some sid" "check_receipt C sid ts_key exp rb = Receipt_Ok n i rt"
  proof -
    obtain st p sid xs where v: "verify_signed_statement C cose issuer payload = Some st" "parse_cose_sign1 cose = Some p" "statement_id C cose = Some sid"
      "cget (cp_unprotected p) L_RECEIPTS = CArr xs"
      using ok by (auto simp: verify_transparent_statement_def Let_def refused_statement_def split: option.splits cbor.splits)
    then obtain recs where "list_ex receipt_good (map (check_receipt C sid ts_key exp) recs)"
      using ok by (auto simp: verify_transparent_statement_def Let_def refused_statement_def split: option.splits if_splits)
    then obtain rb where g: "receipt_good (check_receipt C sid ts_key exp rb)" by (auto simp: list_ex_iff)
    then show ?thesis using that [of sid rb] v(3) by (cases "check_receipt C sid ts_key exp rb") auto
  qed
  obtain p k leaf eidx hs m where p: "parse_cose_sign1 rb = Some p" "fromhex ts_key = Some k" "cget (cp_unprotected p) L_LEAF = CBytes leaf"
    and c: "leaf_registers leaf = Done (JStr sid, eidx)" "py_eq (JInt i) eidx"
    "root_from_inclusion (sha256 C) i n (leaf_hash (sha256 C) leaf) hs = Some rt" "sig_structure (cp_protected p) rt = Some m" "ed_verify C k (cp_signature p) m"
    by (rule check_receipt_ok [OF s(2)])
  have "k = tpk" using p(2) key(1) by simp
  obtain leaves pb where l: "leaves \<in> trees" "leaves \<noteq> []" "sig_structure pb (mth (sha256 C) leaves) = Some m"
    using key(2) c(5) unfolding signs_roots_def \<open>k = tpk\<close> by blast
  have "rt = mth (sha256 C) leaves" by (rule sig_structure_inj [OF c(4) l(3)])
  then have "leaf \<in> set leaves \<or> collision (sha256 C) (mth_inputs (sha256 C) leaves \<union> inclusion_inputs (sha256 C) i n leaf hs)"
    using path_leads_to_leaf [OF h l(2)] c(3) by simp
  then show ?thesis using s(1) l(1) c(1,2) by blast
qed

section \<open>Statements with receipts verify\<close>

lemma cget_by_key:
  assumes "distinct (map fst kvs)"
  shows "map_of (by_key (map (\<lambda>(k, v). (k, cbor_sorted v)) kvs)) k = map_option cbor_sorted (map_of kvs k)"
proof -
  let ?m = "map (\<lambda>(k, v). (k, cbor_sorted v)) kvs"
  have d: "distinct (map fst (by_key ?m))" "distinct (map fst ?m)" using assms distinct_by_key [of ?m] by (simp_all add: comp_def case_prod_beta)
  have "set (by_key ?m) = set ?m" by (simp add: by_key_def)
  then have "map_of (by_key ?m) = map_of ?m" using d map_of_eqI [of "by_key ?m" ?m] by (metis (no_types) list.set_map map_of_inject_set)
  then show ?thesis by (simp add: map_of_map)
qed

lemma parse_encode:
  assumes "encode_cose p = Some bs" "cbor_wf (CMap (cp_unprotected p))" "nesting (CMap (cp_unprotected p)) \<le> 50" "cbor_decode (cp_protected p) = Inr (CMap ph)"
  shows "parse_cose_sign1 bs = Some (p\<lparr>cp_header := ph, cp_unprotected := by_key (map (\<lambda>(k, v). (k, cbor_sorted v)) (cp_unprotected p))\<rparr>)"
proof -
  let ?x = "CArr [CBytes (cp_protected p), CMap (cp_unprotected p), (case cp_payload p of None \<Rightarrow> CNull | Some b \<Rightarrow> CBytes b), CBytes (cp_signature p)]"
  obtain body where b: "cbor_encode ?x = Some body" "bs = TAG_COSE_SIGN1 # body" using assms(1) by (auto simp: encode_cose_def)
  have wf: "cbor_wf ?x" using assms(2) by (cases "cp_payload p") auto
  have n: "nesting ?x \<le> CBOR_MAX_DEPTH" using assms(3) by (cases "cp_payload p") (auto simp: CBOR_MAX_DEPTH_def simp del: nesting.simps(2))
  show ?thesis using cbor_decode_encode [OF b(1) wf n] b(2) assms(4)
    by (cases p; cases "cp_payload p") (auto simp: parse_cose_sign1_def)
qed


lemma header_lookup:
  assumes "cbor_encode (CMap kvs) = Some pb" "cbor_wf (CMap kvs)" "nesting (CMap kvs) \<le> CBOR_MAX_DEPTH"
  shows "\<exists>ph. cbor_decode pb = Inr (CMap ph) \<and> (\<forall>k. cget ph k = (case map_of kvs k of Some v \<Rightarrow> cbor_sorted v | None \<Rightarrow> CNull))"
proof -
  let ?ph = "by_key (map (\<lambda>(k, v). (k, cbor_sorted v)) kvs)"
  have d: "distinct (map fst kvs)" using assms(2) by simp
  have "cbor_decode pb = Inr (CMap ?ph)" using cbor_decode_encode [OF assms] by simp
  moreover have "cget ?ph k = (case map_of kvs k of Some v \<Rightarrow> cbor_sorted v | None \<Rightarrow> CNull)" for k
    using cget_by_key [OF d] by (simp add: cget_def split: option.split)
  ultimately show ?thesis by blast
qed

text \<open>The two claims of a header, whatever the order of its encoding.\<close>

lemma claims_lookup:
  assumes "cget ph L_CWT = cbor_sorted (CMap claims)" "distinct (map fst claims)" "map_of claims CWT_ISS = Some (CText iss)" "map_of claims CWT_SUB = Some (CText sub)"
  shows "cwt_claims ph = Some (iss, sub)"
  using assms cget_by_key [OF assms(2)] by (simp add: cwt_claims_def cget_def)

lemma encode_cose_length:
  assumes "encode_cose p = Some b"
  shows "length (cp_protected p) + length (payload_bytes p) + length (cp_signature p) \<le> length b"
  using assms by (auto simp: encode_cose_def payload_bytes_def with_head_def split: option.splits)

lemma signed_statement_parts:
  assumes "signed_statement sk payload cty iss sub det iat = Some cose" "honest_key C sk"
  obtains pb ph m where "parse_cose_sign1 cose = Some \<lparr>cp_protected = pb, cp_header = ph, cp_unprotected = [], cp_payload = (if det then None else Some payload), cp_signature = sk_sign sk m\<rparr>"
    "cbor_decode pb = Inr (CMap ph)" "sig_structure pb payload = Some m" "cget ph L_ALG = CInt COSE_ALG_EDDSA" "cwt_claims ph = Some (iss, sub)" "check_claims iss sub"
    "cget ph L_KID = CBytes (sk_public sk)" "length pb + length (if det then [] else payload) + length (sk_sign sk m) \<le> length cose"
proof -
  define claims where "claims = [(CWT_ISS, CText iss), (CWT_SUB, CText sub)] @ (case iat of Some t \<Rightarrow> [(CWT_IAT, CInt t)] | None \<Rightarrow> [])"
  let ?h = "[(L_ALG, CInt COSE_ALG_EDDSA), (L_CTY, CText cty), (L_KID, CBytes (sk_public sk)), (L_CWT, CMap claims)]"
  obtain pb m where e: "cbor_encode (CMap ?h) = Some pb" "sig_structure pb payload = Some m" "check_claims iss sub"
    "encode_cose \<lparr>cp_protected = pb, cp_header = [], cp_unprotected = [], cp_payload = (if det then None else Some payload), cp_signature = sk_sign sk m\<rparr> = Some cose"
    using assms(1) by (auto simp: signed_statement_def claims_def Let_def simp del: cbor_encode.simps split: if_splits option.splits)
  have cl: "distinct (map fst claims)" "map_of claims CWT_ISS = Some (CText iss)" "map_of claims CWT_SUB = Some (CText sub)"
    "cbor_wf (CMap claims)" "nesting (CMap claims) \<le> 1"
    by (cases iat; simp add: claims_def scitt_labels)+
  have wf: "cbor_wf (CMap ?h)" "nesting (CMap ?h) \<le> CBOR_MAX_DEPTH"
    using cl(4,5) by (simp_all add: scitt_labels CBOR_MAX_DEPTH_def del: nesting.simps(2) cbor_wf.simps(2)) (simp_all add: scitt_labels)
  from header_lookup [OF e(1) wf] obtain ph where ph: "cbor_decode pb = Inr (CMap ph)" "\<forall>k. cget ph k = (case map_of ?h k of Some v \<Rightarrow> cbor_sorted v | None \<Rightarrow> CNull)"
    by (elim exE conjE)
  have g: "cget ph L_ALG = CInt COSE_ALG_EDDSA" "cget ph L_KID = CBytes (sk_public sk)" "cget ph L_CWT = cbor_sorted (CMap claims)"
    unfolding spec [OF ph(2)] by (simp_all add: scitt_labels)
  have "parse_cose_sign1 cose = Some \<lparr>cp_protected = pb, cp_header = ph, cp_unprotected = [], cp_payload = (if det then None else Some payload), cp_signature = sk_sign sk m\<rparr>"
    using parse_encode [OF e(4), of ph] ph(1) by (simp add: by_key_def)
  then show ?thesis using encode_cose_length [OF e(4)]
    by (intro that [OF _ ph(1) e(2) g(1) claims_lookup [OF g(3) cl(1-3)] e(3) g(2)]) (simp_all add: payload_bytes_def split: if_splits)
qed


lemma receipt_parts:
  assumes "scitt_receipt C sk file i iss sub det = Done r" "leaves_from_ledger file = Done leaves"
  obtains pb ph m q hs u where "inclusion_proof (sha256 C) i leaves = Some hs" "0 \<le> i" "i < int (length leaves)"
    "parse_cose_sign1 r = Some \<lparr>cp_protected = pb, cp_header = ph, cp_unprotected = u, cp_payload = (if det then None else Some (mth (sha256 C) leaves)), cp_signature = sk_sign sk m\<rparr>"
    "sig_structure pb (mth (sha256 C) leaves) = Some m" "cget ph L_ALG = CInt COSE_ALG_EDDSA" "cget ph L_VDS = CInt VDS_RFC9162_SHA256"
    "cget ph L_KID = CBytes (sk_public sk)" "\<exists>s. cwt_claims ph = Some (iss, s)" "inclusion_bytes u = Some q" "cget u L_LEAF = CBytes (leaves ! nat i)"
    "cbor_encode (CArr [CInt (int (length leaves)), CInt i, CArr (map CBytes hs)]) = Some q"
proof -
  define s where "s = (if given sub then the sub else iss)"
  let ?h = "[(L_ALG, CInt COSE_ALG_EDDSA), (L_VDS, CInt VDS_RFC9162_SHA256), (L_KID, CBytes (sk_public sk)), (L_CWT, CMap [(CWT_ISS, CText iss), (CWT_SUB, CText s)])]"
  obtain hs pb m q where e: "inclusion_proof (sha256 C) i leaves = Some hs" "0 \<le> i" "i < int (length leaves)" "cbor_encode (CMap ?h) = Some pb"
    "sig_structure pb (mth (sha256 C) leaves) = Some m" "cbor_encode (CArr [CInt (int (length leaves)), CInt i, CArr (map CBytes hs)]) = Some q"
    "encode_cose \<lparr>cp_protected = pb, cp_header = [], cp_unprotected = [(L_VDP, CMap [(VDP_INCLUSION, CArr [CBytes q])]), (L_LEAF, CBytes (leaves ! nat i))],
       cp_payload = (if det then None else Some (mth (sha256 C) leaves)), cp_signature = sk_sign sk m\<rparr> = Some r"
    using assms by (auto simp: scitt_receipt_def s_def [symmetric] Let_def ts_protected_def simp del: cbor_encode.simps split: if_splits option.splits)
  have wf: "cbor_wf (CMap ?h)" "nesting (CMap ?h) \<le> CBOR_MAX_DEPTH" by (simp_all add: scitt_labels CBOR_MAX_DEPTH_def)
  from header_lookup [OF e(4) wf] obtain ph where ph: "cbor_decode pb = Inr (CMap ph)" "\<forall>k. cget ph k = (case map_of ?h k of Some v \<Rightarrow> cbor_sorted v | None \<Rightarrow> CNull)"
    by (elim exE conjE)
  have g: "cget ph L_ALG = CInt COSE_ALG_EDDSA" "cget ph L_VDS = CInt VDS_RFC9162_SHA256" "cget ph L_KID = CBytes (sk_public sk)"
    "cget ph L_CWT = cbor_sorted (CMap [(CWT_ISS, CText iss), (CWT_SUB, CText s)])"
    unfolding spec [OF ph(2)] by (simp_all add: scitt_labels)
  have cl: "cwt_claims ph = Some (iss, s)" by (rule claims_lookup [OF g(4)]) (simp_all add: scitt_labels)
  let ?kvs = "[(L_VDP, CMap [(VDP_INCLUSION, CArr [CBytes q])]), (L_LEAF, CBytes (leaves ! nat i))]"
  let ?u = "by_key (map (\<lambda>(k, v). (k, cbor_sorted v)) ?kvs)"
  have d: "distinct (map fst ?kvs)" by (simp add: scitt_labels)
  have look: "cget ?u k = (case map_of ?kvs k of Some v \<Rightarrow> cbor_sorted v | None \<Rightarrow> CNull)" for k
    using cget_by_key [OF d] by (simp only: cget_def) (simp split: option.split)
  have u: "inclusion_bytes ?u = Some q" "cget ?u L_LEAF = CBytes (leaves ! nat i)"
    unfolding inclusion_bytes_def look by (simp_all add: scitt_labels by_key_def cget_def)
  have "parse_cose_sign1 r = Some \<lparr>cp_protected = pb, cp_header = ph, cp_unprotected = ?u, cp_payload = (if det then None else Some (mth (sha256 C) leaves)), cp_signature = sk_sign sk m\<rparr>"
    using parse_encode [OF e(7), of ph] ph(1) by (simp add: scitt_labels)
  then show ?thesis by (rule that [OF e(1-3) _ e(5) g(1-3) _ u e(6)]) (use cl in blast)
qed

text \<open>A key whose signatures on the root of a tree verify.\<close>

definition root_key :: "('x crypto_scheme) \<Rightarrow> signing_key \<Rightarrow> bytes \<Rightarrow> bool" where
  "root_key C sk rt \<longleftrightarrow> length (sk_public sk) = 32 \<and> (\<forall>m. length (sk_sign sk m) = 64) \<and>
     (\<forall>pb m. sig_structure pb rt = Some m \<longrightarrow> ed_verify C (sk_public sk) (sk_sign sk m) m)"

lemma honest_root_key: "honest_key C sk \<Longrightarrow> root_key C sk rt"
  by (simp add: honest_key_def root_key_def)

lemma issued_receipt_ok:
  assumes h: "\<And>x. length (sha256 C x) = 32" and key: "root_key C sk (mth (sha256 C) leaves)" and r: "scitt_receipt C sk file i iss sub det = Done r"
    and l: "leaves_from_ledger file = Done leaves" "leaf_registers (leaves ! nat i) = Done (JStr sid, JInt i)"
  shows "check_receipt C sid (hex_of (sk_public sk)) (Some iss) r = Receipt_Ok (int (length leaves)) i (mth (sha256 C) leaves)"
proof -
  obtain pb ph m q hs u where e: "inclusion_proof (sha256 C) i leaves = Some hs" "0 \<le> i" "i < int (length leaves)"
    "parse_cose_sign1 r = Some \<lparr>cp_protected = pb, cp_header = ph, cp_unprotected = u, cp_payload = (if det then None else Some (mth (sha256 C) leaves)), cp_signature = sk_sign sk m\<rparr>"
    "sig_structure pb (mth (sha256 C) leaves) = Some m" "cget ph L_ALG = CInt COSE_ALG_EDDSA" "cget ph L_VDS = CInt VDS_RFC9162_SHA256"
    "cget ph L_KID = CBytes (sk_public sk)" "\<exists>s. cwt_claims ph = Some (iss, s)" "inclusion_bytes u = Some q" "cget u L_LEAF = CBytes (leaves ! nat i)"
    "cbor_encode (CArr [CInt (int (length leaves)), CInt i, CArr (map CBytes hs)]) = Some q"
    by (rule receipt_parts [OF r l(1)])
  have hs: "\<forall>c\<in>set hs. length c = 32" using inclusion_hashes [OF e(1)] length_mth h by fastforce
  have q: "uint_proof q = Some (int (length leaves), i, hs)"
    using cbor_decode_encode [OF e(12) bytes_proof(1,2)] e(2) hs unfolding bytes_proof(3) by (simp add: uint_proof_def octets_of_map list_all_iff del: map_map)
  have n: "0 < length leaves" using e(2,3) by linarith
  have "verify_leaf_hash (sha256 C) i (int (length leaves)) (leaf_hash (sha256 C) (leaves ! nat i)) hs (mth (sha256 C) leaves)"
    unfolding verify_leaf_hash_iff [OF n] using inclusion_accepts [OF e(1)] length_inclusion_proof [OF e(1)] e(2) by simp
  then have rt: "root_from_inclusion (sha256 C) i (int (length leaves)) (leaf_hash (sha256 C) (leaves ! nat i)) hs = Some (mth (sha256 C) leaves)"
    using e(2,3) by (auto simp: verify_leaf_hash_def root_from_inclusion_def split: if_splits option.splits)
  have k: "length (sk_public sk) = 32" "ed_verify C (sk_public sk) (sk_sign sk m) m" using key e(5) by (auto simp: root_key_def)
  obtain s where s: "cwt_claims ph = Some (iss, s)" using e(9) by blast
  show ?thesis
    using k unfolding check_receipt_def e(4) by (simp add: e(5-8,10,11) s fromhex_hex_of l(2) q rt)
qed

lemma statement_verifies:
  assumes key: "honest_key C sk" and p: "parse_cose_sign1 t = Some \<lparr>cp_protected = pb, cp_header = ph, cp_unprotected = u, cp_payload = (if det then None else Some payload), cp_signature = sk_sign sk m\<rparr>"
    and h: "sig_structure pb payload = Some m" "cget ph L_ALG = CInt COSE_ALG_EDDSA" "cwt_claims ph = Some (iss, sub)" "check_claims iss sub" "cget ph L_KID = CBytes (sk_public sk)"
  shows "verify_signed_statement C t (hex_of (sk_public sk)) (Some payload) \<noteq> None"
proof -
  have k: "length (sk_public sk) = 32" "ed_verify C (sk_public sk) (sk_sign sk m) m" using key by (simp_all add: honest_key_def)
  show ?thesis using k unfolding verify_signed_statement_def p by (simp add: h Let_def fromhex_hex_of)
qed

lemma transparent_verifies:
  assumes hash32: "\<And>x. length (sha256 C x) = 32" and keys: "honest_key C isk" "root_key C tsk (mth (sha256 C) leaves)"
    and st: "signed_statement isk payload cty iss sub det iat = Some cose" "statement_id C cose = Some sid"
    and led: "leaves_from_ledger file = Done leaves" "leaf_registers (leaves ! nat i) = Done (JStr sid, JInt i)"
    and rc: "scitt_receipt C tsk file i ts_iss ts_sub tdet = Done r" and t: "transparent_statement cose [r] = Some t"
  shows "tr_ok (verify_transparent_statement C t (hex_of (sk_public isk)) (hex_of (sk_public tsk)) (Some payload) (Some ts_iss))"
proof -
  obtain pb ph m where p: "parse_cose_sign1 cose = Some \<lparr>cp_protected = pb, cp_header = ph, cp_unprotected = [], cp_payload = (if det then None else Some payload), cp_signature = sk_sign isk m\<rparr>"
    "cbor_decode pb = Inr (CMap ph)" "sig_structure pb payload = Some m" "cget ph L_ALG = CInt COSE_ALG_EDDSA" "cwt_claims ph = Some (iss, sub)" "check_claims iss sub"
    "cget ph L_KID = CBytes (sk_public isk)" "length pb + length (if det then [] else payload) + length (sk_sign isk m) \<le> length cose"
    by (rule signed_statement_parts [OF st(1) keys(1)])
  let ?u = "[(L_RECEIPTS, CArr [CBytes r])]"
  let ?p = "\<lparr>cp_protected = pb, cp_header = ph, cp_unprotected = ?u, cp_payload = (if det then None else Some payload), cp_signature = sk_sign isk m\<rparr>"
  have "encode_cose ?p = Some t"
    using t p(1) by (auto simp: transparent_statement_def cbor_list_def split: if_splits option.splits bool.splits)
  moreover have "key_ok L_RECEIPTS" by (simp add: scitt_labels)
  ultimately have pt: "parse_cose_sign1 t = Some ?p" using parse_encode [of ?p t ph] p(2) by (simp add: by_key_def del: if_split)
  have id: "statement_id C t = Some sid" using st(2) p(1) pt by (simp add: statement_id_def statement_input_def payload_bytes_def)
  note v = statement_verifies [OF keys(1) pt p(3-7)]
  have "cget ?u L_RECEIPTS = CArr [CBytes r]" by (simp add: cget_def)
  then show ?thesis
    using v id issued_receipt_ok [OF hash32 keys(2) rc led] by (auto simp: verify_transparent_statement_def pt Let_def)
qed

section \<open>Statements and receipts are issued\<close>

text \<open>A bound on the length of an encoding, and the values that have one.\<close>

fun cbor_bound :: "cbor \<Rightarrow> nat" where
  "cbor_bound (CBytes b) = 9 + length b"
| "cbor_bound (CText s) = 9 + 4 * length s"
| "cbor_bound (CArr xs) = 9 + sum_list (map cbor_bound xs)"
| "cbor_bound (CMap kvs) = 9 + sum_list (map (\<lambda>(k, v). cbor_bound k + cbor_bound v) kvs)"
| "cbor_bound (CInt n) = 9"
| "cbor_bound (CBool b) = 9"
| "cbor_bound CNull = 9"

fun cbor_plain :: "cbor \<Rightarrow> bool" where
  "cbor_plain (CInt n) \<longleftrightarrow> - (2 ^ 64) \<le> n \<and> n < 2 ^ 64"
| "cbor_plain (CText s) \<longleftrightarrow> list_all scalar s"
| "cbor_plain (CArr xs) \<longleftrightarrow> (\<forall>x\<in>set xs. cbor_plain x)"
| "cbor_plain (CMap kvs) \<longleftrightarrow> (\<forall>(k, v)\<in>set kvs. cbor_plain k \<and> cbor_plain v)"
| "cbor_plain _ = True"

lemma utf8_char_length: "utf8_char c = Some b \<Longrightarrow> length b \<le> 4"
  by (auto simp: utf8_char_def split: if_splits)

lemma utf8_encode_length: "utf8_encode s = Some b \<Longrightarrow> length b \<le> 4 * length s"
proof (induction s arbitrary: b)
  case (Cons c s)
  then obtain x y where "utf8_char c = Some x" "utf8_encode s = Some y" "b = x @ y" by (auto split: option.splits)
  then show ?case using Cons(1) [of y] utf8_char_length [of c x] by simp
qed simp

lemma with_head_fits:
  assumes "\<exists>b. r = Some b \<and> length b \<le> k" "n < 2 ^ 64"
  shows "\<exists>b. with_head major n r = Some b \<and> length b \<le> 9 + k"
  using assms(1) cbor_head_fits [OF assms(2), of major] by (auto simp: with_head_def)

lemma cbor_bound_ge: "length xs \<le> sum_list (map cbor_bound xs)" "length kvs \<le> sum_list (map (\<lambda>(k, v). cbor_bound k + cbor_bound v) kvs)"
proof -
  have "1 \<le> cbor_bound x" for x by (cases x) auto
  then have 1: "1 \<le> cbor_bound x" "1 \<le> cbor_bound x + n" for x n by (auto intro: trans_le_add1)
  show "length xs \<le> sum_list (map cbor_bound xs)"
    using sum_list_mono [of xs "\<lambda>_. 1::nat" cbor_bound] 1 by (simp add: sum_list_triv)
  show "length kvs \<le> sum_list (map (\<lambda>(k, v). cbor_bound k + cbor_bound v) kvs)"
    using sum_list_mono [of kvs "\<lambda>_. 1::nat" "\<lambda>(k, v). cbor_bound k + cbor_bound v"] 1(2) by (simp add: sum_list_triv case_prod_unfold)
qed

lemma items_fit:
  assumes "\<And>x. x \<in> set xs \<Longrightarrow> \<exists>b. f x = Some b \<and> size_of b \<le> (g x :: nat)"
  shows "\<exists>ys. those (map f xs) = Some ys \<and> sum_list (map size_of ys) \<le> sum_list (map g xs)"
  using assms
proof (induction xs)
  case (Cons x xs)
  obtain b where "f x = Some b" "size_of b \<le> g x" using Cons(2) [of x] by auto
  moreover obtain ys where "those (map f xs) = Some ys" "sum_list (map size_of ys) \<le> sum_list (map g xs)" using Cons by auto
  ultimately show ?case by auto
qed simp

lemma sum_list_sort_key: "sum_list (map f (sort_key g xs)) = (sum_list (map f xs) :: nat)"
proof (induction xs)
  case (Cons x xs)
  have "sum_list (map f (insort_key g y ys)) = f y + sum_list (map f ys)" for y ys by (induction ys) auto
  then show ?case using Cons by simp
qed simp

lemma cbor_plain_encodes: "cbor_plain x \<Longrightarrow> cbor_bound x < 2 ^ 64 \<Longrightarrow> \<exists>b. cbor_encode x = Some b \<and> length b \<le> cbor_bound x"
proof (induction x rule: cbor_bound.induct)
  case (1 b)
  then show ?case using with_head_fits [of "Some b" "length b" "length b" 2] by simp
next
  case (2 s)
  then obtain b where b: "utf8_encode s = Some b" using utf8_encode_None [of s] by auto
  then show ?case using 2 utf8_encode_length [OF b] with_head_fits [of "Some b" "4 * length s" "length b" 3] by simp
next
  case (3 xs)
  have "\<exists>b. cbor_encode x = Some b \<and> length b \<le> cbor_bound x" if "x \<in> set xs" for x
    using 3(1) [OF that] 3(2,3) that member_le_sum_list [of "cbor_bound x" "map cbor_bound xs"] by fastforce
  from items_fit [of xs cbor_encode length cbor_bound, OF this] obtain ys where
    "those (map cbor_encode xs) = Some ys" "length (concat ys) \<le> sum_list (map cbor_bound xs)" by (auto simp: length_concat)
  moreover have "length xs < 2 ^ 64" using cbor_bound_ge(1) [of xs] 3(3) by simp
  ultimately show ?case using with_head_fits [of "Some (concat ys)" "sum_list (map cbor_bound xs)" "length xs" 4] by simp
next
  case (4 kvs)
  let ?g = "\<lambda>(k, v). cbor_bound k + cbor_bound v"
  have "\<exists>b. (\<lambda>(k, v). pair_up (cbor_encode k, cbor_encode v)) x = Some b \<and> (\<lambda>(a, b). length a + length b) b \<le> ?g x" if x: "x \<in> set kvs" for x
  proof -
    obtain k v where kv: "x = (k, v)" by (cases x)
    have "cbor_bound k + cbor_bound v \<le> sum_list (map ?g kvs)" using member_le_sum_list [of "?g x" "map ?g kvs"] x kv by force
    then obtain a b where "cbor_encode k = Some a" "length a \<le> cbor_bound k" "cbor_encode v = Some b" "length b \<le> cbor_bound v"
      using 4(1,2) [OF x kv [symmetric]] 4(3,4) x kv by fastforce
    then show ?thesis by (simp add: kv pair_up_def)
  qed
  from items_fit [of kvs "\<lambda>(k, v). pair_up (cbor_encode k, cbor_encode v)" "\<lambda>(a, b). length a + length b" ?g, OF this] obtain items where
    i: "those (map (\<lambda>(k, v). pair_up (cbor_encode k, cbor_encode v)) kvs) = Some items" "sum_list (map (\<lambda>(a, b). length a + length b) items) \<le> sum_list (map ?g kvs)" by auto
  have "length (concat (map (\<lambda>(k, v). k @ v) (sort_key fst items))) = sum_list (map (\<lambda>(a, b). length a + length b) (sort_key fst items))"
    by (simp add: length_concat comp_def case_prod_unfold)
  then have "length (concat (map (\<lambda>(k, v). k @ v) (sort_key fst items))) \<le> sum_list (map ?g kvs)" using i(2) by (simp only: sum_list_sort_key)
  moreover have "length kvs < 2 ^ 64" using cbor_bound_ge(2) [of kvs] 4(4) by simp
  ultimately show ?case using with_head_fits [of "Some (concat (map (\<lambda>(k, v). k @ v) (sort_key fst items)))" "sum_list (map ?g kvs)" "length kvs" 5] i(1) by simp
next
  case (5 n)
  then show ?case using cbor_head_fits [of "nat n" 0] cbor_head_fits [of "nat (- 1 - n)" 1] by (auto simp: nat_less_iff)
qed simp_all

definition statement_fits :: "bytes \<Rightarrow> pystr \<Rightarrow> pystr \<Rightarrow> pystr \<Rightarrow> int option \<Rightarrow> bool" where
  "statement_fits payload cty iss sub iat \<longleftrightarrow>
     check_claims iss sub \<and> cty \<noteq> [] \<and> 10 \<notin> set cty \<and> list_all scalar iss \<and> list_all scalar sub \<and> list_all scalar cty \<and>
     length payload + length sub + length cty < 2 ^ 59 \<and> (case iat of Some t \<Rightarrow> - (2 ^ 64) \<le> t \<and> t < 2 ^ 64 | None \<Rightarrow> True)"

lemma sig_structure_encodes: "length p + length x < 2 ^ 63 \<Longrightarrow> \<exists>m. sig_structure p x = Some m"
  using cbor_plain_encodes [of "CArr [CText (lit ''Signature1''), CBytes p, CBytes [], CBytes x]"]
  by (auto simp: sig_structure_def scalar_def simp del: cbor_encode.simps)

lemma encode_cose_encodes:
  assumes "cbor_plain (CMap (cp_unprotected p))"
    "length (cp_protected p) + cbor_bound (CMap (cp_unprotected p)) + length (payload_bytes p) + length (cp_signature p) < 2 ^ 63"
  shows "\<exists>b. encode_cose p = Some b \<and> length b \<le> 100 + length (cp_protected p) + cbor_bound (CMap (cp_unprotected p)) + length (payload_bytes p) + length (cp_signature p)"
proof -
  let ?x = "CArr [CBytes (cp_protected p), CMap (cp_unprotected p), (case cp_payload p of None \<Rightarrow> CNull | Some b \<Rightarrow> CBytes b), CBytes (cp_signature p)]"
  have "cbor_bound ?x \<le> 50 + length (cp_protected p) + cbor_bound (CMap (cp_unprotected p)) + length (payload_bytes p) + length (cp_signature p)"
    by (simp add: payload_bytes_def split: option.split)
  moreover have "cbor_plain ?x" using assms(1) by (simp split: option.split)
  ultimately show ?thesis using cbor_plain_encodes [of ?x] assms(2) unfolding encode_cose_def by fastforce
qed

lemma statement_issued:
  assumes "statement_fits payload cty iss sub iat" "honest_key C sk"
  shows "\<exists>cose. signed_statement sk payload cty iss sub det iat = Some cose \<and> length cose < 2 ^ 62"
proof -
  define claims where "claims = [(CWT_ISS, CText iss), (CWT_SUB, CText sub)] @ (case iat of Some t \<Rightarrow> [(CWT_IAT, CInt t)] | None \<Rightarrow> [])"
  let ?h = "CMap [(L_ALG, CInt COSE_ALG_EDDSA), (L_CTY, CText cty), (L_KID, CBytes (sk_public sk)), (L_CWT, CMap claims)]"
  have k: "length (sk_public sk) = 32" "\<And>m. length (sk_sign sk m) = 64" using assms(2) by (simp_all add: honest_key_def)
  have f: "check_claims iss sub" "length iss \<le> 8192" "cty \<noteq> []" "10 \<notin> set cty" "length payload + length sub + length cty < 2 ^ 59"
    using assms(1) by (auto simp: statement_fits_def check_claims_def MAX_ISS_def)
  have "cbor_plain (CMap claims)" "cbor_bound (CMap claims) \<le> 100 + 4 * length iss + 4 * length sub"
    using assms(1) by (auto simp: claims_def statement_fits_def scitt_labels split: option.splits)
  then have b: "cbor_plain ?h" "cbor_bound ?h \<le> 300 + 4 * length iss + 4 * length sub + 4 * length cty"
    using assms(1) k by (auto simp: scitt_labels statement_fits_def COSE_ALG_EDDSA_def simp del: cbor_plain.simps(4) cbor_bound.simps(4)) (auto simp: scitt_labels statement_fits_def)
  then obtain pb where pb: "cbor_encode ?h = Some pb" "length pb \<le> 300 + 4 * length iss + 4 * length sub + 4 * length cty"
    using cbor_plain_encodes [of ?h] f by fastforce
  then obtain m where m: "sig_structure pb payload = Some m" using sig_structure_encodes [of pb payload] f(2,5) by auto
  let ?p = "\<lparr>cp_protected = pb, cp_header = [], cp_unprotected = [], cp_payload = (if det then None else Some payload), cp_signature = sk_sign sk m\<rparr>"
  have "\<exists>b. encode_cose ?p = Some b \<and> length b < 2 ^ 62" using encode_cose_encodes [of ?p] pb(2) f(2,5) k(2) by (auto simp: payload_bytes_def)
  then show ?thesis using f pb(1) m unfolding signed_statement_def claims_def [symmetric] Let_def by (simp del: cbor_encode.simps if_split)
qed

lemma receipt_issued:
  assumes h: "\<And>x. length (sha256 C x) = 32" and k: "root_key C sk (mth (sha256 C) leaves)" and c: "check_claims iss iss" "list_all scalar iss"
    and l: "leaves_from_ledger file = Done leaves" "0 \<le> i" "i < int (length leaves)" "length leaves < 2 ^ 64" "length (leaves ! nat i) < 2 ^ 60"
  shows "\<exists>r. scitt_receipt C sk file i iss None det = Done r \<and> length r < 2 ^ 61"
proof -
  have k: "length (sk_public sk) = 32" "\<And>m. length (sk_sign sk m) = 64" using k by (simp_all add: root_key_def)
  have iss: "length iss \<le> 8192" using c(1) by (simp add: check_claims_def MAX_ISS_def)
  have rt: "length (mth (sha256 C) leaves) = 32" by (rule length_mth) (rule h)
  obtain hs where hs: "inclusion_proof (sha256 C) i leaves = Some hs" using inclusion_proof_defined [of "sha256 C" i leaves] l(2,3) by auto
  have "length (path (length leaves) i) \<le> 64" by (rule walk_height [OF walk_path]) (use l in simp_all)
  then have "length hs \<le> 64" using length_inclusion_proof [OF hs] by simp
  moreover have "\<forall>x\<in>set hs. length x = 32" using inclusion_hashes [OF hs] length_mth h by fastforce
  ultimately obtain q where q: "cbor_encode (CArr [CInt (int (length leaves)), CInt i, CArr (map CBytes hs)]) = Some q" "length q \<le> 10000"
    using path_encodes [of hs "int (length leaves)" i] l by auto
  let ?h = "ts_protected (sk_public sk) iss iss"
  have "cbor_plain ?h" "cbor_bound ?h \<le> 200000"
    using c(2) iss k by (simp_all add: ts_protected_def scitt_labels COSE_ALG_EDDSA_def VDS_RFC9162_SHA256_def)
  then obtain pb where pb: "cbor_encode ?h = Some pb" "length pb \<le> 200000" using cbor_plain_encodes [of ?h] by fastforce
  then obtain m where m: "sig_structure pb (mth (sha256 C) leaves) = Some m" using sig_structure_encodes [of pb "mth (sha256 C) leaves"] rt by auto
  let ?p = "\<lparr>cp_protected = pb, cp_header = [], cp_unprotected = [(L_VDP, CMap [(VDP_INCLUSION, CArr [CBytes q])]), (L_LEAF, CBytes (leaves ! nat i))],
    cp_payload = (if det then None else Some (mth (sha256 C) leaves)), cp_signature = sk_sign sk m\<rparr>"
  have "cbor_plain (CMap (cp_unprotected ?p))" by (simp add: scitt_labels scalar_def)
  moreover have "cbor_bound (CMap (cp_unprotected ?p)) \<le> 11000 + length (leaves ! nat i)" using q(2) by (simp add: scitt_labels)
  moreover have "length (payload_bytes ?p) \<le> 32" using rt by (simp add: payload_bytes_def)
  ultimately obtain r where "encode_cose ?p = Some r" "length r < 2 ^ 61"
    using encode_cose_encodes [of ?p] pb(2) l(5) k(2) by fastforce
  then show ?thesis using c(1) l(1-3) hs pb(1) m q(1) by (simp add: scitt_receipt_def given_def Let_def del: cbor_encode.simps if_split)
qed

lemma transparent_issued:
  assumes p: "parse_cose_sign1 cose = Some \<lparr>cp_protected = pb, cp_header = ph, cp_unprotected = [], cp_payload = pl, cp_signature = sg\<rparr>"
    and r: "parse_cose_sign1 r \<noteq> None" "length r < 2 ^ 61" and l: "length pb + length (case pl of None \<Rightarrow> [] | Some b \<Rightarrow> b) + length sg < 2 ^ 62"
  shows "\<exists>t. transparent_statement cose [r] = Some t"
proof -
  let ?p = "\<lparr>cp_protected = pb, cp_header = ph, cp_unprotected = [(L_RECEIPTS, CArr [CBytes r])], cp_payload = pl, cp_signature = sg\<rparr>"
  have "\<exists>t. encode_cose ?p = Some t" using encode_cose_encodes [of ?p] r(2) l by (auto simp: payload_bytes_def scitt_labels)
  then show ?thesis using p r(1) by (auto simp: transparent_statement_def cbor_list_def)
qed

lemma registered_statement_verifies:
  assumes h: "\<And>x. length (sha256 C x) = 32" and keys: "honest_key C isk" "root_key C tsk (mth (sha256 C) leaves)"
    and st: "signed_statement isk payload cty iss sub det iat = Some cose" "length cose < 2 ^ 62" "statement_id C cose = Some sid"
    and c: "check_claims ts_iss ts_iss" "list_all scalar ts_iss"
    and l: "leaves_from_ledger file = Done leaves" "0 \<le> i" "i < int (length leaves)" "length leaves < 2 ^ 64" "length (leaves ! nat i) < 2 ^ 60"
    and reg: "leaf_registers (leaves ! nat i) = Done (JStr sid, JInt i)"
  shows "\<exists>r t. scitt_receipt C tsk file i ts_iss None tdet = Done r \<and> transparent_statement cose [r] = Some t \<and>
    tr_ok (verify_transparent_statement C t (hex_of (sk_public isk)) (hex_of (sk_public tsk)) (Some payload) (Some ts_iss))"
proof -
  obtain r where r: "scitt_receipt C tsk file i ts_iss None tdet = Done r" "length r < 2 ^ 61" using receipt_issued [OF h keys(2) c l] by blast
  have pr: "parse_cose_sign1 r \<noteq> None" by (rule receipt_parts [OF r(1) l(1)]) simp
  obtain pb ph m where p: "parse_cose_sign1 cose = Some \<lparr>cp_protected = pb, cp_header = ph, cp_unprotected = [], cp_payload = (if det then None else Some payload), cp_signature = sk_sign isk m\<rparr>"
    and len: "length pb + length (if det then [] else payload) + length (sk_sign isk m) \<le> length cose"
    by (rule signed_statement_parts [OF st(1) keys(1)])
  obtain t where t: "transparent_statement cose [r] = Some t" using transparent_issued [OF p pr r(2)] len st(2) by (auto split: if_splits)
  show ?thesis using transparent_verifies [OF h keys st(1,3) l(1) reg r(1) t] r(1) t by blast
qed

lemma decode_dumps: "utf8_decode (ascii_bytes (dumps v)) = Some (dumps v)"
proof -
  have "\<forall>c\<in>set (dumps v). c < 128"
  proof
    fix c assume "c \<in> set (dumps v)"
    from dumps_ascii [OF this] show "c < 128" by simp
  qed
  from utf8_decode_encode [OF utf8_ascii [OF this]] show ?thesis .
qed

text \<open>The leaf of a registered entry names the statement and its index.\<close>

lemma registered_leaf:
  assumes wf: "json_wf (JObj (registered_entry C i now (registration sid v cty) pv))" and d: "json_depth cty = 0" "json_depth pv = 0"
  shows "leaf_registers (canonical_payload (registered_entry C i now (registration sid v cty) pv)) = Done (JStr sid, JInt (int i))"
proof -
  let ?m = "[(lit ''statement_sha256'', JStr sid), (lit ''iss'', JStr (si_iss v)), (lit ''sub'', JStr (si_sub v)),
    (lit ''content_type'', cty), (lit ''payload_sha256'', JStr (si_payload_sha256 v))]"
  let ?d = "[(lit ''scitt'', JObj ?m)]"
  let ?e = "[(lit ''idx'', JInt (int i)), (lit ''ts'', JStr now), (lit ''data'', JObj ?d), (lit ''prev_hash'', pv)]"
  have c: "content (registered_entry C i now (registration sid v cty) pv) = ?e"
    by (simp add: content_def registered_entry_def registration_def ATTEST_def Let_def)
  have w: "json_wf (JObj ?e)" using wf by (simp add: registered_entry_def registration_def Let_def)
  have "json_depth (JObj ?e) \<le> MAX_JSON_DEPTH" using d by (simp add: MAX_JSON_DEPTH_def)
  then have "json_depth (sorted_keys (JObj ?e)) \<le> MAX_JSON_DEPTH" by (simp only: sorted_keys_depth)
  then have "loads_strict (dumps (sorted_keys (JObj ?e))) = Inr (sorted_keys (JObj ?e))" by (rule loads_strict_dumps [OF sorted_keys_wf [OF w]])
  then have l: "text_loads (dumps (sorted_keys (JObj ?e))) = Value (JObj (stored ?e))" by (simp only: text_loads_def JObj_stored sum.case)
  have u: "utf8_decode (canonical_payload (registered_entry C i now (registration sid v cty) pv)) = Some (dumps (sorted_keys (JObj ?e)))"
    unfolding canonical_payload_def c canonical_bytes_def canonical_dumps_def
    by (rule decode_dumps)
  have k: "distinct (map fst ?e)" "distinct (map fst ?d)" "distinct (map fst ?m)" by simp_all
  have g: "get (stored ?e) ''data'' = JObj (stored ?d)" "get (stored ?e) ''idx'' = JInt (int i)"
    unfolding get_stored [OF k(1)] by (simp_all add: get_def JObj_stored del: sorted_keys.simps(2))
  have g2: "get (stored ?d) ''scitt'' = JObj (stored ?m)"
    unfolding get_stored [OF k(2)] by (simp add: get_def JObj_stored del: sorted_keys.simps(2))
  have g3: "get (stored ?m) ''statement_sha256'' = JStr sid"
    unfolding get_stored [OF k(3)] by (simp add: get_def)
  show ?thesis by (simp only: leaf_registers_def u l option.case line_read.case json.case g g2 g3)
qed

section \<open>Properties\<close>

text \<open>
  C37. A statement that fits is signed, has an identity, and once the ledger holds an entry that registers that identity, the service
  issues the receipt, the transparent statement is assembled, and a relying party with the two keys and the payload accepts it:
  whatever the attached or detached forms, the other entries and the position.
\<close>

theorem transparent_statement_verifies:
  assumes "\<And>x. length (sha256 C x) = 32" "honest_key C isk" "honest_key C tsk" "statement_fits payload cty iss sub iat"
    "check_claims ts_iss ts_iss" "list_all scalar ts_iss"
  shows "\<exists>cose sid. signed_statement isk payload cty iss sub det iat = Some cose \<and> statement_id C cose = Some sid \<and>
    (\<forall>file leaves i. leaves_from_ledger file = Done leaves \<and> 0 \<le> i \<and> i < int (length leaves) \<and> length leaves < 2 ^ 64 \<and>
        length (leaves ! nat i) < 2 ^ 60 \<and> leaf_registers (leaves ! nat i) = Done (JStr sid, JInt i) \<longrightarrow>
      (\<exists>r t. scitt_receipt C tsk file i ts_iss None tdet = Done r \<and> transparent_statement cose [r] = Some t \<and>
        tr_ok (verify_transparent_statement C t (hex_of (sk_public isk)) (hex_of (sk_public tsk)) (Some payload) (Some ts_iss))))"
proof -
  obtain cose where c: "signed_statement isk payload cty iss sub det iat = Some cose" "length cose < 2 ^ 62"
    using statement_issued [OF assms(4,2)] by blast
  have "parse_cose_sign1 cose \<noteq> None" by (rule signed_statement_parts [OF c(1) assms(2)]) simp
  then obtain sid where sid: "statement_id C cose = Some sid" by (auto simp: statement_id_def)
  show ?thesis using registered_statement_verifies [OF assms(1,2) honest_root_key [OF assms(3)] c sid assms(5,6)] c(1) sid by blast
qed

lemma example_fits: "statement_fits [104, 105] (lit ''text/plain'') (lit ''issuer'') (lit ''doc'') (Some 1700000000)" "check_claims (lit ''ts'') (lit ''ts'')"
  "list_all scalar (lit ''ts'')"
  by (simp_all add: statement_fits_def check_claims_def MAX_ISS_def scalar_def)

theorem transparent_statement_verifies_witness:
  "\<exists>cose sid. signed_statement (example_key 1) [104, 105] (lit ''text/plain'') (lit ''issuer'') (lit ''doc'') True (Some 1700000000) = Some cose \<and>
    statement_id example_note_crypto cose = Some sid \<and>
    (\<forall>file leaves i. leaves_from_ledger file = Done leaves \<and> 0 \<le> i \<and> i < int (length leaves) \<and> length leaves < 2 ^ 64 \<and>
        length (leaves ! nat i) < 2 ^ 60 \<and> leaf_registers (leaves ! nat i) = Done (JStr sid, JInt i) \<longrightarrow>
      (\<exists>r t. scitt_receipt example_note_crypto (example_key 2) file i (lit ''ts'') None False = Done r \<and> transparent_statement cose [r] = Some t \<and>
        tr_ok (verify_transparent_statement example_note_crypto t (hex_of (sk_public (example_key 1))) (hex_of (sk_public (example_key 2)))
          (Some [104, 105]) (Some (lit ''ts'')))))"
  by (rule transparent_statement_verifies [OF _ example_key_honest example_key_honest example_fits]) simp


text \<open>A service whose key verifies nothing but the roots of one tree.\<close>

definition roots_crypto :: "bytes list \<Rightarrow> note_crypto" where
  "roots_crypto leaves = example_note_crypto\<lparr>ed_verify := (\<lambda>pk sg m. sg = example_sign pk m \<and>
     (pk = sk_public (example_key 2) \<longrightarrow> (\<exists>pb. sig_structure pb (mth example_hash leaves) = Some m)))\<rparr>"

lemma roots_crypto_simps [simp]:
  "sha256 (roots_crypto leaves) = example_hash"
  "ed_verify (roots_crypto leaves) pk sg m \<longleftrightarrow> sg = example_sign pk m \<and> (pk = sk_public (example_key 2) \<longrightarrow> (\<exists>pb. sig_structure pb (mth example_hash leaves) = Some m))"
  by (simp_all add: roots_crypto_def)

lemma roots_crypto_keys:
  "leaves \<noteq> [] \<Longrightarrow> signs_roots (roots_crypto leaves) pk {leaves} \<or> pk \<noteq> sk_public (example_key 2)"
  "honest_key (roots_crypto leaves) (example_key 1)" "root_key (roots_crypto leaves) (example_key 2) (mth example_hash leaves)"
  by (auto simp: signs_roots_def honest_key_def root_key_def example_key_def example_sign_def)

definition example_registered :: "pystr \<Rightarrow> entry" where
  "example_registered sid = registered_entry example_note_crypto 0 [] (registration sid \<lparr>si_iss = [], si_sub = [], si_content_type = CNull, si_payload_sha256 = []\<rparr> JNull) (JStr GENESIS_PREV)"

lemma hex_of_scalar: "list_all scalar (hex_of b)"
  using hex_of_fullmatch [OF refl, of b] by (auto simp: hex_fullmatch_def list_all_iff lower_hex_def scalar_def)

lemma length_concat_esc: "length (concat (map esc_char s)) \<le> 12 * length s"
proof (induction s)
  case (Cons c s)
  have "length (esc_char c) \<le> 12" by (auto simp: esc_char_def hex4_def Let_def)
  then show ?case using Cons by simp
qed simp

lemma length_GENESIS: "length GENESIS_PREV = 64"
  by (simp add: GENESIS_PREV_def)

lemma example_registered:
  assumes "sid = hex_of (example_hash x)"
  shows "entry_fits (example_registered sid)" "leaf_registers (canonical_payload (example_registered sid)) = Done (JStr sid, JInt 0)"
    "length (canonical_payload (example_registered sid)) < 2 ^ 60"
proof -
  have s: "list_all scalar sid" unfolding assms by (rule hex_of_scalar)
  have wf: "json_wf (JObj (example_registered sid))"
    using s GENESIS_scalar hex_of_scalar by (simp add: example_registered_def registered_entry_def registration_def Let_def scalar_def SAFE_INT_def)
  then show "entry_fits (example_registered sid)"
    by (simp add: entry_fits_def entry_wf_def example_registered_def registered_entry_def registration_def Let_def MAX_JSON_DEPTH_def)
  show "leaf_registers (canonical_payload (example_registered sid)) = Done (JStr sid, JInt 0)"
    using registered_leaf [OF wf [unfolded example_registered_def]] by (simp add: example_registered_def)
  have "int_str 0 = [48]" by code_simp
  moreover have "length sid = 64" using assms by (simp add: length_hex_of)
  ultimately show "length (canonical_payload (example_registered sid)) < 2 ^ 60"
    using length_concat_esc [of sid] length_concat_esc [of GENESIS_PREV] length_GENESIS
    by (simp add: example_registered_def canonical_payload_def content_def registered_entry_def registration_def ATTEST_def canonical_bytes_def ascii_bytes_def canonical_dumps_def Let_def dumps_str_def esc_char_def)
qed


end
