(* ===== verification/Pedersen.thy ===== *)
theory Pedersen
  imports Ed25519_Order Py_Bytes Py_Str
begin

text \<open>
  Pedersen commitments (\<^verbatim>\<open>src/pedersen_commit.py\<close>): the group, committing and opening, the homomorphic sum and its opening. The
  functions take the group as an argument; \<open>rfc3526_group\<close> is the one of the code. Octets of \<^verbatim>\<open>os.urandom(32)\<close> are arguments.
\<close>

section \<open>The group\<close>

record pgroup =
  modulus :: int
  subgroup_order :: int
  gen_g :: int
  gen_h :: int

definition MODP_2048 :: int where
  "MODP_2048 = 0xFFFFFFFFFFFFFFFFC90FDAA22168C234C4C6628B80DC1CD129024E088A67CC74020BBEA63B139B22514A08798E3404DDEF9519B3CD3A431B302B0A6DF25F14374FE1356D6D51C245E485B576625E7EC6F44C42E9A637ED6B0BFF5CB6F406B7EDEE386BFB5A899FA5AE9F24117C4B1FE649286651ECE45B3DC2007CB8A163BF0598DA48361C55D39A69163FA8FD24CF5F83655D23DCA3AD961C62F356208552BB9ED529077096966D670C354E4ABC9804F1746C08CA18217C32905E462E36CE3BE39E772C180E86039B2783A2EC07A28FB5C55DF06F4C52C9DE2BCBF6955817183995497CEA956AE515D2261898FA051015728E5A8AACAA68FFFFFFFFFFFFFFFF"

definition hash_to_subgroup :: "hashf \<Rightarrow> int \<Rightarrow> bytes \<Rightarrow> int" where
  "hash_to_subgroup H512 p seed =
     (let x = int (be_val (H512 seed)) mod p; h = pow_mod x 2 p
      in if h \<noteq> 0 \<and> h \<noteq> 1 then h else pow_mod 3 2 p)"

definition H_SEED :: pystr where
  "H_SEED = lit ''OMEGA-CLDMA-Pedersen-h/RFC3526-group14/v1''"

definition rfc3526_group :: "hashf \<Rightarrow> pgroup" where
  "rfc3526_group H512 =
     \<lparr>modulus = MODP_2048, subgroup_order = (MODP_2048 - 1) div 2, gen_g = 4, gen_h = hash_to_subgroup H512 MODP_2048 (ascii_bytes H_SEED)\<rparr>"

section \<open>Commitments\<close>

definition rand_scalar :: "pgroup \<Rightarrow> bytes \<Rightarrow> int" where
  "rand_scalar G rnd = 1 + int (be_val rnd) mod (subgroup_order G - 1)"

definition group_value :: "pgroup \<Rightarrow> int \<Rightarrow> int \<Rightarrow> int" where
  "group_value G v r =
     (let p = modulus G; q = subgroup_order G
      in pow_mod (gen_g G) (nat (v mod q)) p * pow_mod (gen_h G) (nat (r mod q)) p mod p)"

text \<open>\<^verbatim>\<open>commit\<close>; \<open>None\<close> is the \<^verbatim>\<open>ValueError\<close>.\<close>

definition pcommit :: "pgroup \<Rightarrow> int \<Rightarrow> int option \<Rightarrow> bytes \<Rightarrow> (int \<times> int) option" where
  "pcommit G v r rnd =
     (if \<not> (0 \<le> v \<and> v < subgroup_order G) then None
      else let s = (case r of None \<Rightarrow> rand_scalar G rnd | Some x \<Rightarrow> x) in Some (group_value G v s, s))"

definition open_commit :: "pgroup \<Rightarrow> int \<Rightarrow> int \<Rightarrow> int \<Rightarrow> bool" where
  "open_commit G c v r \<longleftrightarrow> c = group_value G v r"

definition padd :: "pgroup \<Rightarrow> int list \<Rightarrow> int" where
  "padd G cs = foldl (\<lambda>acc c. acc * c mod modulus G) 1 cs"

fun commit_contributions :: "pgroup \<Rightarrow> (int \<times> bytes) list \<Rightarrow> (int list \<times> int list) option" where
  "commit_contributions G [] = Some ([], [])"
| "commit_contributions G ((v, rnd) # vs) =
     (case pcommit G v None rnd of
        None \<Rightarrow> None
      | Some (c, r) \<Rightarrow> map_option (\<lambda>(cs, rs). (c # cs, r # rs)) (commit_contributions G vs))"

definition sum_opening :: "pgroup \<Rightarrow> int list \<Rightarrow> int list \<Rightarrow> int \<times> int" where
  "sum_opening G vs rs = (sum_list vs mod subgroup_order G, sum_list rs mod subgroup_order G)"

definition verify_confidential_sum :: "pgroup \<Rightarrow> int list \<Rightarrow> int \<Rightarrow> int \<Rightarrow> bool" where
  "verify_confidential_sum G cs v r = open_commit G (padd G cs) v r"

section \<open>The homomorphism\<close>

text \<open>What the sums rest on: both generators have an order that divides the order of the subgroup.\<close>

definition group_ok :: "pgroup \<Rightarrow> bool" where
  "group_ok G \<longleftrightarrow> 1 < modulus G \<and> 0 < subgroup_order G \<and>
     gen_g G ^ nat (subgroup_order G) mod modulus G = 1 \<and> gen_h G ^ nat (subgroup_order G) mod modulus G = 1"

lemma power_mod_order:
  assumes "b ^ q mod p = (1::int)" "1 < p"
  shows "b ^ (n mod q) mod p = b ^ n mod p"
proof -
  have "b ^ n = (b ^ q) ^ (n div q) * b ^ (n mod q)" by (simp flip: power_mult power_add)
  then have "b ^ n mod p = ((b ^ q) ^ (n div q) mod p) * b ^ (n mod q) mod p" by (simp add: mod_mult_left_eq)
  also have "(b ^ q) ^ (n div q) mod p = (b ^ q mod p) ^ (n div q) mod p" by (simp add: power_mod)
  finally show ?thesis using assms by simp
qed

lemma power_add_mod:
  assumes b: "b ^ nat q mod p = (1::int)" "1 < p" and q: "0 < q"
  shows "b ^ nat (x mod q) * b ^ nat (y mod q) mod p = b ^ nat ((x + y) mod q) mod p"
proof -
  let ?a = "nat (x mod q)" and ?b = "nat (y mod q)"
  have "nat ((x + y) mod q) = nat ((x mod q + y mod q) mod q)" by (simp add: mod_add_eq)
  also have "\<dots> = (?a + ?b) mod nat q" using q by (simp add: nat_mod_distrib nat_add_distrib)
  finally show ?thesis using power_mod_order [OF b, of "?a + ?b"] by (simp add: power_add)
qed

lemma group_value_add:
  assumes "group_ok G"
  shows "group_value G v r * group_value G w s mod modulus G = group_value G (v + w) (r + s)"
proof -
  let ?p = "modulus G" and ?q = "subgroup_order G"
  have "group_value G v r * group_value G w s mod ?p =
      (gen_g G ^ nat (v mod ?q) * gen_g G ^ nat (w mod ?q)) * (gen_h G ^ nat (r mod ?q) * gen_h G ^ nat (s mod ?q)) mod ?p"
    by (simp add: group_value_def Let_def pow_mod_power mod_mult_eq mult_ac)
  also have "\<dots> = (gen_g G ^ nat (v mod ?q) * gen_g G ^ nat (w mod ?q) mod ?p) * (gen_h G ^ nat (r mod ?q) * gen_h G ^ nat (s mod ?q) mod ?p) mod ?p"
    by (simp add: mod_mult_eq)
  also have "\<dots> = group_value G (v + w) (r + s)"
    using assms power_add_mod [of "gen_g G" ?q ?p v w] power_add_mod [of "gen_h G" ?q ?p r s]
    by (simp add: group_value_def Let_def pow_mod_power group_ok_def)
  finally show ?thesis .
qed

lemma group_value_0: "group_ok G \<Longrightarrow> group_value G 0 0 = 1"
  by (simp add: group_value_def Let_def pow_mod_power group_ok_def)

lemma group_value_mod [simp]: "group_value G (v mod subgroup_order G) (r mod subgroup_order G) = group_value G v r"
  by (simp add: group_value_def)

lemma padd_values:
  assumes "group_ok G" "list_all2 (\<lambda>c (v, r). c = group_value G v r) cs vrs"
  shows "padd G cs = group_value G (sum_list (map fst vrs)) (sum_list (map snd vrs))"
proof -
  have "foldl (\<lambda>acc c. acc * c mod modulus G) (group_value G v r) cs = group_value G (v + sum_list (map fst vrs)) (r + sum_list (map snd vrs))" for v r
    using assms(2)
  proof (induction cs vrs arbitrary: v r rule: list_all2_induct)
    case (Cons c cs x vrs)
    then show ?case using group_value_add [OF assms(1), of v r "fst x" "snd x"] by (simp add: case_prod_beta add.assoc)
  qed simp
  from this [of 0 0] show ?thesis using group_value_0 [OF assms(1)] by (simp add: padd_def)
qed

end
