(* ===== verification/Confidential.thy ===== *)
theory Confidential
  imports Pedersen Attestation_Theorems Ledger
begin

text \<open>
  Attestations with confidential contributions (\<^verbatim>\<open>src/cldma_confidential.py\<close>): every contribution is a Pedersen commitment, a
  Merkle root binds the commitments, their product opens to the totals, and challenged leaves are opened. \<open>H\<close> is SHA3-256; a raised
  exception is \<open>None\<close>. A document has its fields with their types; a missing \<^verbatim>\<open>num_le_den\<close> reads as false.
\<close>

section \<open>The root\<close>

fun conf_round :: "hashf \<Rightarrow> pystr list \<Rightarrow> pystr list option" where
  "conf_round H (l # r # rest) = do { x \<leftarrow> text_hash H (enc_parts [lit ''N'', l, r]); xs \<leftarrow> conf_round H rest; Some (x # xs) }"
| "conf_round H xs = Some xs"

lemma conf_round_length: "conf_round H xs = Some ys \<Longrightarrow> length ys = (length xs + 1) div 2"
  by (induction H xs arbitrary: ys rule: conf_round.induct) (auto split: bind_splits)

function conf_tree_root :: "hashf \<Rightarrow> pystr list \<Rightarrow> pystr option" where
  "conf_tree_root H cur =
     (if cur = [] then None
      else if length cur > 1 then (case conf_round H cur of None \<Rightarrow> None | Some nxt \<Rightarrow> conf_tree_root H nxt)
      else Some (hd cur))"
  by pat_completeness auto
termination
  by (relation "measure (\<lambda>(H, cur). length cur)") (auto dest: conf_round_length)

declare conf_tree_root.simps [simp del]

definition conf_leaf_hash :: "hashf \<Rightarrow> nat \<Rightarrow> pystr \<Rightarrow> int \<Rightarrow> int \<Rightarrow> pystr option" where
  "conf_leaf_hash H i record_commit c_num c_den = text_hash H (enc_parts [lit ''CL'', nat_str i, record_commit, int_str c_num, int_str c_den])"

definition conf_bound_root :: "hashf \<Rightarrow> pystr \<Rightarrow> pystr \<Rightarrow> pystr \<Rightarrow> nat \<Rightarrow> pystr option" where
  "conf_bound_root H inner mid asof n = text_hash H (enc_parts [lit ''CLDMA-CONF-1'', mid, asof, nat_str n, inner])"

section \<open>Building\<close>

record conf_leaf =
  k_record :: pystr
  k_num :: int
  k_den :: int

record conf_att =
  k_metric :: pystr
  k_as_of :: pystr
  k_n :: int
  k_root :: pystr
  k_leaves :: "conf_leaf list"
  k_num_total :: int
  k_den_total :: int
  k_bounded :: bool

record conf_secret =
  nums :: "int list"
  dens :: "int list"
  r_nums :: "int list"
  r_dens :: "int list"

text \<open>What one record adds: its leaf with the hash, and the two values with their randomizers.\<close>

record conf_part =
  p_leaf :: conf_leaf
  p_hash :: pystr
  p_num :: int
  p_den :: int
  p_rnum :: int
  p_rden :: int

text \<open>The octets drawn for record \<open>i\<close> are \<open>rnd (2 * i)\<close> and \<open>rnd (2 * i + 1)\<close>.\<close>

definition conf_part_of :: "hashf \<Rightarrow> pgroup \<Rightarrow> (nat \<Rightarrow> bytes) \<Rightarrow> pystr \<Rightarrow> metric_spec \<Rightarrow> nat \<Rightarrow> loan \<Rightarrow> conf_part option" where
  "conf_part_of H G rnd master_salt spec i rec = do {
     num \<leftarrow> num_of spec rec;
     den \<leftarrow> den_of spec rec;
     if num < 0 \<or> den < 0 then None
     else do {
       salt \<leftarrow> leaf_salt H master_salt i;
       rc \<leftarrow> text_hash H (enc_parts [lit ''commit'', salt, canonical_record rec]);
       (cn, rn) \<leftarrow> pcommit G num None (rnd (2 * i));
       (cd, rd) \<leftarrow> pcommit G den None (rnd (2 * i + 1));
       h \<leftarrow> conf_leaf_hash H i rc cn cd;
       Some \<lparr>p_leaf = \<lparr>k_record = rc, k_num = cn, k_den = cd\<rparr>, p_hash = h, p_num = num, p_den = den, p_rnum = rn, p_rden = rd\<rparr>
     }
   }"

definition build_confidential ::
  "hashf \<Rightarrow> pgroup \<Rightarrow> (nat \<Rightarrow> bytes) \<Rightarrow> loan list \<Rightarrow> pystr \<Rightarrow> metric_spec \<Rightarrow> pystr \<Rightarrow> (conf_att \<times> conf_secret) option" where
  "build_confidential H G rnd records master_salt spec asof = do {
     ps \<leftarrow> those (map (\<lambda>i. conf_part_of H G rnd master_salt spec i (records ! i)) [0..<length records]);
     inner \<leftarrow> conf_tree_root H (map p_hash ps);
     rt \<leftarrow> conf_bound_root H inner (metric_id spec) asof (length records);
     let leaves = map p_leaf ps;
     Some (\<lparr>k_metric = metric_id spec, k_as_of = asof, k_n = int (length records), k_root = rt, k_leaves = leaves,
         k_num_total = padd G (map k_num leaves), k_den_total = padd G (map k_den leaves), k_bounded = num_le_den spec\<rparr>,
       \<lparr>nums = map p_num ps, dens = map p_den ps, r_nums = map p_rnum ps, r_dens = map p_rden ps\<rparr>)
   }"

section \<open>Verification\<close>

datatype conf_fault = No_Leaves | Wrong_Number | Root_Differs | Num_Sum_Differs | Den_Sum_Differs

definition conf_root_of :: "hashf \<Rightarrow> conf_att \<Rightarrow> pystr option" where
  "conf_root_of H att = do {
     lh \<leftarrow> those (map (\<lambda>(i, l). conf_leaf_hash H i (k_record l) (k_num l) (k_den l)) (enum (k_leaves att)));
     inner \<leftarrow> conf_tree_root H lh;
     conf_bound_root H inner (k_metric att) (k_as_of att) (length (k_leaves att))
   }"

text \<open>The reasons; none is \<^verbatim>\<open>ok\<close>.\<close>

definition verify_confidential :: "hashf \<Rightarrow> pgroup \<Rightarrow> conf_att \<Rightarrow> conf_fault list option" where
  "verify_confidential H G att =
     (if k_leaves att = [] then Some [No_Leaves]
      else map_option (\<lambda>rt.
        (if int (length (k_leaves att)) \<noteq> k_n att then [Wrong_Number] else []) @
        (if rt \<noteq> k_root att then [Root_Differs] else []) @
        (if padd G (map k_num (k_leaves att)) \<noteq> k_num_total att then [Num_Sum_Differs] else []) @
        (if padd G (map k_den (k_leaves att)) \<noteq> k_den_total att then [Den_Sum_Differs] else [])) (conf_root_of H att))"

record total_opening =
  t_num :: int
  t_den :: int
  t_rnum :: int
  t_rden :: int

definition open_totals :: "pgroup \<Rightarrow> conf_secret \<Rightarrow> total_opening" where
  "open_totals G sec =
     (let q = subgroup_order G
      in \<lparr>t_num = sum_list (nums sec) mod q, t_den = sum_list (dens sec) mod q,
          t_rnum = sum_list (r_nums sec) mod q, t_rden = sum_list (r_dens sec) mod q\<rparr>)"

datatype opening_fault = Incoherent "conf_fault list" | Num_Not_Opened | Den_Not_Opened | Ratio_Impossible

text \<open>The quotient of the result is given by its two integers.\<close>

definition verify_total_opening :: "hashf \<Rightarrow> pgroup \<Rightarrow> conf_att \<Rightarrow> total_opening \<Rightarrow> (opening_fault list \<times> (int \<times> int) option) option" where
  "verify_total_opening H G att x =
     map_option (\<lambda>fs.
       if fs \<noteq> [] then ([Incoherent fs], None)
       else
         let rs = (if open_commit G (padd G (map k_num (k_leaves att))) (t_num x) (t_rnum x) then [] else [Num_Not_Opened]) @
                  (if open_commit G (padd G (map k_den (k_leaves att))) (t_den x) (t_rden x) then [] else [Den_Not_Opened]);
             rs = (if k_bounded att \<and> rs = [] \<and> t_num x > t_den x then rs @ [Ratio_Impossible] else rs)
         in (rs, if rs = [] \<and> t_den x \<noteq> 0 then Some (t_num x, t_den x) else None))
     (verify_confidential H G att)"

section \<open>Challenged leaves\<close>

definition MAX_SANE :: int where
  "MAX_SANE = 10 ^ 18"

definition challenge_indices :: "hashf \<Rightarrow> conf_att \<Rightarrow> pystr \<Rightarrow> nat \<Rightarrow> int list option" where
  "challenge_indices H att nonce k = challenge H (k_root att) nonce k (nat (k_n att))"

text \<open>Indexing a list: a negative index counts from the end.\<close>

definition py_nth :: "'a list \<Rightarrow> int \<Rightarrow> 'a option" where
  "py_nth xs i =
     (if 0 \<le> i \<and> i < int (length xs) then Some (xs ! nat i)
      else if - int (length xs) \<le> i \<and> i < 0 then Some (xs ! nat (int (length xs) + i))
      else None)"

record opened_leaf =
  ol_index :: int
  ol_num :: int
  ol_rnum :: int
  ol_den :: int
  ol_rden :: int

definition open_challenged :: "conf_secret \<Rightarrow> int list \<Rightarrow> opened_leaf list option" where
  "open_challenged sec is =
     those (map (\<lambda>i. do {
       n \<leftarrow> py_nth (nums sec) i;
       rn \<leftarrow> py_nth (r_nums sec) i;
       d \<leftarrow> py_nth (dens sec) i;
       rd \<leftarrow> py_nth (r_dens sec) i;
       Some \<lparr>ol_index = i, ol_num = n, ol_rnum = rn, ol_den = d, ol_rden = rd\<rparr>
     }) is)"

datatype leaf_fault = Leaf_Num_Not_Opened int | Leaf_Den_Not_Opened int | Leaf_Out_Of_Range int | Nothing_Opened

definition opened_faults :: "pgroup \<Rightarrow> conf_att \<Rightarrow> opened_leaf \<Rightarrow> leaf_fault list option" where
  "opened_faults G att x =
     map_option (\<lambda>l.
       (if open_commit G (k_num l) (ol_num x) (ol_rnum x) then [] else [Leaf_Num_Not_Opened (ol_index x)]) @
       (if open_commit G (k_den l) (ol_den x) (ol_rden x) then [] else [Leaf_Den_Not_Opened (ol_index x)]) @
       (if 0 \<le> ol_num x \<and> ol_num x \<le> ol_den x \<and> ol_den x \<le> MAX_SANE then [] else [Leaf_Out_Of_Range (ol_index x)]))
     (py_nth (k_leaves att) (ol_index x))"

definition verify_challenged :: "pgroup \<Rightarrow> conf_att \<Rightarrow> opened_leaf list \<Rightarrow> leaf_fault list option" where
  "verify_challenged G att xs =
     (if xs = [] then Some [Nothing_Opened] else map_option concat (those (map (opened_faults G att) xs)))"

end
