(* ===== verification/Confidential_Theorems.thy ===== *)
theory Confidential_Theorems
  imports Confidential
begin

text \<open>
  Confidential attestations: what the honest side builds and opens is accepted, the root binds the published commitments, and what an
  opening of the totals does not bind.
\<close>

section \<open>Building succeeds and verifies\<close>

lemma parts_hash: "list_all encodable ps \<Longrightarrow> \<exists>h. text_hash H (enc_parts ps) = Some h \<and> encodable h"
  by (rule hash_defined) (simp add: encodable_parts)

lemma encodable_nat_str [simp]: "encodable (nat_str i)"
  using encodable_int_str(1) [of "int i"] by (simp add: int_str_def)

lemma encodable_appendI: "encodable a \<Longrightarrow> encodable b \<Longrightarrow> encodable (a @ b)"
  by (simp add: encodable_scalar)

lemma conf_round_defined: "list_all encodable xs \<Longrightarrow> \<exists>ys. conf_round H xs = Some ys \<and> list_all encodable ys"
proof (induction H xs rule: conf_round.induct)
  case (1 H l r rest)
  obtain h where h: "text_hash H (enc_parts [lit ''N'', l, r]) = Some h" "encodable h"
    using parts_hash [of "[lit ''N'', l, r]" H] 1(2) by (auto simp: encodable_Cons_scalar scalar_def)
  then obtain ys where ys: "conf_round H rest = Some ys" "list_all encodable ys" using 1 by auto
  then show ?case using h by simp
qed auto

lemma conf_tree_root_defined: "list_all encodable xs \<Longrightarrow> xs \<noteq> [] \<Longrightarrow> \<exists>r. conf_tree_root H xs = Some r \<and> encodable r"
proof (induction H xs rule: conf_tree_root.induct)
  case (1 H cur)
  show ?case
  proof (cases "length cur > 1")
    case True
    obtain nxt where n: "conf_round H cur = Some nxt" "list_all encodable nxt" using conf_round_defined 1(2) by blast
    have "nxt \<noteq> []" using conf_round_length [OF n(1)] True by auto
    then show ?thesis using 1(1) [OF 1(3) True n] True 1(3) n(1) by (subst conf_tree_root.simps) simp
  next
    case False
    then show ?thesis using 1(2,3) by (cases cur) (auto simp: conf_tree_root.simps)
  qed
qed

text \<open>What a record contributes, with the randomizers drawn for it.\<close>

definition part_ok :: "hashf \<Rightarrow> pgroup \<Rightarrow> metric_spec \<Rightarrow> nat \<Rightarrow> loan \<Rightarrow> conf_part \<Rightarrow> bool" where
  "part_ok H G spec i rec p \<longleftrightarrow>
     num_of spec rec = Some (p_num p) \<and> den_of spec rec = Some (p_den p) \<and>
     k_num (p_leaf p) = group_value G (p_num p) (p_rnum p) \<and> k_den (p_leaf p) = group_value G (p_den p) (p_rden p) \<and>
     conf_leaf_hash H i (k_record (p_leaf p)) (k_num (p_leaf p)) (k_den (p_leaf p)) = Some (p_hash p) \<and> encodable (p_hash p)"

lemma conf_part_defined:
  assumes "encodable ms" "encodable (canonical_record rec)" "num_of spec rec = Some n" "den_of spec rec = Some d"
    "0 \<le> n" "n < subgroup_order G" "0 \<le> d" "d < subgroup_order G"
  shows "\<exists>p. conf_part_of H G rnd ms spec i rec = Some p \<and> part_ok H G spec i rec p"
proof -
  obtain salt where s: "leaf_salt H ms i = Some salt" "encodable salt"
    using hash_defined [of "ms @ lit ''|leaf|'' @ nat_str i" H] assms(1)
    by (auto simp: leaf_salt_def encodable_Cons_scalar scalar_def intro!: encodable_appendI)
  obtain rc where rc: "text_hash H (enc_parts [lit ''commit'', salt, canonical_record rec]) = Some rc" "encodable rc"
    using parts_hash [of "[lit ''commit'', salt, canonical_record rec]" H] s(2) assms(2) by (auto simp: encodable_Cons_scalar scalar_def)
  define rn rd where "rn = rand_scalar G (rnd (2 * i))" and "rd = rand_scalar G (rnd (Suc (2 * i)))"
  obtain h where h: "conf_leaf_hash H i rc (group_value G n rn) (group_value G d rd) = Some h" "encodable h"
    using parts_hash [of "[lit ''CL'', nat_str i, rc, int_str (group_value G n rn), int_str (group_value G d rd)]" H] rc(2)
    by (auto simp: conf_leaf_hash_def encodable_Cons_scalar scalar_def)
  show ?thesis
    using assms s rc h by (simp add: conf_part_of_def pcommit_def rn_def [symmetric] rd_def [symmetric] part_ok_def del: lit_Cons)
qed


lemma those_map_defined:
  assumes "\<And>x. x \<in> set xs \<Longrightarrow> \<exists>y. f x = Some y \<and> P x y"
  shows "\<exists>ys. those (map f xs) = Some ys \<and> list_all2 P xs ys"
  using assms
proof (induction xs)
  case (Cons x xs)
  obtain y where "f x = Some y" "P x y" using Cons(2) [of x] by auto
  moreover obtain ys where "those (map f xs) = Some ys" "list_all2 P xs ys" using Cons by auto
  ultimately show ?case by auto
qed simp

text \<open>The records whose contributions the scheme is meant for.\<close>

definition conf_record_ok :: "pgroup \<Rightarrow> metric_spec \<Rightarrow> loan \<Rightarrow> bool" where
  "conf_record_ok G spec r \<longleftrightarrow> encodable (canonical_record r) \<and>
     (case (num_of spec r, den_of spec r) of
        (Some n, Some d) \<Rightarrow> 0 \<le> n \<and> n \<le> d \<and> d \<le> MAX_SANE \<and> d < subgroup_order G
      | _ \<Rightarrow> False)"

lemma conf_record_okD:
  "conf_record_ok G spec r \<Longrightarrow> \<exists>n d. num_of spec r = Some n \<and> den_of spec r = Some d \<and> 0 \<le> n \<and> n \<le> d \<and> d \<le> MAX_SANE"
  by (auto simp: conf_record_ok_def split: option.splits)

lemma py_nth_map: "0 \<le> i \<Longrightarrow> i < int (length xs) \<Longrightarrow> py_nth (map f xs) i = Some (f (xs ! nat i))"
  by (simp add: py_nth_def nat_less_iff)

lemma conf_parts:
  assumes "encodable ms" "\<forall>r\<in>set rs. conf_record_ok G spec r"
  shows "\<exists>ps. those (map (\<lambda>i. conf_part_of H G rnd ms spec i (rs ! i)) [0..<length rs]) = Some ps \<and> length ps = length rs \<and>
    (\<forall>i<length rs. part_ok H G spec i (rs ! i) (ps ! i))"
proof -
  have "\<exists>p. conf_part_of H G rnd ms spec i (rs ! i) = Some p \<and> part_ok H G spec i (rs ! i) p" if "i \<in> set [0..<length rs]" for i
  proof -
    have "conf_record_ok G spec (rs ! i)" using assms(2) that by simp
    then show ?thesis using conf_part_defined [OF assms(1)] by (auto simp: conf_record_ok_def split: option.splits)
  qed
  from those_map_defined [of "[0..<length rs]" "\<lambda>i. conf_part_of H G rnd ms spec i (rs ! i)" "\<lambda>i. part_ok H G spec i (rs ! i)", OF this] obtain ps where "those (map (\<lambda>i. conf_part_of H G rnd ms spec i (rs ! i)) [0..<length rs]) = Some ps"
    "list_all2 (\<lambda>i. part_ok H G spec i (rs ! i)) [0..<length rs] ps" by blast
  then show ?thesis by (auto simp: list_all2_conv_all_nth)
qed

lemma those_nth: "length ys = length xs \<Longrightarrow> (\<And>i. i < length xs \<Longrightarrow> f (xs ! i) = Some (ys ! i)) \<Longrightarrow> those (map f xs) = Some ys"
proof (induction xs arbitrary: ys)
  case (Cons x xs)
  then obtain y zs where y: "ys = y # zs" by (cases ys) auto
  have "f x = Some y" using Cons(3) [of 0] y by simp
  moreover have "those (map f xs) = Some zs" using Cons(1) [of zs] Cons(2) Cons(3) [of "Suc i" for i] y by simp
  ultimately show ?case by (simp add: y)
qed simp

lemma built_attestation:
  assumes ok: "\<forall>i<length rs. part_ok H G spec i (rs ! i) (ps ! i)" "length ps = length rs" "rs \<noteq> []"
    and ps: "those (map (\<lambda>i. conf_part_of H G rnd ms spec i (rs ! i)) [0..<length rs]) = Some ps" and enc: "encodable asof" "encodable (metric_id spec)"
  shows "\<exists>att sec. build_confidential H G rnd rs ms spec asof = Some (att, sec) \<and> k_leaves att = map p_leaf ps \<and> k_n att = int (length rs) \<and>
    k_bounded att = num_le_den spec \<and> sec = \<lparr>nums = map p_num ps, dens = map p_den ps, r_nums = map p_rnum ps, r_dens = map p_rden ps\<rparr> \<and>
    verify_confidential H G att = Some []"
proof -
  have "list_all encodable (map p_hash ps)" using ok by (auto simp: list_all_length part_ok_def)
  moreover have ne: "map p_hash ps \<noteq> []" using ok(2,3) by auto
  ultimately obtain inner where i: "conf_tree_root H (map p_hash ps) = Some inner" "encodable inner" using conf_tree_root_defined by blast
  obtain rt where rt: "conf_bound_root H inner (metric_id spec) asof (length rs) = Some rt"
    using parts_hash [of "[lit ''CLDMA-CONF-1'', metric_id spec, asof, nat_str (length rs), inner]" H] i(2) enc
    by (auto simp: conf_bound_root_def encodable_Cons_scalar scalar_def)
  let ?att = "\<lparr>k_metric = metric_id spec, k_as_of = asof, k_n = int (length rs), k_root = rt, k_leaves = map p_leaf ps,
    k_num_total = padd G (map k_num (map p_leaf ps)), k_den_total = padd G (map k_den (map p_leaf ps)), k_bounded = num_le_den spec\<rparr>"
  have "those (map (\<lambda>(i, l). conf_leaf_hash H i (k_record l) (k_num l) (k_den l)) (enum (map p_leaf ps))) = Some (map p_hash ps)"
    by (rule those_nth) (use ok in \<open>auto simp: enum_def part_ok_def\<close>)
  then have "conf_root_of H ?att = Some rt" using i(1) rt ok(2) by (simp add: conf_root_of_def)
  then have "verify_confidential H G ?att = Some []" using ne ok(2) by (simp add: verify_confidential_def)
  then show ?thesis using ps i(1) rt by (simp add: build_confidential_def Let_def)
qed

section \<open>Openings verify\<close>

lemma sum_parts:
  assumes "\<forall>i<length rs. f (rs ! i) = Some (g (ps ! i))" "length ps = length rs"
  shows "sum_list (map g ps) = (\<Sum>r\<leftarrow>rs. the (f r))"
proof -
  have "map g ps = map (\<lambda>r. the (f r)) rs" by (rule nth_equalityI) (use assms in auto)
  then show ?thesis by simp
qed

lemma sum_list_mod_lt: "0 \<le> x \<Longrightarrow> x < q \<Longrightarrow> x mod q = (x::int)"
  by simp

lemma sum_list_le:
  fixes f g :: "'a \<Rightarrow> int"
  shows "\<forall>x\<in>set xs. 0 \<le> f x \<and> f x \<le> g x \<Longrightarrow> 0 \<le> sum_list (map f xs) \<and> sum_list (map f xs) \<le> sum_list (map g xs)"
  by (induction xs) auto

lemma totals_open:
  assumes G: "group_ok G" and ok: "\<forall>i<length rs. part_ok H G spec i (rs ! i) (ps ! i)" "length ps = length rs"
    and rec: "\<forall>r\<in>set rs. conf_record_ok G spec r" "(\<Sum>r\<leftarrow>rs. the (den_of spec r)) < subgroup_order G"
    and att: "k_leaves att = map p_leaf ps" "verify_confidential H G att = Some []"
    and sec: "sec = \<lparr>nums = map p_num ps, dens = map p_den ps, r_nums = map p_rnum ps, r_dens = map p_rden ps\<rparr>"
  shows "t_num (open_totals G sec) = (\<Sum>r\<leftarrow>rs. the (num_of spec r))" "t_den (open_totals G sec) = (\<Sum>r\<leftarrow>rs. the (den_of spec r))"
    "verify_total_opening H G att (open_totals G sec) =
       Some ([], if t_den (open_totals G sec) \<noteq> 0 then Some (t_num (open_totals G sec), t_den (open_totals G sec)) else None)"
proof -
  let ?n = "\<Sum>r\<leftarrow>rs. the (num_of spec r)" and ?d = "\<Sum>r\<leftarrow>rs. the (den_of spec r)"
  have s: "sum_list (map p_num ps) = ?n" "sum_list (map p_den ps) = ?d"
    by (rule sum_parts; use ok in \<open>auto simp: part_ok_def\<close>)+
  have le: "0 \<le> ?n \<and> ?n \<le> ?d"
    by (rule sum_list_le) (use rec(1) conf_record_okD in fastforce)
  then show t: "t_num (open_totals G sec) = ?n" "t_den (open_totals G sec) = ?d"
    using rec(2) by (simp_all add: open_totals_def Let_def sec s)
  have l: "list_all2 (\<lambda>c (v, r). c = group_value G v r) (map k_num (k_leaves att)) (map (\<lambda>p. (p_num p, p_rnum p)) ps)"
    "list_all2 (\<lambda>c (v, r). c = group_value G v r) (map k_den (k_leaves att)) (map (\<lambda>p. (p_den p, p_rden p)) ps)"
    using ok by (auto simp: att(1) list_all2_conv_all_nth part_ok_def)
  have "padd G (map k_num (k_leaves att)) = group_value G (sum_list (map p_num ps)) (sum_list (map p_rnum ps))"
    "padd G (map k_den (k_leaves att)) = group_value G (sum_list (map p_den ps)) (sum_list (map p_rden ps))"
    using padd_values [OF G l(1)] padd_values [OF G l(2)] by (simp_all add: comp_def)
  then have "open_commit G (padd G (map k_num (k_leaves att))) (t_num (open_totals G sec)) (t_rnum (open_totals G sec))"
    "open_commit G (padd G (map k_den (k_leaves att))) (t_den (open_totals G sec)) (t_rden (open_totals G sec))"
    by (simp_all add: open_commit_def open_totals_def Let_def sec)
  then show "verify_total_opening H G att (open_totals G sec) =
       Some ([], if t_den (open_totals G sec) \<noteq> 0 then Some (t_num (open_totals G sec), t_den (open_totals G sec)) else None)"
    using le by (simp add: verify_total_opening_def att(2) t)
qed

lemma challenged_open:
  assumes ok: "\<forall>i<length rs. part_ok H G spec i (rs ! i) (ps ! i)" "length ps = length rs" and rec: "\<forall>r\<in>set rs. conf_record_ok G spec r"
    and att: "k_leaves att = map p_leaf ps" and sec: "sec = \<lparr>nums = map p_num ps, dens = map p_den ps, r_nums = map p_rnum ps, r_dens = map p_rden ps\<rparr>"
    and js: "js \<noteq> []" "set js \<subseteq> {0..<int (length rs)}"
  shows "\<exists>os. open_challenged sec js = Some os \<and> verify_challenged G att os = Some []"
proof -
  let ?o = "\<lambda>i. \<lparr>ol_index = i, ol_num = p_num (ps ! nat i), ol_rnum = p_rnum (ps ! nat i), ol_den = p_den (ps ! nat i), ol_rden = p_rden (ps ! nat i)\<rparr>"
  have o: "open_challenged sec js = Some (map ?o js)" unfolding open_challenged_def
  proof (rule those_nth)
    fix i assume i: "i < length js"
    have "js ! i \<in> {0..<int (length ps)}" using nth_mem [OF i] js(2) ok(2) by auto
    then show "do { n \<leftarrow> py_nth (nums sec) (js ! i); rn \<leftarrow> py_nth (r_nums sec) (js ! i); d \<leftarrow> py_nth (dens sec) (js ! i); rd \<leftarrow> py_nth (r_dens sec) (js ! i);
        Some \<lparr>ol_index = js ! i, ol_num = n, ol_rnum = rn, ol_den = d, ol_rden = rd\<rparr> } = Some (map ?o js ! i)"
      using i by (simp add: sec py_nth_map)
  qed simp
  have f: "opened_faults G att (?o i) = Some []" if i: "i \<in> set js" for i
  proof -
    have j: "nat i < length rs" "0 \<le> i" using subsetD [OF js(2) i] by auto
    then have "part_ok H G spec (nat i) (rs ! nat i) (ps ! nat i)" "conf_record_ok G spec (rs ! nat i)" using ok(1) rec by auto
    then show ?thesis using j ok(2) by (auto simp: opened_faults_def py_nth_def att part_ok_def open_commit_def conf_record_ok_def)
  qed
  have "those (map (opened_faults G att) (map ?o js)) = Some (replicate (length js) [])"
    by (rule those_nth) (use f in auto)
  then have "verify_challenged G att (map ?o js) = Some []" using js(1) by (simp add: verify_challenged_def del: map_map)
  then show ?thesis using o by blast
qed

section \<open>The root binds the commitments\<close>

text \<open>The texts hashed for a root.\<close>

fun round_texts :: "pystr list \<Rightarrow> pystr list" where
  "round_texts (l # r # rest) = enc_parts [lit ''N'', l, r] # round_texts rest"
| "round_texts xs = []"

function tree_texts :: "hashf \<Rightarrow> pystr list \<Rightarrow> pystr list" where
  "tree_texts H cur =
     (if length cur > 1 then round_texts cur @ (case conf_round H cur of None \<Rightarrow> [] | Some nxt \<Rightarrow> tree_texts H nxt) else [])"
  by pat_completeness auto
termination
  by (relation "measure (\<lambda>(H, cur). length cur)") (auto dest: conf_round_length)

declare tree_texts.simps [simp del]

definition conf_leaf_text :: "nat \<Rightarrow> conf_leaf \<Rightarrow> pystr" where
  "conf_leaf_text i l = enc_parts [lit ''CL'', nat_str i, k_record l, int_str (k_num l), int_str (k_den l)]"

definition conf_texts :: "hashf \<Rightarrow> conf_att \<Rightarrow> pystr set" where
  "conf_texts H att =
     (let lh = map (\<lambda>(i, l). the (text_hash H (conf_leaf_text i l))) (enum (k_leaves att))
      in insert (enc_parts [lit ''CLDMA-CONF-1'', k_metric att, k_as_of att, nat_str (length (k_leaves att)), the (conf_tree_root H lh)])
           ((\<lambda>(i, l). conf_leaf_text i l) ` set (enum (k_leaves att)) \<union> set (tree_texts H lh)))"

lemma conf_round_inj:
  assumes "conf_round H xs = Some zs" "conf_round H ys = Some zs" "length xs = length ys" "set (round_texts xs) \<union> set (round_texts ys) \<subseteq> U"
  shows "xs = ys \<or> collision H (utf8 ` U)"
  using assms
proof (induction H xs arbitrary: ys zs rule: conf_round.induct)
  case (1 H l r rest)
  obtain l2 r2 rest2 where ys: "ys = l2 # r2 # rest2" using 1(4) by (cases ys; cases "tl ys") auto
  obtain h hs where h: "text_hash H (enc_parts [lit ''N'', l, r]) = Some h" "conf_round H rest = Some hs" "zs = h # hs"
    using 1(2) by (auto split: bind_splits)
  have h2: "text_hash H (enc_parts [lit ''N'', l2, r2]) = Some h" "conf_round H rest2 = Some hs"
    using 1(3) h(3) ys by (auto split: bind_splits)
  have "rest = rest2 \<or> collision H (utf8 ` U)" using 1(1) [OF h(1,2) h2(2)] 1(4,5) ys by auto
  moreover have "(l = l2 \<and> r = r2) \<or> collision H (utf8 ` U)" using text_hash_bind [OF h(1) h2(1), of U] 1(5) ys by auto
  ultimately show ?case using ys by blast
qed (auto simp: Suc_length_conv)

lemma conf_tree_inj:
  assumes "conf_tree_root H xs = Some r" "conf_tree_root H ys = Some r" "length xs = length ys" "set (tree_texts H xs) \<union> set (tree_texts H ys) \<subseteq> U"
  shows "xs = ys \<or> collision H (utf8 ` U)"
  using assms
proof (induction H xs arbitrary: ys rule: conf_tree_root.induct)
  case (1 H xs)
  have ne: "xs \<noteq> []" "ys \<noteq> []" using 1(2,3) by (auto simp: conf_tree_root.simps)
  show ?case
  proof (cases "length xs > 1")
    case True
    then have y: "length ys > 1" using 1(4) by simp
    obtain nx ny where n: "conf_round H xs = Some nx" "conf_tree_root H nx = Some r" "conf_round H ys = Some ny" "conf_tree_root H ny = Some r"
      using 1(2,3) ne True y by (subst (asm) (1 2) conf_tree_root.simps) (auto split: option.splits)
    have t: "set (tree_texts H nx) \<union> set (tree_texts H ny) \<subseteq> U" "set (round_texts xs) \<union> set (round_texts ys) \<subseteq> U"
      using 1(5) True y n by (auto simp: tree_texts.simps [of H xs] tree_texts.simps [of H ys])
    have "length nx = length ny" using conf_round_length n 1(4) by simp
    then have "nx = ny \<or> collision H (utf8 ` U)" using 1(1) [OF ne(1) True n(1,2,4)] t(1) by blast
    then show ?thesis using conf_round_inj [OF n(1) _ 1(4) t(2)] n(3) by blast
  next
    case False
    then obtain a b where "xs = [a]" "ys = [b]" using ne 1(4) by (cases xs; cases ys) auto
    then show ?thesis using 1(2,3) by (simp add: conf_tree_root.simps)
  qed
qed

lemma conf_root_parts:
  assumes "conf_root_of H att = Some rt"
  defines "lh \<equiv> map (\<lambda>(i, l). the (text_hash H (conf_leaf_text i l))) (enum (k_leaves att))"
  shows "length lh = length (k_leaves att)" "\<forall>i<length (k_leaves att). text_hash H (conf_leaf_text i (k_leaves att ! i)) = Some (lh ! i)"
    "\<exists>inner. conf_tree_root H lh = Some inner \<and>
      text_hash H (enc_parts [lit ''CLDMA-CONF-1'', k_metric att, k_as_of att, nat_str (length (k_leaves att)), inner]) = Some rt"
    "set (tree_texts H lh) \<subseteq> conf_texts H att" "\<forall>i<length (k_leaves att). conf_leaf_text i (k_leaves att ! i) \<in> conf_texts H att"
    "enc_parts [lit ''CLDMA-CONF-1'', k_metric att, k_as_of att, nat_str (length (k_leaves att)), the (conf_tree_root H lh)] \<in> conf_texts H att"
proof -
  obtain hs inner where r: "those (map (\<lambda>(i, l). conf_leaf_hash H i (k_record l) (k_num l) (k_den l)) (enum (k_leaves att))) = Some hs"
    "conf_tree_root H hs = Some inner" "conf_bound_root H inner (k_metric att) (k_as_of att) (length (k_leaves att)) = Some rt"
    using assms(1) by (auto simp: conf_root_of_def split: bind_splits)
  have e: "map (\<lambda>(i, l). text_hash H (conf_leaf_text i l)) (enum (k_leaves att)) = map Some hs"
    using r(1) unfolding those_Some by (simp add: conf_leaf_hash_def conf_leaf_text_def)
  have hs: "hs = lh"
  proof -
    have "hs = map the (map Some hs)" by simp
    also have "\<dots> = lh" unfolding e [symmetric] lh_def by (simp add: comp_def case_prod_unfold)
    finally show ?thesis .
  qed
  show "length lh = length (k_leaves att)" by (simp add: lh_def enum_def)
  show "\<forall>i<length (k_leaves att). text_hash H (conf_leaf_text i (k_leaves att ! i)) = Some (lh ! i)"
  proof (intro allI impI)
    fix i assume i: "i < length (k_leaves att)"
    then have "map (\<lambda>(i, l). text_hash H (conf_leaf_text i l)) (enum (k_leaves att)) ! i = text_hash H (conf_leaf_text i (k_leaves att ! i))"
      by (simp add: enum_def)
    moreover have "map Some hs ! i = Some (lh ! i)" using i by (simp add: hs lh_def enum_def)
    ultimately show "text_hash H (conf_leaf_text i (k_leaves att ! i)) = Some (lh ! i)" using e by simp
  qed
  show "\<exists>inner. conf_tree_root H lh = Some inner \<and>
      text_hash H (enc_parts [lit ''CLDMA-CONF-1'', k_metric att, k_as_of att, nat_str (length (k_leaves att)), inner]) = Some rt"
    using r(2,3) hs by (simp add: conf_bound_root_def)
  show "set (tree_texts H lh) \<subseteq> conf_texts H att"
    "enc_parts [lit ''CLDMA-CONF-1'', k_metric att, k_as_of att, nat_str (length (k_leaves att)), the (conf_tree_root H lh)] \<in> conf_texts H att"
    by (auto simp: conf_texts_def lh_def Let_def)
  show "\<forall>i<length (k_leaves att). conf_leaf_text i (k_leaves att ! i) \<in> conf_texts H att"
    by (force simp: conf_texts_def Let_def enum_def set_zip)
qed

lemma conf_root_same:
  assumes a: "conf_root_of H a = Some rt" and b: "conf_root_of H b = Some rt" and U: "conf_texts H a \<union> conf_texts H b \<subseteq> U"
  shows "(k_metric a = k_metric b \<and> k_as_of a = k_as_of b \<and> k_leaves a = k_leaves b) \<or> collision H (utf8 ` U)"
proof (cases "collision H (utf8 ` U)")
  case False
  define la lb where "la = map (\<lambda>(i, l). the (text_hash H (conf_leaf_text i l))) (enum (k_leaves a))"
    and "lb = map (\<lambda>(i, l). the (text_hash H (conf_leaf_text i l))) (enum (k_leaves b))"
  note A = conf_root_parts [OF a, folded la_def] and B = conf_root_parts [OF b, folded lb_def]
  obtain x y where x: "conf_tree_root H la = Some x" "text_hash H (enc_parts [lit ''CLDMA-CONF-1'', k_metric a, k_as_of a, nat_str (length (k_leaves a)), x]) = Some rt"
    and y: "conf_tree_root H lb = Some y" "text_hash H (enc_parts [lit ''CLDMA-CONF-1'', k_metric b, k_as_of b, nat_str (length (k_leaves b)), y]) = Some rt"
    using A(3) B(3) by blast
  have "enc_parts [lit ''CLDMA-CONF-1'', k_metric a, k_as_of a, nat_str (length (k_leaves a)), x] =
      enc_parts [lit ''CLDMA-CONF-1'', k_metric b, k_as_of b, nat_str (length (k_leaves b)), y]"
    using text_hash_bind [OF x(2) y(2), of U] A(6) B(6) U False unfolding x(1) y(1) option.sel by blast
  then have m: "k_metric a = k_metric b" "k_as_of a = k_as_of b" "length (k_leaves a) = length (k_leaves b)" "x = y"
    by (simp_all add: nat_str_inj)
  have l: "la = lb" using conf_tree_inj [OF x(1), of lb U] y(1) m A(1,4) B(1,4) U False by auto
  have "k_leaves a ! i = k_leaves b ! i" if i: "i < length (k_leaves a)" for i
  proof -
    have "text_hash H (conf_leaf_text i (k_leaves a ! i)) = Some (lb ! i)" "text_hash H (conf_leaf_text i (k_leaves b ! i)) = Some (lb ! i)"
      using A(2) B(2) i m(3) l by simp_all
    moreover have "conf_leaf_text i (k_leaves a ! i) \<in> U" "conf_leaf_text i (k_leaves b ! i) \<in> U" using A(5) B(5) i m(3) U by auto
    ultimately have "conf_leaf_text i (k_leaves a ! i) = conf_leaf_text i (k_leaves b ! i)" using text_hash_bind False by blast
    then show ?thesis by (cases "k_leaves a ! i"; cases "k_leaves b ! i") (simp add: conf_leaf_text_def)
  qed
  then show ?thesis using m by (auto intro: nth_equalityI)
qed simp

section \<open>Properties\<close>


text \<open>A safe prime above the totals of the example.\<close>

definition example_group :: pgroup where
  "example_group = \<lparr>modulus = 100043, subgroup_order = 50021, gen_g = 4, gen_h = 9\<rparr>"

lemma group_okI:
  assumes "1 < p" "0 < q" "pow_mod g (nat q) p = 1" "pow_mod h (nat q) p = 1"
  shows "group_ok \<lparr>modulus = p, subgroup_order = q, gen_g = g, gen_h = h\<rparr>"
  using assms by (simp add: group_ok_def pow_mod_power)

lemma example_group_ok: "group_ok example_group"
  unfolding example_group_def
  by (rule group_okI) (simp_all add: pow_mod.simps [of _ "numeral k" for k] pow_mod.simps [of _ "Suc 0"] pow_mod.simps [of _ 0])

lemma example_records_ok:
  "\<forall>r\<in>set example_loans. conf_record_ok example_group (SPEC_PAR30 (\<lambda>s. s)) r" "(\<Sum>r\<leftarrow>example_loans. the (den_of (SPEC_PAR30 (\<lambda>s. s)) r)) < subgroup_order example_group"
proof -
  have l: "example_loans = [example_loans ! 0, example_loans ! 1]" by (simp add: example_loans_def)
  then have s: "set example_loans = {example_loans ! 0, example_loans ! 1}" by (metis list.set(1,2))
  show "\<forall>r\<in>set example_loans. conf_record_ok example_group (SPEC_PAR30 (\<lambda>s. s)) r"
    using example_contributions example_outstanding unfolding s by (auto simp: conf_record_ok_def SPEC_PAR30_def MAX_SANE_def example_group_def)
  show "(\<Sum>r\<leftarrow>example_loans. the (den_of (SPEC_PAR30 (\<lambda>s. s)) r)) < subgroup_order example_group"
    by (subst l) (simp add: SPEC_PAR30_def example_outstanding [simplified] example_group_def)
qed

lemma example_texts: "example_loans \<noteq> []" "encodable (lit ''s'')" "encodable (lit ''2026'')" "encodable (metric_id (SPEC_PAR30 (\<lambda>s. s)))"
  by (simp_all add: example_loans_def SPEC_PAR30_def encodable_Cons_scalar scalar_def)


text \<open>
  C39. What an opening of the totals does not bind: the check compares commitments, which are equal for totals that differ by a
  multiple of the order of the subgroup, and has no range check, so an accepted opening is also accepted with a denominator that is
  larger by any such multiple: the ratio it reports can be made as small as one likes.
\<close>

theorem total_opening_ambiguous:
  assumes "verify_total_opening H G att x = Some ([], r)" "0 < subgroup_order G" "0 \<le> k" "0 < t_den x"
  shows "verify_total_opening H G att (x\<lparr>t_den := t_den x + k * subgroup_order G\<rparr>) = Some ([], Some (t_num x, t_den x + k * subgroup_order G))"
proof -
  have v: "verify_confidential H G att = Some []" using assms(1) by (auto simp: verify_total_opening_def split: if_splits)
  have "open_commit G c (v + k * subgroup_order G) s = open_commit G c v s" for c v s by (simp add: open_commit_def group_value_def)
  moreover have "0 \<le> k * subgroup_order G" using assms(2,3) by simp
  ultimately show ?thesis using assms(1,4) by (auto simp: verify_total_opening_def v Let_def split: if_splits)
qed

theorem total_opening_ambiguous_witness:
  "\<exists>att x r. verify_total_opening example_hash example_group att x = Some ([], r) \<and> t_den x = 40050 \<and>
    verify_total_opening example_hash example_group att (x\<lparr>t_den := t_den x + 7 * subgroup_order example_group\<rparr>) = Some ([], Some (t_num x, 390197))"
proof -
  obtain ps where ps: "those (map (\<lambda>i. conf_part_of example_hash example_group (\<lambda>i. [of_nat i]) (lit ''s'') (SPEC_PAR30 (\<lambda>s. s)) i (example_loans ! i)) [0..<length example_loans]) = Some ps"
    "length ps = length example_loans" "\<forall>i<length example_loans. part_ok example_hash example_group (SPEC_PAR30 (\<lambda>s. s)) i (example_loans ! i) (ps ! i)"
    using conf_parts [OF example_texts(2) example_records_ok(1)] by blast
  obtain att sec where b: "k_leaves att = map p_leaf ps" "verify_confidential example_hash example_group att = Some []"
    "sec = \<lparr>nums = map p_num ps, dens = map p_den ps, r_nums = map p_rnum ps, r_dens = map p_rden ps\<rparr>"
    using built_attestation [OF ps(3,2) example_texts(1) ps(1) example_texts(3,4)] by (elim exE conjE)
  note t = totals_open [OF example_group_ok ps(3,2) example_records_ok b]
  have l: "example_loans = [example_loans ! 0, example_loans ! 1]" by (simp add: example_loans_def)
  have d: "t_den (open_totals example_group sec) = 40050" unfolding t(2) by (subst l) (simp add: SPEC_PAR30_def example_outstanding [simplified])
  show ?thesis using total_opening_ambiguous [OF t(3), of 7] t(3) d by (intro exI [of _ att] exI [of _ "open_totals example_group sec"]) (simp add: example_group_def)
qed

text \<open>
  C40. The root binds what is published: two documents whose roots are recomputed and equal name the same metric, date and
  commitments in the same order, or two different texts that were hashed for them have one digest. Both pass \<^verbatim>\<open>verify_confidential\<close>.
\<close>

theorem confidential_root_binds:
  assumes "verify_confidential H G a = Some []" "verify_confidential H G b = Some []" "k_root a = k_root b"
  shows "(k_metric a = k_metric b \<and> k_as_of a = k_as_of b \<and> k_n a = k_n b \<and> k_leaves a = k_leaves b \<and> k_num_total a = k_num_total b \<and> k_den_total a = k_den_total b)
    \<or> collision H (utf8 ` (conf_texts H a \<union> conf_texts H b))"
proof -
  have v: "conf_root_of H x = Some (k_root x) \<and> k_n x = int (length (k_leaves x)) \<and> k_num_total x = padd G (map k_num (k_leaves x)) \<and>
      k_den_total x = padd G (map k_den (k_leaves x))" if "verify_confidential H G x = Some []" for x
    using that by (auto simp: verify_confidential_def split: if_splits)
  have r: "conf_root_of H a = Some (k_root a)" "conf_root_of H b = Some (k_root a)" using v assms by auto
  from conf_root_same [OF r subset_refl] show ?thesis using v [OF assms(1)] v [OF assms(2)] by auto
qed

theorem confidential_root_binds_witness:
  "\<exists>a b. verify_confidential example_hash example_group a = Some [] \<and> verify_confidential example_hash example_group b = Some [] \<and> k_root a = k_root b \<and>
    (k_leaves a = k_leaves b \<or> collision example_hash (utf8 ` (conf_texts example_hash a \<union> conf_texts example_hash b)))"
proof -
  obtain ps where ps: "those (map (\<lambda>i. conf_part_of example_hash example_group (\<lambda>i. [of_nat i]) (lit ''s'') (SPEC_PAR30 (\<lambda>s. s)) i (example_loans ! i)) [0..<length example_loans]) = Some ps"
    "length ps = length example_loans" "\<forall>i<length example_loans. part_ok example_hash example_group (SPEC_PAR30 (\<lambda>s. s)) i (example_loans ! i) (ps ! i)"
    using conf_parts [OF example_texts(2) example_records_ok(1)] by blast
  obtain a where a: "verify_confidential example_hash example_group a = Some []"
    using built_attestation [OF ps(3,2) example_texts(1) ps(1) example_texts(3,4)] by blast
  let ?b = "a\<lparr>k_bounded := \<not> k_bounded a\<rparr>"
  have "verify_confidential example_hash example_group ?b = verify_confidential example_hash example_group a" by (simp add: verify_confidential_def conf_root_of_def)
  then have b: "verify_confidential example_hash example_group ?b = Some []" using a by simp
  have k: "k_root a = k_root ?b" by simp
  show ?thesis using confidential_root_binds [OF a b k] a b k by blast
qed

end
