(* ===== verification/Spec2Isabelle.thy ===== *)
theory Spec2Isabelle
  imports Signer Witness_Safety Receipt Attestation_Theorems Monitor_Safety Ingest_Theorems Scitt_Theorems Confidential_Theorems
begin

text \<open>
  Verification of the open core of CryptoValid: tamper-evident ledgers, their Merkle proofs, the signatures, checkpoints,
  witnesses, receipts and transparent statements around them, and the attestation of metrics over a committed ledger.

  \<^bold>\<open>The program.\<close> A ledger is a text file of JSON objects, one per line, each with the hash of its canonical content and
  the hash of the one before. \<^verbatim>\<open>src/verifier.py\<close> checks such a file; \<^verbatim>\<open>src/signer.py\<close> signs its entries;
  \<^verbatim>\<open>src/cryptovalid_tip.py\<close> signs its length and head, so that a lost tail shows; \<^verbatim>\<open>src/cryptovalid_merkle.py\<close> computes
  RFC 6962 tree hashes and proofs over the canonical entries; \<^verbatim>\<open>src/cryptovalid_ingest.py\<close> writes ledgers in sealed segments
  and audits them; \<^verbatim>\<open>src/cryptovalid_checkpoint.py\<close> and \<^verbatim>\<open>src/cryptovalid_witness.py\<close> publish and cosign tree heads;
  \<^verbatim>\<open>src/cryptovalid_receipt.py\<close> and \<^verbatim>\<open>src/cryptovalid_scitt.py\<close> issue and check receipts offline;
  \<^verbatim>\<open>src/cryptovalid_monitor.py\<close> compares a ledger with what it was; \<^verbatim>\<open>src/committed_attestation.py\<close> proves ratios over the
  records of a ledger without showing them all.

  \<^bold>\<open>Foundations.\<close> \<open>Prelude\<close> (octets, Python strings as lists of code points, JSON values, the notion of an explicit
  collision), \<open>Py_Str\<close>, \<open>Py_Utf8\<close>, \<open>Py_Bytes\<close>, \<open>Py_Decimal\<close>, \<open>Py_Json\<close>, \<open>Py_Json_Read\<close> and \<open>Py_Json_Roundtrip\<close> model what the
  code uses of Python: string and number texts, UTF-8, big-endian integers, the JSON reader and writer with the acceptance
  profile of \<^verbatim>\<open>_loads_strict\<close> (no floats, no repeated keys, integers up to \<^verbatim>\<open>2^53 - 1\<close>, 500 levels, no lone surrogates).
  \<open>Codec\<close> holds hexadecimal, base64 and the locale \<open>codec\<close>, which every pair of an encoder and a decoder interprets;
  \<open>Cbor\<close> the codec of \<^verbatim>\<open>cryptovalid_receipt.py\<close>; \<open>Output\<close> the one writer of every command with its short writes and failures,
  under the locale \<open>whole_or_nothing\<close>.

  \<^bold>\<open>Components.\<close>
  \<^item> \<open>Ledger\<close>: canonical payload, algorithm detection and the chain checks of \<^verbatim>\<open>verify_ledger\<close>, characterised by \<open>valid_chain\<close>, an
    interpretation of the locale \<open>hash_chain\<close>;
    \<open>Verifier\<close>: the whole verdict with the tip options, and the exit codes.
  \<^item> \<open>Tip\<close>: signed chain tips, \<^verbatim>\<open>verify_tip_signature\<close> and \<^verbatim>\<open>check_tip\<close>. \<open>Signer\<close>: entry signatures with the post-quantum
    layer. \<open>Ed25519_Order\<close>: points of small and mixed order.
  \<^item> \<open>Merkle\<close>: tree hash, proofs and the two bit loops of RFC 9162 at the integers Python uses; \<open>Merkle_Inclusion\<close> and
    \<open>Merkle_Consistency\<close> reduce the loops to walks of the recursive tree; \<open>Merkle_Binding\<close> is their soundness.
  \<^item> \<open>Ledger_File\<close>: reading ledgers for the Merkle commands, with the commands; \<open>Ledger_Pass\<close>: written ledgers pass.
  \<^item> \<open>Checkpoint\<close>: keys, checkpoint texts and signed notes. \<open>Witness\<close>: the state file, every rule of \<^verbatim>\<open>witness_cosign\<close> and its
    records; \<open>Tree_History\<close>: the locale of histories of trees whose steps were checked, interpreted on the Merkle proofs and
    used for the witness and the monitor; \<open>Witness_Safety\<close>: what any sequence of requests can leave behind.
  \<^item> \<open>Receipt\<close>: receipts in JSON and COSE form. \<open>Scitt\<close>, \<open>Scitt_Theorems\<close>: signed and transparent statements.
  \<^item> \<open>Committed_Attestation\<close>, \<open>Attestation_Binding\<close>, \<open>Attestation_Theorems\<close>: metrics, the Merkle sum tree, openings,
    challenge and full recomputation. \<open>Pedersen\<close>, \<open>Confidential\<close>, \<open>Confidential_Theorems\<close>: the variant with committed contributions
    (\<^verbatim>\<open>src/pedersen_commit.py\<close>, \<^verbatim>\<open>src/cldma_confidential.py\<close>), over any group; that the generators of the RFC 3526 group have the
    order of its subgroup is the hypothesis \<open>group_ok\<close>, which the example proves for a small one.
  \<^item> \<open>Ingest\<close>: the ingestor as a transition function whose environment decides each system call; \<open>Archive\<close>: the auditor
    \<^verbatim>\<open>verify_archive\<close>; \<open>Ingest_Safety\<close>, \<open>Archive_Audit\<close> and \<open>Ingest_Theorems\<close>: refinement of an abstract event log, durability,
    recovery from a crash, and that every archive left behind passes. \<open>Monitor\<close>, \<open>Monitor_Safety\<close>: runs over time.

  \<^bold>\<open>What the properties show.\<close> Soundness is stated by extraction: what a check accepts is what was committed, signed or
  registered, or the statement names two different inputs, of the committing party or of the verifier, with one hash value. Completeness:
  what the code issues, its own checks accept, with the existence of every encoding on the way. Equivalence: each verdict is exactly a
  stated condition. State: invariants and refinement over all runs, system calls that fail at any point included.

  \<^bold>\<open>Parameters.\<close> Hash functions, Ed25519 and ML-DSA verification, signing keys (\<open>signing_key\<close>), the order of calls to the operating
  system and their results (\<open>sys\<close>, \<open>env\<close>, \<open>wit_io\<close>), the clock, \<^verbatim>\<open>str.lower\<close> beyond ASCII and compiled regular expressions are
  arguments. Hypotheses about them are their documented behaviour: 32-octet digests, keys that verify what they signed. The examples
  instantiate them with computable functions.

  \<^bold>\<open>Errors and bounds.\<close> Every refusal is a constructor of an outcome type. Where the code raises, the model gives
  \<open>None\<close>, \<open>Inl\<close> or \<open>Raising\<close>; \<open>Beyond\<close> and \<open>Other\<close> are values the model has no place for (floats, which plain \<^verbatim>\<open>json.loads\<close> admits)
  and no theorem relies on them. Python integers are \<open>int\<close>, octets \<open>8 word\<close>. All loops are structural or proved to terminate by a
  measure; the CBOR decoder has the depth bound of the code (64), the JSON reader its own (500). The challenge loop, which in the
  code may draw for ever, takes the list of draws, and its termination is a theorem about it.

  \<^bold>\<open>Not modelled.\<close> Key files and their permissions, command lines and the wording of messages, sockets and HTTP clients
  (timestamps, trusted lists, key management services, public blockchains), HTML and PDF reports, and floating point:
  \<^verbatim>\<open>detection_probability\<close> and the RFC 8785 canonicalization of \<^verbatim>\<open>cryptovalid_acta.py\<close> with the formats that rest on it. The
  verifiers in other languages under \<^verbatim>\<open>src/verifiers\<close> and the testing tools are outside as well.
\<close>

end
